(* ===== verification/Prelude.thy ===== *)
theory Prelude
  imports Main "HOL-Library.Word"
begin

text \<open>
  Shared vocabulary of the development: the machine integers of the i386 build, the faults a kernel
  operation can run into, the result type that carries them, and the generic facts on lists and words
  that several components use.

  The target is gcc \<open>-m32\<close>: \<open>int\<close>, \<open>long\<close>, \<open>size_t\<close> and pointers
  have 32 bits, \<open>char\<close> is signed and has 8 bits.  Words model the C types whose wrap-around or
  bit pattern matters; array indices and loop counters that are bounded by an array are \<open>nat\<close>.
\<close>

unbundle bit_operations_syntax

type_synonym u8 = "8 word"
type_synonym u16 = "16 word"
type_synonym u32 = "32 word"

section \<open>Faults and results\<close>

text \<open>
  \<open>AssertFail\<close> is a failed \<open>assert\<close> (\<open>CONFIG_DEBUG = 1\<close>: it prints and calls
  \<open>abort\<close>, which never returns), \<open>NullDeref\<close> an access through a null pointer,
  \<open>OutOfBounds\<close> an access outside an array, \<open>Corrupt\<close> the unlinking of an entry from a queue
  it is not on (which rewrites the pointers of another queue), \<open>Diverge\<close> a loop that did not end within the
  fuel given to it.
\<close>

datatype fault = AssertFail | NullDeref | OutOfBounds | Corrupt | Diverge

datatype 'a result = Ok 'a | Fault fault

fun rbind :: "'a result \<Rightarrow> ('a \<Rightarrow> 'b result) \<Rightarrow> 'b result" where
  "rbind (Ok x) f = f x"
| "rbind (Fault e) f = Fault e"

definition rguard :: "bool \<Rightarrow> fault \<Rightarrow> 'a result \<Rightarrow> 'a result" where
  "rguard b e r = (if b then r else Fault e)"

fun is_Ok :: "'a result \<Rightarrow> bool" where
  "is_Ok (Ok x) = True"
| "is_Ok (Fault e) = False"

text \<open>The members of \<open>errno.h\<close> that the modelled operations return; \<open>E_OK\<close> is \<open>0\<close>.\<close>

datatype errno = E_OK | EBUSY | EINVAL | EAGAIN | ERANGE | EDEADLK | ESRCH | ETIMEDOUT | EFAULT

named_theorems result_simps \<open>inversion of a successful composite operation\<close>

lemma rbind_eq_Ok [result_simps]: "rbind r f = Ok y \<longleftrightarrow> (\<exists>x. r = Ok x \<and> f x = Ok y)"
  by (cases r) auto

lemma rguard_eq_Ok [result_simps]: "rguard b e r = Ok y \<longleftrightarrow> b \<and> r = Ok y"
  by (simp add: rguard_def)

lemma rguard_True [simp]: "rguard True e r = r"
  by (simp add: rguard_def)

lemma rguard_False [simp]: "rguard False e r = Fault e"
  by (simp add: rguard_def)

lemma is_Ok_iff: "is_Ok r \<longleftrightarrow> (\<exists>x. r = Ok x)"
  by (cases r) auto

lemma rbind_assoc: "rbind (rbind r f) g = rbind r (\<lambda>x. rbind (f x) g)"
  by (cases r) auto

section \<open>Lists\<close>

lemma remove1_notin [simp]: "x \<notin> set xs \<Longrightarrow> remove1 x xs = xs"
  by (induction xs) auto

lemma distinct_split:
  assumes "x \<in> set xs" and "distinct xs"
  obtains as bs where "xs = as @ x # bs" and "x \<notin> set as" and "x \<notin> set bs" and "distinct (as @ bs)"
    and "remove1 x xs = as @ bs"
proof -
  from assms(1) obtain as bs where "xs = as @ x # bs" and "x \<notin> set as"
    by (meson split_list_first)
  with assms(2) show ?thesis
    by (intro that[of as bs]) (auto simp: remove1_append)
qed

text \<open>C's division and remainder of signed integers truncate towards zero.\<close>

definition cdiv :: "int \<Rightarrow> int \<Rightarrow> int" where
  "cdiv a b = sgn a * sgn b * (\<bar>a\<bar> div \<bar>b\<bar>)"

definition cmod :: "int \<Rightarrow> int \<Rightarrow> int" where
  "cmod a b = a - cdiv a b * b"

lemma cdiv_nonneg: "0 \<le> a \<Longrightarrow> 0 < b \<Longrightarrow> cdiv a b = a div b"
  by (cases "a = 0") (simp_all add: cdiv_def)

lemma cmod_nonneg: "0 \<le> a \<Longrightarrow> 0 < b \<Longrightarrow> cmod a b = a mod b"
  by (simp add: cmod_def cdiv_nonneg minus_div_mult_eq_mod)

lemma int_div_less_iff:
  fixes a b c :: int
  assumes "0 < b"
  shows "a div b < c \<longleftrightarrow> a < c * b"
proof
  assume "a div b < c"
  then have "(a div b + 1) * b \<le> c * b"
    using assms by (intro mult_right_mono) auto
  moreover have "a mod b < b" "a = a div b * b + a mod b"
    using assms by simp_all
  moreover have "(a div b + 1) * b = a div b * b + b"
    by (simp add: distrib_right)
  ultimately show "a < c * b"
    by linarith
next
  assume "a < c * b"
  moreover have "a div b * b \<le> a"
    using assms by (metis div_mult_mod_eq le_add_same_cancel1 pos_mod_sign)
  ultimately have "a div b * b < c * b"
    by simp
  then show "a div b < c"
    using assms by simp
qed

end
