(* ===== verification/Tailq.thy ===== *)
theory Tailq
  imports Prelude
begin

text \<open>
  The tail queues of \<open>include/sys/queue.h\<close>, modelled on pointers.  An entry holds a pointer
  to the next entry and the address of the pointer that points to it; a head holds the first entry and
  the address of the last \<open>next\<close> field.  The macros are translated statement by statement, in
  order; the refinement lemmas show that each implements an operation on plain lists, which is how the
  scheduler, the mutexes and the condition variables use the queues.  The interface is the locale
  \<open>tail_queue\<close>, interpreted on the pointer model at the end.
\<close>

section \<open>The pointer model\<close>

text \<open>The address of a \<open>struct type *\<close>: a head's \<open>first\<close> or an entry's \<open>next\<close>.\<close>

datatype ('h, 'e) cell = HeadFirst 'h | NextOf 'e

record ('h, 'e) tq_head =
  tq_first :: "'e option"
  tq_ptail :: "('h, 'e) cell"

record ('h, 'e) tq_entry =
  tq_next :: "'e option"
  tq_pprev :: "('h, 'e) cell option"

record ('h, 'e) tq_store =
  heads :: "'h \<Rightarrow> ('h, 'e) tq_head"
  links :: "'e \<Rightarrow> ('h, 'e) tq_entry"

definition upd_head :: "'h \<Rightarrow> (('h, 'e) tq_head \<Rightarrow> ('h, 'e) tq_head) \<Rightarrow> ('h, 'e) tq_store \<Rightarrow> ('h, 'e) tq_store" where
  "upd_head h f st = st\<lparr>heads := (heads st)(h := f (heads st h))\<rparr>"

definition upd_link :: "'e \<Rightarrow> (('h, 'e) tq_entry \<Rightarrow> ('h, 'e) tq_entry) \<Rightarrow> ('h, 'e) tq_store \<Rightarrow> ('h, 'e) tq_store" where
  "upd_link e f st = st\<lparr>links := (links st)(e := f (links st e))\<rparr>"

fun load :: "('h, 'e) tq_store \<Rightarrow> ('h, 'e) cell \<Rightarrow> 'e option" where
  "load st (HeadFirst h) = tq_first (heads st h)"
| "load st (NextOf e) = tq_next (links st e)"

fun store :: "('h, 'e) cell \<Rightarrow> 'e option \<Rightarrow> ('h, 'e) tq_store \<Rightarrow> ('h, 'e) tq_store" where
  "store (HeadFirst h) v st = upd_head h (tq_first_update (\<lambda>_. v)) st"
| "store (NextOf e) v st = upd_link e (tq_next_update (\<lambda>_. v)) st"

definition TAILQ_INIT :: "'h \<Rightarrow> ('h, 'e) tq_store \<Rightarrow> ('h, 'e) tq_store" where
  "TAILQ_INIT h st =
     (let st = upd_head h (tq_first_update (\<lambda>_. None)) st
      in upd_head h (tq_ptail_update (\<lambda>_. HeadFirst h)) st)"

definition TAILQ_ENTRY_INIT :: "'e \<Rightarrow> ('h, 'e) tq_store \<Rightarrow> ('h, 'e) tq_store" where
  "TAILQ_ENTRY_INIT e st = upd_link e (tq_pprev_update (\<lambda>_. None)) st"

definition TAILQ_ENTRY_EMPTY :: "'e \<Rightarrow> ('h, 'e) tq_store \<Rightarrow> bool" where
  "TAILQ_ENTRY_EMPTY e st = (tq_pprev (links st e) = None)"

definition TAILQ_EMPTY :: "'h \<Rightarrow> ('h, 'e) tq_store \<Rightarrow> bool" where
  "TAILQ_EMPTY h st = (tq_first (heads st h) = None)"

definition TAILQ_FIRST :: "'h \<Rightarrow> ('h, 'e) tq_store \<Rightarrow> 'e option" where
  "TAILQ_FIRST h st = tq_first (heads st h)"

definition TAILQ_INSERT_HEAD :: "'h \<Rightarrow> 'e \<Rightarrow> ('h, 'e) tq_store \<Rightarrow> ('h, 'e) tq_store" where
  "TAILQ_INSERT_HEAD h e st =
     (let st = upd_link e (tq_next_update (\<lambda>_. tq_first (heads st h))) st;
          st = upd_link e (tq_pprev_update (\<lambda>_. Some (HeadFirst h))) st;
          st = (case tq_first (heads st h) of
                  Some f \<Rightarrow> upd_link f (tq_pprev_update (\<lambda>_. Some (NextOf e))) st
                | None \<Rightarrow> upd_head h (tq_ptail_update (\<lambda>_. NextOf e)) st)
      in upd_head h (tq_first_update (\<lambda>_. Some e)) st)"

definition TAILQ_INSERT_TAIL :: "'h \<Rightarrow> 'e \<Rightarrow> ('h, 'e) tq_store \<Rightarrow> ('h, 'e) tq_store" where
  "TAILQ_INSERT_TAIL h e st =
     (let st = upd_link e (tq_next_update (\<lambda>_. None)) st;
          st = upd_link e (tq_pprev_update (\<lambda>_. Some (tq_ptail (heads st h)))) st;
          st = store (tq_ptail (heads st h)) (Some e) st
      in upd_head h (tq_ptail_update (\<lambda>_. NextOf e)) st)"

text \<open>
  The final statement of \<open>TAILQ_REMOVE\<close> writes through \<open>pprev\<close>, a null pointer for an
  entry on which \<open>TAILQ_ENTRY_INIT\<close> was the last operation.
\<close>

definition TAILQ_REMOVE :: "'h \<Rightarrow> 'e \<Rightarrow> ('h, 'e) tq_store \<Rightarrow> ('h, 'e) tq_store result" where
  "TAILQ_REMOVE h e st =
     (case tq_pprev (links st e) of
        None \<Rightarrow> Fault NullDeref
      | Some c \<Rightarrow>
          (let st = (case tq_next (links st e) of
                       Some f \<Rightarrow> upd_link f (tq_pprev_update (\<lambda>_. Some c)) st
                     | None \<Rightarrow> upd_head h (tq_ptail_update (\<lambda>_. c)) st)
           in Ok (store c (tq_next (links st e)) st)))"

text \<open>The entries a \<open>TAILQ_FOREACH\<close> loop visits, in order; the fuel bounds its iterations.\<close>

fun tq_walk :: "nat \<Rightarrow> ('h, 'e) tq_store \<Rightarrow> 'e option \<Rightarrow> 'e list result" where
  "tq_walk n st None = Ok []"
| "tq_walk 0 st (Some e) = Fault Diverge"
| "tq_walk (Suc n) st (Some e) = rbind (tq_walk n st (tq_next (links st e))) (\<lambda>es. Ok (e # es))"

definition TAILQ_FOREACH :: "nat \<Rightarrow> 'h \<Rightarrow> ('h, 'e) tq_store \<Rightarrow> 'e list result" where
  "TAILQ_FOREACH n h st = tq_walk n st (tq_first (heads st h))"

section \<open>Representation of a list\<close>

text \<open>\<open>tq_seg st c xs d\<close>: from cell \<open>c\<close> the entries \<open>xs\<close> follow, each
  pointing back to the cell that points to it, and \<open>d\<close> is the last cell.\<close>

fun tq_seg :: "('h, 'e) tq_store \<Rightarrow> ('h, 'e) cell \<Rightarrow> 'e list \<Rightarrow> ('h, 'e) cell \<Rightarrow> bool" where
  "tq_seg st c [] d = (d = c)"
| "tq_seg st c (e # es) d =
     (load st c = Some e \<and> tq_pprev (links st e) = Some c \<and> tq_seg st (NextOf e) es d)"

definition tq_list :: "('h, 'e) tq_store \<Rightarrow> 'h \<Rightarrow> 'e list \<Rightarrow> bool" where
  "tq_list st h xs \<longleftrightarrow>
     tq_seg st (HeadFirst h) xs (tq_ptail (heads st h)) \<and>
     load st (tq_ptail (heads st h)) = None \<and> distinct xs"

text \<open>Every head \<open>h\<close> of the store represents the list \<open>Q h\<close>, and no entry is on two lists.\<close>

definition tq_abs :: "('h, 'e) tq_store \<Rightarrow> ('h \<Rightarrow> 'e list) \<Rightarrow> bool" where
  "tq_abs st Q \<longleftrightarrow>
     (\<forall>h. tq_list st h (Q h)) \<and> (\<forall>h h'. h \<noteq> h' \<longrightarrow> set (Q h) \<inter> set (Q h') = {})"

lemma heads_upd [simp]:
  "heads (upd_head h f st) = (heads st)(h := f (heads st h))"
  "heads (upd_link e g st) = heads st"
  by (simp_all add: upd_head_def upd_link_def)

lemma links_upd [simp]:
  "links (upd_link e g st) = (links st)(e := g (links st e))"
  "links (upd_head h f st) = links st"
  by (simp_all add: upd_head_def upd_link_def)

lemma store_simps [simp]:
  "tq_first (heads (store c v st) h) = (if c = HeadFirst h then v else tq_first (heads st h))"
  "tq_next (links (store c v st) e) = (if c = NextOf e then v else tq_next (links st e))"
  "tq_pprev (links (store c v st) e) = tq_pprev (links st e)"
  "tq_ptail (heads (store c v st) h) = tq_ptail (heads st h)"
  by (cases c; auto)+

lemma load_upd [simp]:
  "load (upd_head h (tq_ptail_update f) st) c = load st c"
  "load (upd_link e (tq_pprev_update g) st) c = load st c"
  by (cases c; simp)+

lemma load_store [simp]: "load (store c v st) d = (if c = d then v else load st d)"
  by (cases d) auto

text \<open>Frame: a segment reads only its first cell and the links of its entries.\<close>

lemma tq_seg_cong:
  assumes "load st' c = load st c" and "\<And>e. e \<in> set xs \<Longrightarrow> links st' e = links st e"
  shows "tq_seg st' c xs d = tq_seg st c xs d"
  using assms by (induction xs arbitrary: c) auto

lemma tq_seg_append: "tq_seg st c (xs @ ys) d \<longleftrightarrow> (\<exists>m. tq_seg st c xs m \<and> tq_seg st m ys d)"
  by (induction xs arbitrary: c) auto

lemma tq_seg_end: "tq_seg st c xs d \<Longrightarrow> d = (if xs = [] then c else NextOf (last xs))"
  by (induction xs arbitrary: c) auto


section \<open>Refinement of the macros\<close>

lemma tq_seg_cong_fine:
  assumes "load st' c = load st c"
    and "\<And>e. e \<in> set (butlast xs) \<Longrightarrow> load st' (NextOf e) = load st (NextOf e)"
    and "\<And>e. e \<in> set xs \<Longrightarrow> tq_pprev (links st' e) = tq_pprev (links st e)"
  shows "tq_seg st' c xs d = tq_seg st c xs d"
  using assms
proof (induction xs arbitrary: c)
  case (Cons e es)
  have "tq_seg st' (NextOf e) es d = tq_seg st (NextOf e) es d"
  proof (cases "es = []")
    case False
    with Cons.prems show ?thesis by (intro Cons.IH) auto
  qed simp
  with Cons.prems show ?case by simp
qed simp

lemma last_mem: "tq_seg st c xs d \<Longrightarrow> d = c \<or> (\<exists>e\<in>set xs. d = NextOf e)"
  using tq_seg_end [of st c xs d] by (cases "xs = []") auto

lemma tq_list_init: "tq_list (TAILQ_INIT h st) h []"
  by (simp add: tq_list_def TAILQ_INIT_def)

lemma tq_list_first: "tq_list st h xs \<Longrightarrow> TAILQ_FIRST h st = (case xs of [] \<Rightarrow> None | x # _ \<Rightarrow> Some x)"
  by (cases xs) (auto simp: tq_list_def TAILQ_FIRST_def)

lemma tq_list_empty: "tq_list st h xs \<Longrightarrow> TAILQ_EMPTY h st \<longleftrightarrow> xs = []"
  by (cases xs) (auto simp: tq_list_def TAILQ_EMPTY_def)

text \<open>A loop over the queue ends and visits exactly the entries of the list, in order.\<close>

lemma tq_walk_seg:
  "\<lbrakk>tq_seg st c xs d; load st d = None; length xs \<le> n\<rbrakk> \<Longrightarrow> tq_walk n st (load st c) = Ok xs"
proof (induction xs arbitrary: c n)
  case (Cons e es)
  then obtain m where "n = Suc m" by (cases n) auto
  with Cons.prems Cons.IH [of "NextOf e" m] show ?case by simp
qed simp

lemma tq_list_foreach: "tq_list st h xs \<Longrightarrow> length xs \<le> n \<Longrightarrow> TAILQ_FOREACH n h st = Ok xs"
  using tq_walk_seg [of st "HeadFirst h" xs "tq_ptail (heads st h)" n]
  by (simp add: tq_list_def TAILQ_FOREACH_def)

text \<open>Insertion at the head: the queue's own list, then the frame for another queue.\<close>

lemma tq_list_insert_head:
  assumes "tq_list st h xs" and "e \<notin> set xs"
  shows "tq_list (TAILQ_INSERT_HEAD h e st) h (e # xs)"
proof (cases xs)
  case Nil
  with assms show ?thesis by (auto simp: tq_list_def TAILQ_INSERT_HEAD_def Let_def)
next
  case (Cons f fs)
  let ?st = "TAILQ_INSERT_HEAD h e st" and ?d = "tq_ptail (heads st h)"
  from Cons assms have first: "tq_first (heads st h) = Some f" and ne: "e \<noteq> f" "e \<notin> set fs" "f \<notin> set fs"
    and seg: "tq_seg st (NextOf f) fs ?d" and tail: "load st ?d = None" and dist: "distinct fs"
    by (auto simp: tq_list_def)
  from first ne have "tq_seg ?st (NextOf f) fs ?d = tq_seg st (NextOf f) fs ?d"
    by (intro tq_seg_cong) (auto simp: TAILQ_INSERT_HEAD_def Let_def)
  moreover from last_mem [OF seg] ne first tail have "load ?st ?d = None"
    by (auto simp: TAILQ_INSERT_HEAD_def Let_def)
  ultimately show ?thesis
    using first ne seg dist Cons by (auto simp: tq_list_def TAILQ_INSERT_HEAD_def Let_def)
qed

lemma tq_list_insert_head_frame:
  assumes "tq_list st h' ys" and "h' \<noteq> h" and "e \<notin> set ys" and "tq_list st h xs" and "set xs \<inter> set ys = {}"
  shows "tq_list (TAILQ_INSERT_HEAD h e st) h' ys"
proof -
  let ?st = "TAILQ_INSERT_HEAD h e st" and ?d = "tq_ptail (heads st h')"
  have f: "f \<notin> set ys" if "tq_first (heads st h) = Some f" for f
    using that assms(4,5) by (cases xs) (auto simp: tq_list_def)
  have "tq_seg ?st (HeadFirst h') ys ?d = tq_seg st (HeadFirst h') ys ?d"
    using assms(2,3) f by (intro tq_seg_cong) (auto simp: TAILQ_INSERT_HEAD_def Let_def split: option.splits)
  moreover have "load ?st ?d = load st ?d"
    using last_mem [of st "HeadFirst h'" ys ?d] assms(1-3) f
    by (auto simp: tq_list_def TAILQ_INSERT_HEAD_def Let_def split: option.splits)
  ultimately show ?thesis
    using assms(1,2) by (auto simp: tq_list_def TAILQ_INSERT_HEAD_def Let_def split: option.splits)
qed

text \<open>Insertion at the tail.\<close>

lemma tq_list_insert_tail:
  assumes "tq_list st h xs" and "e \<notin> set xs"
  shows "tq_list (TAILQ_INSERT_TAIL h e st) h (xs @ [e])"
proof -
  let ?st = "TAILQ_INSERT_TAIL h e st" and ?d = "tq_ptail (heads st h)"
  from assms have seg: "tq_seg st (HeadFirst h) xs ?d" and dist: "distinct xs"
    by (auto simp: tq_list_def)
  from last_mem [OF seg] assms(2) have d: "?d \<noteq> NextOf e"
    by auto
  have "x \<in> set (butlast xs) \<Longrightarrow> ?d \<noteq> NextOf x" for x
    using tq_seg_end [OF seg] dist by (cases xs rule: rev_cases) auto
  then have "tq_seg ?st (HeadFirst h) xs ?d = tq_seg st (HeadFirst h) xs ?d" if "xs \<noteq> []"
    using assms(2) d that tq_seg_end [OF seg]
    by (intro tq_seg_cong_fine) (auto simp: TAILQ_INSERT_TAIL_def Let_def dest: in_set_butlastD)
  with seg have "tq_seg ?st (HeadFirst h) xs ?d"
    by (cases "xs = []") auto
  with d dist assms(2) show ?thesis
    by (auto simp: tq_list_def tq_seg_append TAILQ_INSERT_TAIL_def Let_def)
qed

lemma tq_list_insert_tail_frame:
  assumes "tq_list st h' ys" and "h' \<noteq> h" and "e \<notin> set ys" and "tq_list st h xs" and "set xs \<inter> set ys = {}"
  shows "tq_list (TAILQ_INSERT_TAIL h e st) h' ys"
proof -
  let ?st = "TAILQ_INSERT_TAIL h e st" and ?d = "tq_ptail (heads st h')" and ?c = "tq_ptail (heads st h)"
  have c: "?c \<noteq> HeadFirst h'" "NextOf y = ?c \<Longrightarrow> y \<notin> set ys" for y
    using assms last_mem [of st "HeadFirst h" xs ?c] by (auto simp: tq_list_def)
  have "tq_seg ?st (HeadFirst h') ys ?d = tq_seg st (HeadFirst h') ys ?d"
    using assms(2,3) c
    by (intro tq_seg_cong_fine) (auto simp: TAILQ_INSERT_TAIL_def Let_def dest: in_set_butlastD)
  moreover have "load ?st ?d = load st ?d"
    using last_mem [of st "HeadFirst h'" ys ?d] assms(1-3) c
    by (auto simp: tq_list_def TAILQ_INSERT_TAIL_def Let_def)
  ultimately show ?thesis
    using assms(1,2) by (auto simp: tq_list_def TAILQ_INSERT_TAIL_def Let_def)
qed

text \<open>A change of the last cell only leaves the segment before it in place.\<close>

lemma tq_seg_store_end:
  assumes "tq_seg st c xs d" and "distinct xs" and "\<And>x. xs \<noteq> [] \<Longrightarrow> c \<noteq> NextOf x"
    and "\<And>m. m \<noteq> d \<Longrightarrow> load st' m = load st m"
    and "\<And>x. x \<in> set xs \<Longrightarrow> tq_pprev (links st' x) = tq_pprev (links st x)"
  shows "tq_seg st' c xs d"
proof (cases xs rule: rev_cases)
  case (snoc ys y)
  with assms(1) tq_seg_end have "d = NextOf y" by fastforce
  moreover have "load st' (NextOf x) = load st (NextOf x)" if "x \<in> set ys" for x
    using that snoc assms(2,4) calculation by (intro assms(4)) auto
  ultimately have "tq_seg st' c xs d = tq_seg st c xs d"
    using snoc assms by (intro tq_seg_cong_fine) (auto simp del: load.simps)
  with assms(1) show ?thesis by simp
qed (use assms(1) in simp)

text \<open>Removal of any entry, wherever it stands.\<close>

lemma tq_list_remove:
  assumes "tq_list st h xs" and "e \<in> set xs"
  shows "\<exists>st'. TAILQ_REMOVE h e st = Ok st' \<and> tq_list st' h (remove1 e xs)"
proof -
  let ?d = "tq_ptail (heads st h)"
  from assms have "distinct xs" by (simp add: tq_list_def)
  with assms(2) obtain as bs where xs: "xs = as @ e # bs" and out: "e \<notin> set as" "e \<notin> set bs"
    and dist: "distinct (as @ bs)" and rem: "remove1 e xs = as @ bs"
    by (rule distinct_split)
  from assms(1) xs obtain c where pre: "tq_seg st (HeadFirst h) as c" and c: "tq_pprev (links st e) = Some c"
    and post: "tq_seg st (NextOf e) bs ?d" and tail: "load st ?d = None"
    by (auto simp: tq_list_def tq_seg_append)
  from last_mem [OF pre] dist out have cne: "c \<noteq> NextOf e" "\<And>b. b \<in> set bs \<Longrightarrow> c \<noteq> NextOf b"
    by auto
  show ?thesis
  proof (cases bs)
    case Nil
    with post tail have "tq_next (links st e) = None" by simp
    with c obtain st' where st': "TAILQ_REMOVE h e st = Ok st'"
      and eq: "st' = store c None (upd_head h (tq_ptail_update (\<lambda>_. c)) st)"
      by (simp add: TAILQ_REMOVE_def)
    have ld: "load st' m = load st m" if "m \<noteq> c" for m
      using that by (simp add: eq)
    have "tq_seg st' (HeadFirst h) as c"
      by (rule tq_seg_store_end [OF pre]) (use dist ld in \<open>auto simp: eq\<close>)
    then have "tq_list st' h (as @ bs)"
      using dist Nil by (auto simp: tq_list_def eq load_store)
    with st' rem show ?thesis by auto
  next
    case (Cons b bs')
    with post have b: "tq_next (links st e) = Some b" and post': "tq_seg st (NextOf b) bs' ?d"
      by auto
    from b c Cons out obtain st' where st': "TAILQ_REMOVE h e st = Ok st'"
      and eq: "st' = store c (Some b) (upd_link b (tq_pprev_update (\<lambda>_. Some c)) st)"
      by (auto simp: TAILQ_REMOVE_def Let_def)
    have ld: "load st' m = load st m" if "m \<noteq> c" for m
      using that by (simp add: eq)
    have "tq_seg st' (HeadFirst h) as c"
      by (rule tq_seg_store_end [OF pre]) (use dist Cons in \<open>auto simp: eq\<close>)
    moreover have "tq_seg st' (NextOf b) bs' ?d = tq_seg st (NextOf b) bs' ?d"
      using cne dist Cons by (intro tq_seg_cong_fine) (auto simp: eq dest: in_set_butlastD)
    moreover have "?d \<noteq> c"
      using last_mem [OF post] cne by auto
    ultimately have "tq_list st' h (as @ bs)"
      using dist Cons post' tail ld by (auto simp: tq_list_def tq_seg_append eq load_store)
    with st' rem show ?thesis by auto
  qed
qed

lemma tq_list_remove_frame:
  assumes "tq_list st h' ys" and "h' \<noteq> h" and "tq_list st h xs" and "e \<in> set xs"
    and "set xs \<inter> set ys = {}" and "TAILQ_REMOVE h e st = Ok st'"
  shows "tq_list st' h' ys"
proof -
  let ?d = "tq_ptail (heads st h')"
  from assms(3,4) obtain as bs where xs: "xs = as @ e # bs"
    by (meson split_list)
  with assms(3) obtain c where pre: "tq_seg st (HeadFirst h) as c" and c: "tq_pprev (links st e) = Some c"
    and post: "tq_seg st (NextOf e) bs (tq_ptail (heads st h))"
    and tail: "load st (tq_ptail (heads st h)) = None"
    by (auto simp: tq_list_def tq_seg_append)
  from last_mem [OF pre] assms(2,5) xs have cne: "c \<noteq> HeadFirst h'" "\<And>y. y \<in> set ys \<Longrightarrow> c \<noteq> NextOf y"
    by auto
  have nx: "f \<in> set xs" if "tq_next (links st e) = Some f" for f
    using that post tail xs by (cases bs) auto
  have pp: "tq_pprev (links st' y) = tq_pprev (links st y)" if "y \<in> set ys" for y
    using that assms(5,6) c nx by (auto simp: TAILQ_REMOVE_def Let_def split: option.splits)
  have ld: "load st' m = load st m" if "m \<noteq> c" for m
    using that assms(6) c by (cases m) (auto simp: TAILQ_REMOVE_def Let_def split: option.splits)
  have pt: "tq_ptail (heads st' h') = ?d"
    using assms(2,6) c by (auto simp: TAILQ_REMOVE_def Let_def split: option.splits)
  have "tq_seg st' (HeadFirst h') ys ?d = tq_seg st (HeadFirst h') ys ?d"
    using cne pp by (intro tq_seg_cong_fine) (auto simp del: load.simps intro!: ld dest: in_set_butlastD)
  moreover have "?d \<noteq> c"
    using assms(1) cne last_mem [of st "HeadFirst h'" ys ?d] by (auto simp: tq_list_def)
  ultimately show ?thesis
    using assms(1) ld pt by (simp add: tq_list_def del: load.simps)
qed


section \<open>The interface of a family of tail queues\<close>

text \<open>
  \<open>holds s Q\<close>: in state \<open>s\<close> every queue \<open>h\<close> holds the list \<open>Q h\<close>.
  The clients (run queue, wait queues, the mutexes a thread owns) rely on these laws only.
\<close>

locale tail_queue =
  fixes holds :: "'s \<Rightarrow> ('h \<Rightarrow> 'e list) \<Rightarrow> bool"
    and insert_head :: "'h \<Rightarrow> 'e \<Rightarrow> 's \<Rightarrow> 's"
    and insert_tail :: "'h \<Rightarrow> 'e \<Rightarrow> 's \<Rightarrow> 's"
    and remove :: "'h \<Rightarrow> 'e \<Rightarrow> 's \<Rightarrow> 's result"
    and front :: "'h \<Rightarrow> 's \<Rightarrow> 'e option"
  assumes holds_distinct: "holds s Q \<Longrightarrow> distinct (Q h)"
    and holds_insert_head: "\<lbrakk>holds s Q; \<And>k. e \<notin> set (Q k)\<rbrakk> \<Longrightarrow> holds (insert_head h e s) (Q(h := e # Q h))"
    and holds_insert_tail: "\<lbrakk>holds s Q; \<And>k. e \<notin> set (Q k)\<rbrakk> \<Longrightarrow> holds (insert_tail h e s) (Q(h := Q h @ [e]))"
    and holds_remove: "\<lbrakk>holds s Q; e \<in> set (Q h)\<rbrakk> \<Longrightarrow>
      \<exists>s'. remove h e s = Ok s' \<and> holds s' (Q(h := remove1 e (Q h)))"
    and holds_front: "holds s Q \<Longrightarrow> front h s = (case Q h of [] \<Rightarrow> None | x # _ \<Rightarrow> Some x)"
    and holds_disjoint: "\<lbrakk>holds s Q; h \<noteq> h'; e \<in> set (Q h)\<rbrakk> \<Longrightarrow> e \<notin> set (Q h')"
begin

text \<open>Removing the first entry: the queue loses its head.\<close>

lemma remove_front:
  assumes "holds s Q" and "Q h = e # es"
  shows "\<exists>s'. remove h e s = Ok s' \<and> holds s' (Q(h := es))"
  using holds_remove [OF assms(1), of e h] assms(2) by simp

text \<open>Round robin: the first entry goes behind the others.\<close>

lemma rotate_front:
  assumes "holds s Q" and "Q h = e # es"
  shows "\<exists>s'. remove h e s = Ok s' \<and> holds (insert_tail h e s') (Q(h := es @ [e]))"
proof -
  from remove_front [OF assms] obtain s' where s': "remove h e s = Ok s'" and Q: "holds s' (Q(h := es))"
    by blast
  have "e \<notin> set ((Q(h := es)) k)" for k
    using holds_distinct [OF assms(1), of h] holds_disjoint [OF assms(1), of h k e] assms(2)
    by (cases "k = h") auto
  with Q have "holds (insert_tail h e s') ((Q(h := es))(h := (Q(h := es)) h @ [e]))"
    by (rule holds_insert_tail)
  with s' show ?thesis by simp
qed

text \<open>Moving an entry from one queue to the head of another (a change of priority level).\<close>

lemma requeue_head:
  assumes "holds s Q" and "e \<in> set (Q h)" and "h' \<noteq> h"
  shows "\<exists>s'. remove h e s = Ok s' \<and>
    holds (insert_head h' e s') (Q(h := remove1 e (Q h), h' := e # Q h'))"
proof -
  from holds_remove [OF assms(1,2)] obtain s' where s': "remove h e s = Ok s'"
    and Q: "holds s' (Q(h := remove1 e (Q h)))"
    by blast
  have "e \<notin> set ((Q(h := remove1 e (Q h))) k)" for k
    using holds_distinct [OF assms(1), of h] holds_disjoint [OF assms(1) _ assms(2), of k]
    by (cases "k = h") auto
  with Q have "holds (insert_head h' e s')
      ((Q(h := remove1 e (Q h)))(h' := e # (Q(h := remove1 e (Q h))) h'))"
    by (rule holds_insert_head)
  with s' assms(3) show ?thesis by simp
qed

end

lemma tq_abs_insert:
  assumes "tq_abs st Q" and "\<And>k. e \<notin> set (Q k)"
  shows "tq_abs (TAILQ_INSERT_HEAD h e st) (Q(h := e # Q h))"
    and "tq_abs (TAILQ_INSERT_TAIL h e st) (Q(h := Q h @ [e]))"
proof -
  note ins = tq_list_insert_head tq_list_insert_tail tq_list_insert_head_frame tq_list_insert_tail_frame
  have L: "tq_list st k (Q k)" and D: "k \<noteq> h \<Longrightarrow> set (Q h) \<inter> set (Q k) = {}" for k
    using assms(1) by (auto simp: tq_abs_def)
  have "tq_list (TAILQ_INSERT_HEAD h e st) k ((Q(h := e # Q h)) k)"
    "tq_list (TAILQ_INSERT_TAIL h e st) k ((Q(h := Q h @ [e])) k)" for k
    using ins(1,2) [OF L assms(2)] ins(3,4) [OF L _ assms(2) L D] by (cases "k = h"; simp)+
  then show "tq_abs (TAILQ_INSERT_HEAD h e st) (Q(h := e # Q h))"
    and "tq_abs (TAILQ_INSERT_TAIL h e st) (Q(h := Q h @ [e]))"
    using assms by (auto simp: tq_abs_def)
qed

lemma tq_abs_remove:
  assumes "tq_abs st Q" and "e \<in> set (Q h)"
  shows "\<exists>st'. TAILQ_REMOVE h e st = Ok st' \<and> tq_abs st' (Q(h := remove1 e (Q h)))"
proof -
  have L: "tq_list st k (Q k)" and D: "k \<noteq> h \<Longrightarrow> set (Q h) \<inter> set (Q k) = {}" for k
    using assms(1) by (auto simp: tq_abs_def)
  from tq_list_remove [OF L assms(2)] obtain st' where st': "TAILQ_REMOVE h e st = Ok st'"
    and rem: "tq_list st' h (remove1 e (Q h))"
    by blast
  have "tq_list st' k ((Q(h := remove1 e (Q h))) k)" for k
    using rem tq_list_remove_frame [OF L _ L assms(2) D st'] by (cases "k = h") auto
  moreover have "set (remove1 e (Q h)) \<subseteq> set (Q h)"
    by (rule set_remove1_subset)
  ultimately show ?thesis
    using st' assms(1) by (fastforce simp: tq_abs_def)
qed

lemma tq_abs_facts:
  assumes "tq_abs st Q"
  shows "distinct (Q h)" and "TAILQ_FIRST h st = (case Q h of [] \<Rightarrow> None | x # _ \<Rightarrow> Some x)"
    and "h \<noteq> h' \<Longrightarrow> e \<in> set (Q h) \<Longrightarrow> e \<notin> set (Q h')"
  using assms tq_list_first [of st h "Q h"] by (auto simp: tq_abs_def tq_list_def)

interpretation ptr: tail_queue tq_abs TAILQ_INSERT_HEAD TAILQ_INSERT_TAIL TAILQ_REMOVE TAILQ_FIRST
  by unfold_locales (fact tq_abs_facts tq_abs_insert tq_abs_remove)+

end
