(* ===== verification/TimerHeap.thy ===== *)
theory TimerHeap
  imports Prelude
begin

text \<open>
  The timer heap of \<open>kernel/timer.c\<close>: a binary heap of pointers to timers, in which every timer knows
  its index so that it can be deleted from the middle.  A timer is named by the thread whose stack holds it
  (\<open>schedule_timeout\<close> is the only place that makes one).

  Expiry times are \<open>unsigned long\<close> tick counts that wrap around; \<open>time_after\<close> compares them by the sign of
  their difference, which is an order only between times less than \<open>2 ^ 31\<close> ticks apart.  The lemmas carry
  that window as the hypothesis \<open>window b\<close>: all expiry times lie less than \<open>2 ^ 31\<close> ticks after \<open>b\<close>.
\<close>

section \<open>Time comparison\<close>

definition time_after :: "u32 \<Rightarrow> u32 \<Rightarrow> bool" where
  "time_after a b \<longleftrightarrow> sint (b - a) < 0"

definition time_before :: "u32 \<Rightarrow> u32 \<Rightarrow> bool" where
  "time_before a b = time_after b a"

text \<open>Ticks from \<open>b\<close> to \<open>e\<close>.\<close>

definition due :: "u32 \<Rightarrow> u32 \<Rightarrow> nat" where
  "due b e = unat (e - b)"

section \<open>State\<close>

definition CONFIG_TIMER_MAX_NUM :: nat where "CONFIG_TIMER_MAX_NUM = 32"

definition TIMER_INVALID_INDEX :: nat where "TIMER_INVALID_INDEX = 2 ^ 32 - 1"

type_synonym tmid = nat

record timer =
  expires :: u32
  ti :: nat
  tm_thread :: nat

record timer_context =
  heap :: "nat \<Rightarrow> tmid"
  hn :: nat
  timers :: "tmid \<Rightarrow> timer"

abbreviation hexp :: "timer_context \<Rightarrow> nat \<Rightarrow> u32" where
  "hexp h i \<equiv> expires (timers h (heap h i))"

definition set_ti :: "tmid \<Rightarrow> nat \<Rightarrow> timer_context \<Rightarrow> timer_context" where
  "set_ti t i h = h\<lparr>timers := (timers h)(t := (timers h t)\<lparr>ti := i\<rparr>)\<rparr>"

section \<open>Operations\<close>

definition heap_swap :: "nat \<Rightarrow> nat \<Rightarrow> timer_context \<Rightarrow> timer_context" where
  "heap_swap i j h =
     (let tmp = heap h i;
          h = h\<lparr>heap := (heap h)(i := heap h j)\<rparr>;
          h = h\<lparr>heap := (heap h)(j := tmp)\<rparr>;
          h = set_ti (heap h i) i h
      in set_ti (heap h j) j h)"

fun heap_pull_up :: "nat \<Rightarrow> timer_context \<Rightarrow> timer_context" where
  "heap_pull_up i h =
     (if i > 0 then
        (let p = (i - 1) div 2 in
         if \<not> time_before (hexp h i) (hexp h p) then h
         else heap_pull_up p (heap_swap i p h))
      else h)"

declare heap_pull_up.simps [simp del]

text \<open>The child with which \<open>heap_push_down\<close> exchanges entry \<open>i\<close>, or \<open>i\<close> itself.\<close>

definition smallest_child :: "nat \<Rightarrow> timer_context \<Rightarrow> nat" where
  "smallest_child i h =
     (let c = i * 2 + 1 in
      if c \<ge> hn h then i
      else
        (let s = (if time_after (hexp h i) (hexp h c) then c else i) in
         if c + 1 < hn h \<and> time_after (hexp h s) (hexp h (c + 1)) then c + 1 else s))"

lemma heap_swap_hn [simp]: "hn (heap_swap i j h) = hn h"
  by (simp add: heap_swap_def set_ti_def Let_def)

lemma smallest_child_bounds: "smallest_child i h \<noteq> i \<Longrightarrow> i < smallest_child i h \<and> smallest_child i h < hn h"
  by (auto simp: smallest_child_def Let_def split: if_splits)

function heap_push_down_loop :: "nat \<Rightarrow> timer_context \<Rightarrow> timer_context" where
  "heap_push_down_loop i h =
     (let smallest = smallest_child i h in
      if smallest = i then h else heap_push_down_loop smallest (heap_swap i smallest h))"
  by pat_completeness auto
termination
  by (relation "measure (\<lambda>(i, h). hn h - i)") (use smallest_child_bounds in \<open>fastforce+\<close>)

declare heap_push_down_loop.simps [simp del]

definition heap_push_down :: "nat \<Rightarrow> timer_context \<Rightarrow> timer_context result" where
  "heap_push_down i h = rguard (i < hn h) AssertFail (Ok (heap_push_down_loop i h))"

definition heap_adjust :: "nat \<Rightarrow> timer_context \<Rightarrow> timer_context result" where
  "heap_adjust i h =
     rguard (i < hn h) AssertFail
      (if i > 0 \<and> time_after (hexp h ((i - 1) div 2)) (hexp h i) then Ok (heap_pull_up i h)
       else heap_push_down i h)"

definition timer_add :: "tmid \<Rightarrow> timer_context \<Rightarrow> timer_context result" where
  "timer_add t h =
     rguard (hn h < CONFIG_TIMER_MAX_NUM) AssertFail
      (let i = hn h;
           h = h\<lparr>hn := hn h + 1\<rparr>;
           h = h\<lparr>heap := (heap h)(i := t)\<rparr>;
           h = set_ti (heap h i) i h
       in Ok (heap_pull_up i h))"

definition timer_delete_locked :: "tmid \<Rightarrow> timer_context \<Rightarrow> timer_context result" where
  "timer_delete_locked t h =
     rguard (hn h > 0) OutOfBounds
     (let i = ti (timers h t);
          h = h\<lparr>hn := hn h - 1\<rparr>
      in rbind
           (if i \<noteq> hn h then
              rguard (i < CONFIG_TIMER_MAX_NUM) OutOfBounds
               (let h = h\<lparr>heap := (heap h)(i := heap h (hn h))\<rparr>
                in heap_adjust i (set_ti (heap h i) i h))
            else Ok h)
           (\<lambda>h. Ok (set_ti t TIMER_INVALID_INDEX h)))"

definition timer_delete :: "tmid \<Rightarrow> timer_context \<Rightarrow> timer_context result" where
  "timer_delete t h = (if ti (timers h t) \<noteq> TIMER_INVALID_INDEX then timer_delete_locked t h else Ok h)"

section \<open>The window in which \<open>time_after\<close> is an order\<close>

lemma uint_as_unat: "uint w = int (unat w)"
  by simp

lemma sint_diff_small:
  fixes u v :: u32
  assumes "uint u < 2 ^ 31" and "uint v < 2 ^ 31"
  shows "sint (v - u) = uint v - uint u"
proof -
  have "uint (v - u) = take_bit 32 (uint v - uint u)"
    by (simp add: uint_word_ariths take_bit_eq_mod)
  then have "sint (v - u) = signed_take_bit 31 (uint v - uint u)"
    by (simp add: sint_uint signed_take_bit_take_bit)
  also have "\<dots> = uint v - uint u"
  proof (rule signed_take_bit_int_eq_self)
    show "- (2 ^ 31) \<le> uint v - uint u" using assms(1) uint_ge_0 [of v] by linarith
    show "uint v - uint u < 2 ^ 31" using assms(2) uint_ge_0 [of u] by linarith
  qed
  finally show ?thesis .
qed

lemma time_after_due:
  assumes "due b x < 2 ^ 31" and "due b y < 2 ^ 31"
  shows "time_after x y \<longleftrightarrow> due b y < due b x"
proof -
  let ?x = "x - b" and ?y = "y - b"
  have lt: "uint ?x < 2 ^ 31" "uint ?y < 2 ^ 31"
    using assms unfolding due_def uint_as_unat by (simp_all del: of_nat_unat)
  have "sint (y - x) = uint ?y - uint ?x"
    using sint_diff_small [OF lt] by simp
  then show ?thesis
    unfolding time_after_def due_def uint_as_unat by linarith
qed

definition window :: "u32 \<Rightarrow> timer_context \<Rightarrow> bool" where
  "window b h \<longleftrightarrow> (\<forall>i<hn h. due b (hexp h i) < 2 ^ 31)"

abbreviation hkey :: "u32 \<Rightarrow> timer_context \<Rightarrow> nat \<Rightarrow> nat" where
  "hkey b h i \<equiv> due b (hexp h i)"

lemma window_after: "window b h \<Longrightarrow> i < hn h \<Longrightarrow> j < hn h \<Longrightarrow> time_after (hexp h i) (hexp h j) \<longleftrightarrow> hkey b h j < hkey b h i"
  by (simp add: window_def time_after_due)

lemma window_before: "window b h \<Longrightarrow> i < hn h \<Longrightarrow> j < hn h \<Longrightarrow> time_before (hexp h i) (hexp h j) \<longleftrightarrow> hkey b h i < hkey b h j"
  by (simp add: time_before_def window_after)

section \<open>Index bookkeeping\<close>

text \<open>Entry \<open>i\<close> of the heap knows its index, and a timer that is not in the heap has the invalid index.\<close>

definition idx_ok :: "timer_context \<Rightarrow> bool" where
  "idx_ok h \<longleftrightarrow> (\<forall>i<hn h. ti (timers h (heap h i)) = i)"

definition active :: "timer_context \<Rightarrow> tmid set" where
  "active h = heap h ` {..<hn h}"

lemma idx_inj: "idx_ok h \<Longrightarrow> i < hn h \<Longrightarrow> j < hn h \<Longrightarrow> heap h i = heap h j \<longleftrightarrow> i = j"
  unfolding idx_ok_def by metis

lemma active_idx: "idx_ok h \<Longrightarrow> t \<in> active h \<Longrightarrow> ti (timers h t) < hn h \<and> heap h (ti (timers h t)) = t"
  by (auto simp: idx_ok_def active_def)

lemma set_ti_simps [simp]:
  "heap (set_ti t i h) = heap h" "hn (set_ti t i h) = hn h"
  "expires (timers (set_ti t i h) x) = expires (timers h x)"
  "tm_thread (timers (set_ti t i h) x) = tm_thread (timers h x)"
  "ti (timers (set_ti t i h) x) = (if x = t then i else ti (timers h x))"
  by (simp_all add: set_ti_def)

lemma heap_swap_simps [simp]:
  "heap (heap_swap i j h) = (heap h)(i := heap h j, j := heap h i)"
  "expires (timers (heap_swap i j h) x) = expires (timers h x)"
  "tm_thread (timers (heap_swap i j h) x) = tm_thread (timers h x)"
  by (simp_all add: heap_swap_def Let_def)

lemma heap_swap_idx: "idx_ok h \<Longrightarrow> i < hn h \<Longrightarrow> j < hn h \<Longrightarrow> i \<noteq> j \<Longrightarrow> idx_ok (heap_swap i j h)"
  using idx_inj [of h] by (auto simp: idx_ok_def heap_swap_def Let_def)

lemma heap_swap_active: "i < hn h \<Longrightarrow> j < hn h \<Longrightarrow> active (heap_swap i j h) = active h"
proof -
  assume "i < hn h" "j < hn h"
  then have "(heap h)(i := heap h j, j := heap h i) ` {..<hn h} = heap h ` {..<hn h}"
    by (auto simp: image_def)
  then show ?thesis by (simp add: active_def)
qed

lemma heap_swap_ti: "x \<notin> active h \<Longrightarrow> i < hn h \<Longrightarrow> j < hn h \<Longrightarrow> ti (timers (heap_swap i j h) x) = ti (timers h x)"
  by (auto simp: heap_swap_def Let_def active_def)

lemma heap_swap_window: "i < hn h \<Longrightarrow> j < hn h \<Longrightarrow> window b h \<Longrightarrow> window b (heap_swap i j h)"
  by (auto simp: window_def)

text \<open>What a reordering of the heap keeps.\<close>

definition reorders :: "timer_context \<Rightarrow> timer_context \<Rightarrow> bool" where
  "reorders h h' \<longleftrightarrow>
     hn h' = hn h \<and> active h' = active h \<and> (idx_ok h \<longrightarrow> idx_ok h') \<and>
     (\<forall>x. expires (timers h' x) = expires (timers h x) \<and> tm_thread (timers h' x) = tm_thread (timers h x)) \<and>
     (\<forall>x. x \<notin> active h \<longrightarrow> ti (timers h' x) = ti (timers h x))"

lemma reorders_refl [simp]: "reorders h h"
  by (simp add: reorders_def)

lemma reorders_trans: "reorders h h1 \<Longrightarrow> reorders h1 h2 \<Longrightarrow> reorders h h2"
  by (auto simp: reorders_def)

lemma reorders_swap: "i < hn h \<Longrightarrow> j < hn h \<Longrightarrow> i \<noteq> j \<Longrightarrow> reorders h (heap_swap i j h)"
  by (auto simp: reorders_def heap_swap_idx heap_swap_active heap_swap_ti)

section \<open>Restoring the heap order\<close>

text \<open>The heap order on the array of keys, and the order except between \<open>i\<close> and its parent, or its children.\<close>

definition ordered :: "nat \<Rightarrow> (nat \<Rightarrow> nat) \<Rightarrow> bool" where
  "ordered n a \<longleftrightarrow> (\<forall>j. 0 < j \<longrightarrow> j < n \<longrightarrow> a ((j - 1) div 2) \<le> a j)"

definition bridged :: "nat \<Rightarrow> (nat \<Rightarrow> nat) \<Rightarrow> nat \<Rightarrow> bool" where
  "bridged n a i \<longleftrightarrow> (\<forall>j. 0 < i \<longrightarrow> 0 < j \<longrightarrow> j < n \<longrightarrow> (j - 1) div 2 = i \<longrightarrow> a ((i - 1) div 2) \<le> a j)"

definition bad_up :: "nat \<Rightarrow> (nat \<Rightarrow> nat) \<Rightarrow> nat \<Rightarrow> bool" where
  "bad_up n a i \<longleftrightarrow> (\<forall>j. 0 < j \<longrightarrow> j < n \<longrightarrow> j \<noteq> i \<longrightarrow> a ((j - 1) div 2) \<le> a j) \<and> bridged n a i"

definition bad_down :: "nat \<Rightarrow> (nat \<Rightarrow> nat) \<Rightarrow> nat \<Rightarrow> bool" where
  "bad_down n a i \<longleftrightarrow> (\<forall>j. 0 < j \<longrightarrow> j < n \<longrightarrow> (j - 1) div 2 \<noteq> i \<longrightarrow> a ((j - 1) div 2) \<le> a j) \<and> bridged n a i"

lemma parent_less: "0 < i \<Longrightarrow> (i - 1) div 2 < i" for i :: nat
  by presburger

lemma bad_up_swap:
  assumes "bad_up n a i" and "0 < i" and "i < n" and "p = (i - 1) div 2" and "a i < a p"
  shows "bad_up n (a(i := a p, p := a i)) p"
proof -
  have pi: "p < i" using assms(2,4) parent_less by simp
  have o: "a ((j - 1) div 2) \<le> a j" if "0 < j" "j < n" "j \<noteq> i" for j
    using assms(1) that by (auto simp: bad_up_def)
  have br: "a p \<le> a j" if "0 < j" "j < n" "(j - 1) div 2 = i" for j
    using assms(1,2,4) that by (auto simp: bad_up_def bridged_def)
  have "(a(i := a p, p := a i)) ((j - 1) div 2) \<le> (a(i := a p, p := a i)) j" if "0 < j" "j < n" "j \<noteq> p" for j
  proof (cases "j = i")
    case True
    with assms(4,5) pi show ?thesis by auto
  next
    case False
    note oj = o [OF that(1,2) False]
    show ?thesis
    proof (cases "(j - 1) div 2 = i")
      case True
      with br [OF that(1,2)] that(3) pi False show ?thesis by simp
    next
      case ni: False
      with oj False that(3) assms(5) show ?thesis by (cases "(j - 1) div 2 = p") auto
    qed
  qed
  moreover have "(a(i := a p, p := a i)) ((p - 1) div 2) \<le> (a(i := a p, p := a i)) j"
    if "0 < p" "0 < j" "j < n" "(j - 1) div 2 = p" for j
  proof -
    have pp: "a ((p - 1) div 2) \<le> a p" using o [OF that(1)] assms(3) pi by simp
    have ne: "(p - 1) div 2 \<noteq> p" "(p - 1) div 2 \<noteq> i" using parent_less [OF that(1)] pi by auto
    show ?thesis
    proof (cases "j = i")
      case True
      with pp ne pi show ?thesis by simp
    next
      case False
      have "j \<noteq> p" using parent_less [OF that(2)] that(4) by auto
      with o [OF that(2,3) False] that(4) pp ne False show ?thesis by simp
    qed
  qed
  ultimately show ?thesis by (auto simp: bad_up_def bridged_def)
qed

lemma bad_down_swap:
  assumes "bad_down n a i" and "0 < c" and "c < n" and "(c - 1) div 2 = i" and "a c < a i"
    and "\<And>j. 0 < j \<Longrightarrow> j < n \<Longrightarrow> (j - 1) div 2 = i \<Longrightarrow> a c \<le> a j"
  shows "bad_down n (a(i := a c, c := a i)) c"
proof -
  have ic: "i < c" using assms(2,4) parent_less by blast
  have o: "a ((j - 1) div 2) \<le> a j" if "0 < j" "j < n" "(j - 1) div 2 \<noteq> i" for j
    using assms(1) that by (auto simp: bad_down_def)
  have br: "a ((i - 1) div 2) \<le> a j" if "0 < i" "0 < j" "j < n" "(j - 1) div 2 = i" for j
    using assms(1) that by (auto simp: bad_down_def bridged_def)
  have "(a(i := a c, c := a i)) ((j - 1) div 2) \<le> (a(i := a c, c := a i)) j" if "0 < j" "j < n" "(j - 1) div 2 \<noteq> c" for j
  proof (cases "(j - 1) div 2 = i")
    case True
    with assms(5,6) that(1,2) parent_less [OF that(1)] show ?thesis by auto
  next
    case False
    note oj = o [OF that(1,2) False]
    show ?thesis
    proof (cases "j = i")
      case True
      with br [OF _ assms(2-4)] that False ic show ?thesis by simp
    next
      case ji: False
      have "j \<noteq> c" using False assms(4) by auto
      with oj False ji that(3) show ?thesis by simp
    qed
  qed
  moreover have "(a(i := a c, c := a i)) ((c - 1) div 2) \<le> (a(i := a c, c := a i)) j"
    if "0 < j" "j < n" "(j - 1) div 2 = c" for j
    using o [OF that(1,2)] that assms(4) ic parent_less [OF that(1)] by auto
  ultimately show ?thesis by (auto simp: bad_down_def bridged_def)
qed

lemma hkey_swap: "hkey b (heap_swap i j h) = (hkey b h)(i := hkey b h j, j := hkey b h i)"
  by (auto simp: fun_eq_iff)

definition heap_ordered :: "u32 \<Rightarrow> timer_context \<Rightarrow> bool" where
  "heap_ordered b h \<longleftrightarrow> ordered (hn h) (hkey b h)"

lemma heap_pull_up_spec:
  "\<lbrakk>window b h; i < hn h; bad_up (hn h) (hkey b h) i\<rbrakk> \<Longrightarrow>
   heap_ordered b (heap_pull_up i h) \<and> reorders h (heap_pull_up i h)"
proof (induction i h rule: heap_pull_up.induct)
  case (1 i h)
  let ?p = "(i - 1) div 2"
  show ?case
  proof (cases "0 < i \<and> time_before (hexp h i) (hexp h ?p)")
    case True
    then have p: "?p < i" "?p < hn h" using parent_less [of i] 1(3) by auto
    with True 1(2,3) have lt: "hkey b h i < hkey b h ?p" by (simp add: window_before)
    have "bad_up (hn h) (hkey b (heap_swap i ?p h)) ?p"
      unfolding hkey_swap by (rule bad_up_swap) (use 1(3,4) True lt in auto)
    with 1(1) [of ?p] True p 1(2,3) have "heap_ordered b (heap_pull_up ?p (heap_swap i ?p h)) \<and>
      reorders (heap_swap i ?p h) (heap_pull_up ?p (heap_swap i ?p h))"
      by (simp add: heap_swap_window)
    moreover have "heap_pull_up i h = heap_pull_up ?p (heap_swap i ?p h)"
      using True by (subst heap_pull_up.simps) (simp add: Let_def)
    moreover have "reorders h (heap_swap i ?p h)" using p 1(3) by (intro reorders_swap) auto
    ultimately show ?thesis by (metis reorders_trans)
  next
    case False
    then have eq: "heap_pull_up i h = h" by (subst heap_pull_up.simps) (auto simp: Let_def)
    have "hkey b h ?p \<le> hkey b h i" if "0 < i"
      using False that window_before [OF 1(2,3), of ?p] 1(3) parent_less [OF that] by auto
    with 1(4) have "ordered (hn h) (hkey b h)" by (auto simp: ordered_def bad_up_def)
    with eq show ?thesis by (simp add: heap_ordered_def)
  qed
qed

lemma smallest_child_spec:
  assumes "window b h" and "i < hn h" and "c = smallest_child i h"
  shows "hkey b h c \<le> hkey b h i" and "c \<noteq> i \<Longrightarrow> 0 < c \<and> c < hn h \<and> (c - 1) div 2 = i \<and> hkey b h c < hkey b h i"
    and "0 < j \<Longrightarrow> j < hn h \<Longrightarrow> (j - 1) div 2 = i \<Longrightarrow> hkey b h c \<le> hkey b h j"
proof -
  note cmp = window_after [OF assms(1)]
  show "hkey b h c \<le> hkey b h i" and "c \<noteq> i \<Longrightarrow> 0 < c \<and> c < hn h \<and> (c - 1) div 2 = i \<and> hkey b h c < hkey b h i"
    using assms(2,3) by (auto simp: smallest_child_def Let_def cmp split: if_splits)
  assume j: "0 < j" "j < hn h" "(j - 1) div 2 = i"
  then have "j = i * 2 + 1 \<or> j = i * 2 + 2" by presburger
  with j assms(2,3) show "hkey b h c \<le> hkey b h j"
    by (auto simp: smallest_child_def Let_def cmp split: if_splits)
qed

lemma heap_push_down_spec:
  "\<lbrakk>window b h; i < hn h; bad_down (hn h) (hkey b h) i\<rbrakk> \<Longrightarrow>
   heap_ordered b (heap_push_down_loop i h) \<and> reorders h (heap_push_down_loop i h)"
proof (induction i h rule: heap_push_down_loop.induct)
  case (1 i h)
  let ?c = "smallest_child i h"
  note sc = smallest_child_spec [OF 1(2,3) refl]
  show ?case
  proof (cases "?c = i")
    case True
    then have eq: "heap_push_down_loop i h = h" by (subst heap_push_down_loop.simps) simp
    have "ordered (hn h) (hkey b h)"
      using 1(4) sc(3) True by (auto simp: ordered_def bad_down_def)
    with eq show ?thesis by (simp add: heap_ordered_def)
  next
    case False
    note c = sc(2) [OF False]
    have "bad_down (hn h) (hkey b (heap_swap i ?c h)) ?c"
      unfolding hkey_swap by (rule bad_down_swap) (use 1(4) c sc(3) in auto)
    with 1(1) [OF refl False] c 1(2,3) have "heap_ordered b (heap_push_down_loop ?c (heap_swap i ?c h)) \<and>
      reorders (heap_swap i ?c h) (heap_push_down_loop ?c (heap_swap i ?c h))"
      by (simp add: heap_swap_window)
    moreover have "heap_push_down_loop i h = heap_push_down_loop ?c (heap_swap i ?c h)"
      using False by (subst heap_push_down_loop.simps) (simp add: Let_def)
    moreover have "reorders h (heap_swap i ?c h)" using c False 1(3) by (intro reorders_swap) auto
    ultimately show ?thesis by (metis reorders_trans)
  qed
qed

text \<open>\<open>heap_adjust\<close> repairs an entry that is out of order in either direction.\<close>

lemma heap_adjust_spec:
  assumes "window b h" and "i < hn h"
    and "\<And>j. 0 < j \<Longrightarrow> j < hn h \<Longrightarrow> j \<noteq> i \<Longrightarrow> (j - 1) div 2 \<noteq> i \<Longrightarrow> hkey b h ((j - 1) div 2) \<le> hkey b h j"
    and "bridged (hn h) (hkey b h) i"
  shows "\<exists>h'. heap_adjust i h = Ok h' \<and> heap_ordered b h' \<and> reorders h h'"
proof (cases "0 < i \<and> time_after (hexp h ((i - 1) div 2)) (hexp h i)")
  case True
  let ?p = "(i - 1) div 2"
  have p: "?p < hn h" using parent_less [of i] True assms(2) by simp
  with True assms(1,2) have lt: "hkey b h i < hkey b h ?p" by (simp add: window_after)
  have "hkey b h i \<le> hkey b h j" if "0 < j" "j < hn h" "(j - 1) div 2 = i" for j
  proof -
    have "hkey b h ?p \<le> hkey b h j" using assms(4) that True unfolding bridged_def by blast
    with lt show ?thesis by simp
  qed
  with assms(3,4) have "bad_up (hn h) (hkey b h) i" unfolding bad_up_def by metis
  from heap_pull_up_spec [OF assms(1,2) this] True assms(2) show ?thesis by (simp add: heap_adjust_def)
next
  case False
  have "hkey b h ((i - 1) div 2) \<le> hkey b h i" if "0 < i"
    using False that parent_less [OF that] assms(1,2) window_after [OF assms(1), of "(i - 1) div 2" i] by auto
  with assms(3,4) have "bad_down (hn h) (hkey b h) i" unfolding bad_down_def by metis
  from heap_push_down_spec [OF assms(1,2) this] False assms(2) show ?thesis
    by (auto simp: heap_adjust_def heap_push_down_def)
qed

section \<open>Adding, deleting, and the first timer\<close>

definition timer_ok :: "u32 \<Rightarrow> timer_context \<Rightarrow> bool" where
  "timer_ok b h \<longleftrightarrow>
     hn h \<le> CONFIG_TIMER_MAX_NUM \<and> idx_ok h \<and> window b h \<and> heap_ordered b h \<and>
     (\<forall>t. t \<notin> active h \<longrightarrow> ti (timers h t) = TIMER_INVALID_INDEX)"

text \<open>The times and threads recorded in the timers are not changed.\<close>

definition same_times :: "timer_context \<Rightarrow> timer_context \<Rightarrow> bool" where
  "same_times h h' \<longleftrightarrow>
     (\<forall>x. expires (timers h' x) = expires (timers h x) \<and> tm_thread (timers h' x) = tm_thread (timers h x))"

lemma window_active: "window b h \<longleftrightarrow> (\<forall>t\<in>active h. due b (expires (timers h t)) < 2 ^ 31)"
  by (auto simp: window_def active_def)

lemma timer_ok_active_idx: "timer_ok b h \<Longrightarrow> t \<in> active h \<longleftrightarrow> ti (timers h t) \<noteq> TIMER_INVALID_INDEX"
proof -
  assume a: "timer_ok b h"
  have "ti (timers h t) < 32" if "t \<in> active h"
    using active_idx [of h t] that a by (simp add: timer_ok_def CONFIG_TIMER_MAX_NUM_def)
  with a show ?thesis by (auto simp: timer_ok_def TIMER_INVALID_INDEX_def)
qed

lemma timer_add_spec:
  assumes "timer_ok b h" and "t \<notin> active h" and "hn h < CONFIG_TIMER_MAX_NUM" and "due b (expires (timers h t)) < 2 ^ 31"
  shows "\<exists>h'. timer_add t h = Ok h' \<and> timer_ok b h' \<and> active h' = insert t (active h) \<and> same_times h h' \<and> hn h' = hn h + 1"
proof -
  let ?n = "hn h"
  define h1 where "h1 = set_ti t ?n (h\<lparr>hn := ?n + 1, heap := (heap h)(?n := t)\<rparr>)"
  have eq: "timer_add t h = Ok (heap_pull_up ?n h1)"
    using assms(3) by (simp add: timer_add_def h1_def Let_def)
  have n1: "hn h1 = ?n + 1" by (simp add: h1_def)
  have act: "active h1 = insert t (active h)" by (auto simp: active_def h1_def)
  have tm: "same_times h h1" by (simp add: same_times_def h1_def)
  have not: "heap h i \<noteq> t" if "i < ?n" for i using assms(2) that by (auto simp: active_def)
  have idx: "idx_ok h1" using assms(1) not by (auto simp: idx_ok_def h1_def timer_ok_def less_Suc_eq)
  have win: "window b h1"
    using assms(1,4) tm by (auto simp: window_active act same_times_def timer_ok_def)
  have key: "hkey b h1 j = hkey b h j" if "j < ?n" for j using that by (simp add: h1_def)
  have "hkey b h1 ((j - 1) div 2) \<le> hkey b h1 j" if "0 < j" "j < ?n + 1" "j \<noteq> ?n" for j
    using assms(1) that parent_less [OF that(1)] key [of j] key [of "(j - 1) div 2"]
    by (simp add: timer_ok_def heap_ordered_def ordered_def)
  then have "bad_up (hn h1) (hkey b h1) ?n" by (auto simp: bad_up_def bridged_def n1)
  from heap_pull_up_spec [OF win _ this] have r: "heap_ordered b (heap_pull_up ?n h1)" "reorders h1 (heap_pull_up ?n h1)"
    using n1 by simp_all
  have "same_times h (heap_pull_up ?n h1)" using r(2) tm by (simp add: same_times_def reorders_def)
  moreover have "timer_ok b (heap_pull_up ?n h1)"
    using r assms(1,3) idx win act n1
    by (auto simp: timer_ok_def reorders_def window_active CONFIG_TIMER_MAX_NUM_def) (simp add: h1_def)
  ultimately show ?thesis using eq r(2) act n1 by (simp add: reorders_def)
qed

lemma timer_delete_locked_spec:
  assumes "timer_ok b h" and "t \<in> active h"
  shows "\<exists>h'. timer_delete_locked t h = Ok h' \<and> timer_ok b h' \<and> active h' = active h - {t} \<and> same_times h h' \<and> hn h' = hn h - 1"
proof -
  let ?i = "ti (timers h t)" and ?n = "hn h - 1"
  from assms have idx: "idx_ok h" and ord: "heap_ordered b h" and win: "window b h" and mx: "hn h \<le> 32"
    by (simp_all add: timer_ok_def CONFIG_TIMER_MAX_NUM_def)
  from active_idx [OF idx assms(2)] have i: "?i < hn h" "heap h ?i = t" by simp_all
  note inj = idx_inj [OF idx]
  define h1 where "h1 = (if ?i = ?n then h\<lparr>hn := ?n\<rparr>
    else set_ti (heap h ?n) ?i (h\<lparr>hn := ?n, heap := (heap h)(?i := heap h ?n)\<rparr>))"
  have n1: "hn h1 = ?n" by (simp add: h1_def)
  have hp: "heap h1 j = (if j = ?i then heap h ?n else heap h j)" if "j < ?n" for j
    using that by (simp add: h1_def)
  have act: "active h1 = active h - {t}"
  proof
    show "active h1 \<subseteq> active h - {t}"
      using i inj by (auto simp: active_def n1 hp split: if_splits)
    show "active h - {t} \<subseteq> active h1"
    proof
      fix x assume "x \<in> active h - {t}"
      then obtain j where j: "j < hn h" "x = heap h j" "j \<noteq> ?i" using i by (auto simp: active_def)
      with i hp [of j] hp [of ?i] show "x \<in> active h1"
        by (cases "j = ?n") (auto simp: active_def n1 image_iff intro: bexI [of _ ?i] bexI [of _ j])
    qed
  qed
  have tm: "same_times h h1" by (simp add: same_times_def h1_def)
  have win1: "window b h1" using win tm by (auto simp: window_active act same_times_def)
  have idx1: "idx_ok h1"
    using idx i inj by (auto simp: idx_ok_def h1_def)
  have key: "hkey b h1 j = hkey b h j" if "j < ?n" "j \<noteq> ?i" for j using that by (simp add: h1_def)
  have o: "hkey b h ((j - 1) div 2) \<le> hkey b h j" if "0 < j" "j < hn h" for j
    using ord that by (simp add: heap_ordered_def ordered_def)
  have oj: "hkey b h1 ((j - 1) div 2) \<le> hkey b h1 j" if "0 < j" "j < ?n" "j \<noteq> ?i" "(j - 1) div 2 \<noteq> ?i" for j
    using o [of j] that parent_less [OF that(1)] key by simp
  have "\<exists>h2. (if ?i \<noteq> ?n then heap_adjust ?i h1 else Ok h1) = Ok h2 \<and> heap_ordered b h2 \<and> reorders h1 h2"
  proof (cases "?i = ?n")
    case True
    then have "heap_ordered b h1" using oj o by (simp add: heap_ordered_def ordered_def h1_def)
    with True show ?thesis by simp
  next
    case False
    with i have lt: "?i < ?n" by simp
    have "hkey b h1 ((?i - 1) div 2) \<le> hkey b h1 j" if "0 < ?i" "0 < j" "j < ?n" "(j - 1) div 2 = ?i" for j
    proof -
      have "hkey b h ((?i - 1) div 2) \<le> hkey b h ?i" by (rule o [OF that(1) i(1)])
      also have "\<dots> \<le> hkey b h j" using o [of j] that by simp
      finally show ?thesis using that parent_less [OF that(1)] parent_less [OF that(2)] lt key by simp
    qed
    then have "bridged (hn h1) (hkey b h1) ?i" by (simp add: bridged_def n1)
    from heap_adjust_spec [OF win1 _ _ this] lt oj False n1 show ?thesis by simp
  qed
  then obtain h2 where h2: "(if ?i \<noteq> ?n then heap_adjust ?i h1 else Ok h1) = Ok h2" "heap_ordered b h2" "reorders h1 h2"
    by blast
  have eq: "timer_delete_locked t h = Ok (set_ti t TIMER_INVALID_INDEX h2)"
    using h2(1) i mx unfolding timer_delete_locked_def
    by (auto simp: h1_def Let_def CONFIG_TIMER_MAX_NUM_def split: if_splits)
  let ?h = "set_ti t TIMER_INVALID_INDEX h2"
  have tout: "heap h2 j \<noteq> t" if "j < hn h2" for j
    using h2(3) act that unfolding reorders_def active_def by blast
  have "active ?h = active h2" by (simp add: active_def)
  then have "active ?h = active h - {t}" using h2(3) act by (simp add: reorders_def)
  moreover have "same_times h ?h" using h2(3) tm by (simp add: same_times_def reorders_def)
  moreover have "timer_ok b ?h"
  proof -
    have "idx_ok ?h" using h2(3) idx1 tout by (auto simp: idx_ok_def reorders_def)
    moreover have "window b h2" using win1 h2(3) by (auto simp: window_active reorders_def)
    then have "window b ?h" by (simp add: window_def)
    moreover have "heap_ordered b ?h" using h2(2) by (simp add: heap_ordered_def)
    moreover have "ti (timers ?h x) = TIMER_INVALID_INDEX" if "x \<notin> active ?h" for x
    proof (cases "x = t")
      case False
      with that calculation have x: "x \<notin> active h" "x \<notin> active h1"
        using \<open>active ?h = active h - {t}\<close> act by auto
      then have "x \<noteq> heap h ?n" using i by (auto simp: active_def)
      then have "ti (timers h1 x) = ti (timers h x)" by (simp add: h1_def)
      with x h2(3) assms(1) False show ?thesis by (simp add: reorders_def timer_ok_def)
    qed simp
    moreover have "hn ?h \<le> CONFIG_TIMER_MAX_NUM" using h2(3) n1 mx by (simp add: reorders_def CONFIG_TIMER_MAX_NUM_def)
    ultimately show ?thesis by (simp add: timer_ok_def)
  qed
  ultimately show ?thesis using eq h2(3) n1 by (simp add: reorders_def)
qed

lemma timer_delete_spec:
  assumes "timer_ok b h"
  shows "\<exists>h'. timer_delete t h = Ok h' \<and> timer_ok b h' \<and> active h' = active h - {t} \<and> same_times h h'"
proof (cases "t \<in> active h")
  case True
  with timer_delete_locked_spec [OF assms True] timer_ok_active_idx [OF assms, of t] show ?thesis
    by (auto simp: timer_delete_def)
next
  case False
  with assms timer_ok_active_idx [OF assms, of t] show ?thesis
    by (auto simp: timer_delete_def same_times_def)
qed

text \<open>Entry 0 is a timer that expires first.\<close>

lemma ordered_root: "ordered n a \<Longrightarrow> i < n \<Longrightarrow> a 0 \<le> a i"
proof (induction i rule: less_induct)
  case (less i)
  show ?case
  proof (cases "i = 0")
    case False
    then have p: "(i - 1) div 2 < i" using parent_less by simp
    with less have "a 0 \<le> a ((i - 1) div 2)" by simp
    also have "\<dots> \<le> a i" using less.prems False by (simp add: ordered_def)
    finally show ?thesis .
  qed simp
qed

lemma timer_first:
  assumes "timer_ok b h" and "0 < hn h"
  shows "heap h 0 \<in> active h" and "\<And>t. t \<in> active h \<Longrightarrow> hkey b h 0 \<le> due b (expires (timers h t))"
  using assms ordered_root [of "hn h" "hkey b h"] by (auto simp: timer_ok_def heap_ordered_def active_def)

text \<open>The window moves on with the clock once nothing is left to expire before its new start.\<close>

lemma due_shift:
  assumes "d \<le> due b e" and "d < 2 ^ 32"
  shows "due (b + of_nat d) e = due b e - d"
proof -
  have "unat (of_nat d :: u32) = d" using assms(2) by (simp add: unat_of_nat)
  then have "(of_nat d :: u32) \<le> e - b" using assms(1) by (simp add: due_def word_le_nat_alt)
  then have "unat ((e - b) - of_nat d) = unat (e - b) - unat (of_nat d :: u32)" by (rule unat_sub)
  with \<open>unat (of_nat d :: u32) = d\<close> show ?thesis by (simp add: due_def diff_diff_eq [symmetric])
qed

lemma timer_ok_shift:
  assumes "timer_ok b h" and "d < 2 ^ 32" and "\<And>t. t \<in> active h \<Longrightarrow> d \<le> due b (expires (timers h t))"
  shows "timer_ok (b + of_nat d) h"
proof -
  have k: "hkey (b + of_nat d) h i = hkey b h i - d" if "i < hn h" for i
    by (rule due_shift) (use assms(2,3) that in \<open>auto simp: active_def\<close>)
  have "window (b + of_nat d) h" using assms(1) k by (fastforce simp: timer_ok_def window_def)
  moreover have "heap_ordered (b + of_nat d) h"
    using assms(1) k parent_less unfolding timer_ok_def heap_ordered_def ordered_def
    by (metis diff_le_mono less_trans)
  ultimately show ?thesis using assms(1) by (simp add: timer_ok_def)
qed

section \<open>The interface of the clock\<close>

locale timer_queue =
  fixes ok :: "'b \<Rightarrow> 'q \<Rightarrow> bool"
    and act :: "'q \<Rightarrow> 'e set"
    and at :: "'b \<Rightarrow> 'q \<Rightarrow> 'e \<Rightarrow> nat"
    and full :: "'q \<Rightarrow> bool"
    and horizon :: nat
    and insert_timer :: "'e \<Rightarrow> 'q \<Rightarrow> 'q result"
    and remove_timer :: "'e \<Rightarrow> 'q \<Rightarrow> 'q result"
    and first :: "'q \<Rightarrow> 'e"
  assumes insert_law: "\<lbrakk>ok b q; e \<notin> act q; \<not> full q; at b q e < horizon\<rbrakk> \<Longrightarrow>
      \<exists>q'. insert_timer e q = Ok q' \<and> ok b q' \<and> act q' = insert e (act q) \<and> at b q' = at b q"
    and remove_law: "\<lbrakk>ok b q; e \<in> act q\<rbrakk> \<Longrightarrow>
      \<exists>q'. remove_timer e q = Ok q' \<and> ok b q' \<and> act q' = act q - {e} \<and> at b q' = at b q"
    and first_law: "\<lbrakk>ok b q; act q \<noteq> {}\<rbrakk> \<Longrightarrow> first q \<in> act q \<and> (\<forall>e\<in>act q. at b q (first q) \<le> at b q e)"
begin

text \<open>Once the first timer is not due, none is.\<close>

lemma none_due:
  assumes "ok b q" and "act q \<noteq> {}" and "k < at b q (first q)" and "e \<in> act q"
  shows "k < at b q e"
proof -
  from first_law [OF assms(1,2)] assms(4) have "at b q (first q) \<le> at b q e" by blast
  with assms(3) show ?thesis by simp
qed

text \<open>Taking the first timer out loses no other and leaves only later ones.\<close>

lemma pop:
  assumes "ok b q" and "act q \<noteq> {}"
  shows "\<exists>q'. remove_timer (first q) q = Ok q' \<and> ok b q' \<and> act q' = act q - {first q} \<and> at b q' = at b q \<and>
    (\<forall>e\<in>act q'. at b q (first q) \<le> at b q e)"
proof -
  note f = first_law [OF assms]
  from f remove_law [OF assms(1), of "first q"] show ?thesis by fastforce
qed

text \<open>Deleting a timer that was added leaves the timers there were.\<close>

lemma insert_remove:
  assumes "ok b q" and "e \<notin> act q" and "\<not> full q" and "at b q e < horizon"
  shows "\<exists>q' q''. insert_timer e q = Ok q' \<and> remove_timer e q' = Ok q'' \<and> ok b q'' \<and> act q'' = act q"
proof -
  from insert_law [OF assms] obtain q' where q': "insert_timer e q = Ok q'" "ok b q'" "act q' = insert e (act q)"
    by blast
  with remove_law [of b q' e] assms(2) show ?thesis by auto
qed

end

interpretation tq: timer_queue timer_ok active "\<lambda>b h t. due b (expires (timers h t))" "\<lambda>h. hn h = CONFIG_TIMER_MAX_NUM"
  "2 ^ 31" timer_add timer_delete_locked "\<lambda>h. heap h 0"
proof unfold_locales
  fix b q e
  assume a: "timer_ok b q" "e \<notin> active q" "\<not> hn q = CONFIG_TIMER_MAX_NUM" "due b (expires (timers q e)) < 2 ^ 31"
  then have "hn q < CONFIG_TIMER_MAX_NUM" by (simp add: timer_ok_def)
  from timer_add_spec [OF a(1,2) this a(4)]
  show "\<exists>q'. timer_add e q = Ok q' \<and> timer_ok b q' \<and> active q' = insert e (active q) \<and>
      (\<lambda>t. due b (expires (timers q' t))) = (\<lambda>t. due b (expires (timers q t)))"
    by (auto simp: same_times_def)
next
  fix b q e
  assume a: "timer_ok b q" "e \<in> active q"
  from timer_delete_locked_spec [OF a]
  show "\<exists>q'. timer_delete_locked e q = Ok q' \<and> timer_ok b q' \<and> active q' = active q - {e} \<and>
      (\<lambda>t. due b (expires (timers q' t))) = (\<lambda>t. due b (expires (timers q t)))"
    by (auto simp: same_times_def)
next
  fix b q
  assume a: "timer_ok b q" "active q \<noteq> {}"
  then have "0 < hn q" by (auto simp: active_def)
  from timer_first [OF a(1) this]
  show "heap q 0 \<in> active q \<and> (\<forall>e\<in>active q. due b (hexp q 0) \<le> due b (expires (timers q e)))"
    by blast
qed

end
