(* ===== verification/CircBuf.thy ===== *)
theory CircBuf
  imports Prelude
begin

text \<open>
  \<open>lib/circular_buffer.c\<close>: a byte ring of fixed size, used between the keyboard interrupt and its reader.
  The bytes in the ring, oldest first, are a bounded first-in first-out queue (\<open>cb_bytes\<close>); the locale
  \<open>byte_fifo\<close> is what the keyboard driver relies on.
\<close>

record circular_buffer =
  cb_read :: nat
  cb_write :: nat
  cb_len :: nat
  cb_size :: nat
  cb_buffer :: "nat \<Rightarrow> u8"

definition circular_buffer_init :: "(nat \<Rightarrow> u8) \<Rightarrow> nat \<Rightarrow> circular_buffer" where
  "circular_buffer_init buf sz = \<lparr>cb_read = 0, cb_write = 0, cb_len = 0, cb_size = sz, cb_buffer = buf\<rparr>"

definition circular_buffer_empty :: "circular_buffer \<Rightarrow> bool" where
  "circular_buffer_empty cb \<longleftrightarrow> cb_len cb = 0"

definition circular_buffer_full :: "circular_buffer \<Rightarrow> bool" where
  "circular_buffer_full cb \<longleftrightarrow> cb_len cb = cb_size cb"

definition circular_buffer_space :: "circular_buffer \<Rightarrow> nat" where
  "circular_buffer_space cb = cb_size cb - cb_len cb"

text \<open>The loops; both return the number of bytes transferred, the second the bytes as well.\<close>

fun circular_buffer_write :: "circular_buffer \<Rightarrow> u8 list \<Rightarrow> nat \<times> circular_buffer" where
  "circular_buffer_write cb [] = (0, cb)"
| "circular_buffer_write cb (b # bs) =
     (if \<not> circular_buffer_full cb then
        (let cb = cb\<lparr>cb_buffer := (cb_buffer cb)(cb_write cb := b)\<rparr>;
             cb = cb\<lparr>cb_write := (cb_write cb + 1) mod cb_size cb\<rparr>;
             cb = cb\<lparr>cb_len := cb_len cb + 1\<rparr>;
             (n, cb) = circular_buffer_write cb bs
         in (n + 1, cb))
      else (0, cb))"

fun circular_buffer_read :: "circular_buffer \<Rightarrow> nat \<Rightarrow> u8 list \<times> circular_buffer" where
  "circular_buffer_read cb 0 = ([], cb)"
| "circular_buffer_read cb (Suc n) =
     (if \<not> circular_buffer_empty cb then
        (let b = cb_buffer cb (cb_read cb);
             cb = cb\<lparr>cb_read := (cb_read cb + 1) mod cb_size cb\<rparr>;
             cb = cb\<lparr>cb_len := cb_len cb - 1\<rparr>;
             (bs, cb) = circular_buffer_read cb n
         in (b # bs, cb))
      else ([], cb))"

section \<open>The ring as a queue\<close>

definition cb_ok :: "circular_buffer \<Rightarrow> bool" where
  "cb_ok cb \<longleftrightarrow> 0 < cb_size cb \<and> cb_len cb \<le> cb_size cb \<and> cb_read cb < cb_size cb \<and>
     cb_write cb = (cb_read cb + cb_len cb) mod cb_size cb"

definition cb_bytes :: "circular_buffer \<Rightarrow> u8 list" where
  "cb_bytes cb = map (\<lambda>i. cb_buffer cb ((cb_read cb + i) mod cb_size cb)) [0..<cb_len cb]"

lemma cb_init_ok: "0 < sz \<Longrightarrow> cb_ok (circular_buffer_init buf sz) \<and> cb_bytes (circular_buffer_init buf sz) = []"
  by (simp add: cb_ok_def cb_bytes_def circular_buffer_init_def)

lemma cb_length [simp]: "length (cb_bytes cb) = cb_len cb"
  by (simp add: cb_bytes_def)

text \<open>One byte in.\<close>

definition cb_put :: "u8 \<Rightarrow> circular_buffer \<Rightarrow> circular_buffer" where
  "cb_put b cb = cb\<lparr>cb_buffer := (cb_buffer cb)(cb_write cb := b), cb_write := (cb_write cb + 1) mod cb_size cb,
     cb_len := cb_len cb + 1\<rparr>"

lemma ring_distinct:
  fixes r n i j :: nat
  assumes "i < n" and "j < n" and "(r + i) mod n = (r + j) mod n"
  shows "i = j"
proof -
  have le: "i = j" if "i \<le> j" "j < n" "(r + i) mod n = (r + j) mod n" for i j
  proof -
    from that have "n dvd (r + j) - (r + i)" by (metis mod_eq_dvd_iff_nat add_le_cancel_left)
    then have "n dvd j - i" by simp
    with that show ?thesis by (metis dvd_imp_le le_antisym less_imp_diff_less linorder_not_less zero_less_diff)
  qed
  show ?thesis using le [of i j] le [of j i] assms by (cases "i \<le> j") auto
qed

lemma cb_put_spec:
  assumes "cb_ok cb" and "cb_len cb < cb_size cb"
  shows "cb_ok (cb_put b cb)" and "cb_bytes (cb_put b cb) = cb_bytes cb @ [b]"
proof -
  show "cb_ok (cb_put b cb)" using assms by (auto simp: cb_ok_def cb_put_def mod_simps)
  have "(cb_read cb + i) mod cb_size cb \<noteq> cb_write cb" if "i < cb_len cb" for i
    using ring_distinct [of i "cb_size cb" "cb_len cb" "cb_read cb"] that assms by (auto simp: cb_ok_def)
  then show "cb_bytes (cb_put b cb) = cb_bytes cb @ [b]"
    using assms by (simp add: cb_bytes_def cb_put_def cb_ok_def)
qed

text \<open>One byte out.\<close>

definition cb_get :: "circular_buffer \<Rightarrow> circular_buffer" where
  "cb_get cb = cb\<lparr>cb_read := (cb_read cb + 1) mod cb_size cb, cb_len := cb_len cb - 1\<rparr>"

lemma cb_get_spec:
  assumes "cb_ok cb" and "0 < cb_len cb"
  shows "cb_ok (cb_get cb)" and "cb_bytes cb = cb_buffer cb (cb_read cb) # cb_bytes (cb_get cb)"
proof -
  obtain n where n: "cb_len cb = Suc n" using assms(2) gr0_implies_Suc by blast
  show "cb_ok (cb_get cb)" using assms n by (auto simp: cb_ok_def cb_get_def mod_simps)
  have "map (\<lambda>i. cb_buffer cb ((cb_read cb + i) mod cb_size cb)) [0..<Suc n] =
      cb_buffer cb (cb_read cb) # map (\<lambda>i. cb_buffer cb ((cb_read cb + Suc i) mod cb_size cb)) [0..<n]"
    using assms(1) by (simp add: cb_ok_def upt_conv_Cons map_Suc_upt [symmetric] comp_def del: upt_Suc)
  then show "cb_bytes cb = cb_buffer cb (cb_read cb) # cb_bytes (cb_get cb)"
    by (simp add: cb_bytes_def n cb_get_def mod_simps del: upt_Suc)
qed

text \<open>A write appends as many bytes as there is room for; a read takes the oldest bytes.\<close>

lemma cb_write_spec:
  assumes "cb_ok cb" and "circular_buffer_write cb bs = (n, cb')"
  shows "cb_ok cb' \<and> cb_size cb' = cb_size cb \<and> n = min (length bs) (circular_buffer_space cb) \<and>
    cb_bytes cb' = cb_bytes cb @ take n bs"
  using assms
proof (induction bs arbitrary: cb n)
  case (Cons b bs)
  show ?case
  proof (cases "circular_buffer_full cb")
    case True
    with Cons.prems show ?thesis by (auto simp: circular_buffer_full_def circular_buffer_space_def)
  next
    case False
    then have lt: "cb_len cb < cb_size cb" using Cons.prems(1) by (auto simp: circular_buffer_full_def cb_ok_def)
    obtain k where k: "circular_buffer_write (cb_put b cb) bs = (k, cb')" "n = k + 1"
      using Cons.prems(2) False by (auto simp: cb_put_def Let_def split: prod.splits)
    note p = cb_put_spec [OF Cons.prems(1) lt, of b]
    from Cons.IH [OF p(1) k(1)] p(2) k(2) lt show ?thesis
      by (simp add: cb_put_def circular_buffer_space_def)
  qed
qed simp

lemma cb_read_spec:
  assumes "cb_ok cb" and "circular_buffer_read cb n = (bs, cb')"
  shows "cb_ok cb' \<and> cb_size cb' = cb_size cb \<and> bs = take n (cb_bytes cb) \<and> cb_bytes cb' = drop n (cb_bytes cb)"
  using assms
proof (induction n arbitrary: cb bs)
  case (Suc n)
  show ?case
  proof (cases "circular_buffer_empty cb")
    case True
    then have "cb_bytes cb = []" by (simp add: circular_buffer_empty_def cb_bytes_def)
    with True Suc.prems show ?thesis by simp
  next
    case False
    then have lt: "0 < cb_len cb" by (simp add: circular_buffer_empty_def)
    obtain r where r: "circular_buffer_read (cb_get cb) n = (r, cb')" "bs = cb_buffer cb (cb_read cb) # r"
      using Suc.prems(2) False by (auto simp: cb_get_def Let_def split: prod.splits)
    note g = cb_get_spec [OF Suc.prems(1) lt]
    from Suc.IH [OF g(1) r(1)] g(2) r(2) show ?thesis by (simp add: cb_get_def)
  qed
qed simp

section \<open>The interface of the keyboard driver\<close>

locale byte_fifo =
  fixes ok :: "'q \<Rightarrow> bool"
    and items :: "'q \<Rightarrow> 'b list"
    and capacity :: "'q \<Rightarrow> nat"
    and put :: "'q \<Rightarrow> 'b list \<Rightarrow> nat \<times> 'q"
    and get :: "'q \<Rightarrow> nat \<Rightarrow> 'b list \<times> 'q"
  assumes bounded: "ok q \<Longrightarrow> length (items q) \<le> capacity q"
    and put_law: "ok q \<Longrightarrow> put q xs = (n, q') \<Longrightarrow>
      ok q' \<and> capacity q' = capacity q \<and> n = min (length xs) (capacity q - length (items q)) \<and> items q' = items q @ take n xs"
    and get_law: "ok q \<Longrightarrow> get q n = (xs, q') \<Longrightarrow>
      ok q' \<and> capacity q' = capacity q \<and> xs = take n (items q) \<and> items q' = drop n (items q)"
begin

text \<open>Nothing is lost or reordered: what is read is a prefix of what was there followed by what was accepted.\<close>

lemma put_get:
  assumes "ok q" and "put q xs = (n, q')" and "get q' k = (ys, q'')"
  shows "ys @ items q'' = items q @ take n xs"
  using put_law [OF assms(1,2)] get_law [OF _ assms(3)] by (metis append_take_drop_id)

text \<open>All or nothing: with enough room the whole message is accepted.\<close>

lemma put_all:
  assumes "ok q" and "length (items q) + length xs \<le> capacity q" and "put q xs = (n, q')"
  shows "n = length xs" and "items q' = items q @ xs"
  using put_law [OF assms(1,3)] assms(2) by auto

lemma drain:
  assumes "ok q" and "get q (capacity q) = (xs, q')"
  shows "xs = items q" and "items q' = []"
  using get_law [OF assms] bounded [OF assms(1)] by auto

end

interpretation cbuf: byte_fifo cb_ok cb_bytes cb_size circular_buffer_write circular_buffer_read
proof unfold_locales
  show "cb_ok q \<Longrightarrow> length (cb_bytes q) \<le> cb_size q" for q by (simp add: cb_ok_def)
  show "cb_ok q' \<and> cb_size q' = cb_size q \<and> n = min (length xs) (cb_size q - length (cb_bytes q)) \<and>
      cb_bytes q' = cb_bytes q @ take n xs"
    if "cb_ok q" "circular_buffer_write q xs = (n, q')" for q q' xs n
    using cb_write_spec [OF that] by (simp add: circular_buffer_space_def)
  show "cb_ok q' \<and> cb_size q' = cb_size q \<and> xs = take n (cb_bytes q) \<and> cb_bytes q' = drop n (cb_bytes q)"
    if "cb_ok q" "circular_buffer_read q n = (xs, q')" for q q' xs n
    using cb_read_spec [OF that] .
qed

end
