(* ===== verification/Strings.thy ===== *)
theory Strings
  imports Prelude
begin

text \<open>
  The string and memory routines of \<open>src/lib/string.c\<close> and the character classes of
  \<open>src/include/ctype.h\<close>.  Memory is a function from addresses to bytes; an address is a natural number
  (objects do not wrap around the end of the address space), a null pointer is \<open>None\<close>.  The loops that
  run to a terminating zero byte are partial functions: no terminator means no result.
  \<open>cstr\<close> says which string an address holds; the lemmas give each routine's effect in terms of it.
\<close>

type_synonym mem = "nat \<Rightarrow> u8"

section \<open>Character classes\<close>

definition islower :: "int \<Rightarrow> bool" where
  "islower c \<longleftrightarrow> 97 \<le> c \<and> c \<le> 122"

definition isupper :: "int \<Rightarrow> bool" where
  "isupper c \<longleftrightarrow> 65 \<le> c \<and> c \<le> 90"

definition isalpha :: "int \<Rightarrow> bool" where
  "isalpha c \<longleftrightarrow> isupper c \<or> islower c"

definition isdigit :: "int \<Rightarrow> bool" where
  "isdigit c \<longleftrightarrow> 48 \<le> c \<and> c \<le> 57"

definition isalnum :: "int \<Rightarrow> bool" where
  "isalnum c \<longleftrightarrow> isalpha c \<or> isdigit c"

definition iscntrl :: "int \<Rightarrow> bool" where
  "iscntrl c \<longleftrightarrow> (0 \<le> c \<and> c \<le> 31) \<or> c = 127"

definition isgraph :: "int \<Rightarrow> bool" where
  "isgraph c \<longleftrightarrow> 33 \<le> c \<and> c \<le> 126"

definition isprint :: "int \<Rightarrow> bool" where
  "isprint c \<longleftrightarrow> 32 \<le> c \<and> c \<le> 126"

definition ispunct :: "int \<Rightarrow> bool" where
  "ispunct c \<longleftrightarrow> isgraph c \<and> \<not> isalnum c"

definition isspace :: "int \<Rightarrow> bool" where
  "isspace c \<longleftrightarrow> c = 32 \<or> c = 12 \<or> c = 10 \<or> c = 13 \<or> c = 9 \<or> c = 11"

definition isxdigit :: "int \<Rightarrow> bool" where
  "isxdigit c \<longleftrightarrow> isdigit c \<or> (97 \<le> c \<and> c \<le> 102) \<or> (65 \<le> c \<and> c \<le> 70)"

definition isblank :: "int \<Rightarrow> bool" where
  "isblank c \<longleftrightarrow> c = 32 \<or> c = 9"

definition toupper :: "int \<Rightarrow> int" where
  "toupper c = (if islower c then c - 97 + 65 else c)"

definition tolower :: "int \<Rightarrow> int" where
  "tolower c = (if isupper c then c - 65 + 97 else c)"

lemmas ctype_defs = islower_def isupper_def isalpha_def isdigit_def isalnum_def iscntrl_def isgraph_def
  isprint_def ispunct_def isspace_def isxdigit_def isblank_def toupper_def tolower_def

section \<open>Memory blocks\<close>

fun memcmp :: "mem \<Rightarrow> nat \<Rightarrow> nat \<Rightarrow> nat \<Rightarrow> int" where
  "memcmp m u1 u2 0 = 0"
| "memcmp m u1 u2 (Suc n) =
     (if m u1 > m u2 then 1
      else if m u1 < m u2 then -1
      else memcmp m (u1 + 1) (u2 + 1) n)"

fun memcpy :: "mem \<Rightarrow> nat \<Rightarrow> nat \<Rightarrow> nat \<Rightarrow> mem" where
  "memcpy m cdest csrc 0 = m"
| "memcpy m cdest csrc (Suc n) = memcpy (m(cdest := m csrc)) (cdest + 1) (csrc + 1) n"

fun memmove_down :: "mem \<Rightarrow> nat \<Rightarrow> nat \<Rightarrow> nat \<Rightarrow> mem" where
  "memmove_down m cdest csrc 0 = m"
| "memmove_down m cdest csrc (Suc n) = memmove_down (m(cdest := m csrc)) (cdest - 1) (csrc - 1) n"

definition memmove :: "mem \<Rightarrow> nat \<Rightarrow> nat \<Rightarrow> nat \<Rightarrow> mem" where
  "memmove m dest src n =
     (if dest < src then memcpy m dest src n
      else if dest > src then memmove_down m (dest + n) (src + n) n
      else m)"

fun memset :: "mem \<Rightarrow> nat \<Rightarrow> int \<Rightarrow> nat \<Rightarrow> mem" where
  "memset m u c 0 = m"
| "memset m u c (Suc n) = memset (m(u := word_of_int c)) (u + 1) c n"

definition bytes :: "mem \<Rightarrow> nat \<Rightarrow> nat \<Rightarrow> u8 list" where
  "bytes m p n = map (\<lambda>i. m (p + i)) [0..<n]"

lemma bytes_0 [simp]: "bytes m p 0 = []"
  by (simp add: bytes_def)

lemma length_bytes [simp]: "length (bytes m p n) = n"
  by (simp add: bytes_def)

lemma bytes_nth [simp]: "i < n \<Longrightarrow> bytes m p n ! i = m (p + i)"
  by (simp add: bytes_def)

lemma bytes_Suc: "bytes m p (Suc n) = m p # bytes m (Suc p) n"
  by (simp add: bytes_def upt_rec [of 0] map_Suc_upt [symmetric] del: upt_Suc)

lemma memcpy_apply:
  assumes "dest \<le> src \<or> src + n \<le> dest"
  shows "memcpy m dest src n a = (if dest \<le> a \<and> a < dest + n then m (src + (a - dest)) else m a)"
  using assms
proof (induction n arbitrary: m dest src)
  case (Suc n)
  have "memcpy (m(dest := m src)) (Suc dest) (Suc src) n a =
    (if Suc dest \<le> a \<and> a < Suc dest + n then (m(dest := m src)) (Suc src + (a - Suc dest))
     else (m(dest := m src)) a)"
    using Suc.prems by (intro Suc.IH) auto
  moreover have "Suc src + (a - Suc dest) = src + (a - dest)" "src + (a - dest) \<noteq> dest"
    if "Suc dest \<le> a" "a < Suc dest + n"
    using that Suc.prems by auto
  ultimately show ?case
    by (auto simp: le_eq_less_or_eq)
qed auto

lemma memcpy_bytes:
  assumes "dest \<le> src \<or> src + n \<le> dest"
  shows "bytes (memcpy m dest src n) dest n = bytes m src n"
  using memcpy_apply [OF assms] by (intro nth_equalityI) simp_all

lemma memset_apply:
  "memset m u c n a = (if u \<le> a \<and> a < u + n then word_of_int c else m a)"
proof (induction n arbitrary: m u)
  case (Suc n)
  show ?case
    by (simp add: Suc.IH del: fun_upd_apply) (auto simp: le_eq_less_or_eq)
qed auto

text \<open>The downward loop starts one past the end of both blocks.\<close>

lemma memmove_down_apply:
  assumes "n \<le> src" and "src < dest"
  shows "memmove_down m dest src n a =
    (if dest < a + n \<and> a \<le> dest then m (src - (dest - a)) else m a)"
  using assms
proof (induction n arbitrary: m dest src)
  case (Suc n)
  have IH: "memmove_down (m(dest := m src)) (dest - 1) (src - 1) n a =
    (if dest - 1 < a + n \<and> a \<le> dest - 1
     then (m(dest := m src)) (src - 1 - (dest - 1 - a)) else (m(dest := m src)) a)"
    using Suc.prems by (intro Suc.IH) auto
  show ?case
  proof (cases "dest - 1 < a + n \<and> a \<le> dest - 1")
    case True
    then have "src - 1 - (dest - 1 - a) = src - (dest - a)" "src - (dest - a) \<noteq> dest"
        "dest < a + Suc n \<and> a \<le> dest"
      using Suc.prems by auto
    then show ?thesis
      using IH True by simp
  next
    case False
    then have a: "a = dest \<or> \<not> (dest < a + Suc n \<and> a \<le> dest)"
      by auto
    have "memmove_down m dest src (Suc n) a = (m(dest := m src)) a"
      unfolding memmove_down.simps IH using False by (rule if_not_P)
    then show ?thesis
      using a Suc.prems(1) by (elim disjE) auto
  qed
qed auto

lemma memmove_up_apply:
  assumes "dest < src"
  shows "memmove m dest src n a = (if dest \<le> a \<and> a < dest + n then m (src + (a - dest)) else m a)"
  using assms memcpy_apply [of dest src n m a] by (simp add: memmove_def)

lemma memmove_down_block:
  assumes "src < dest"
  shows "memmove m dest src n a = (if dest < a \<and> a \<le> dest + n then m (src + (a - dest)) else m a)"
  using assms memmove_down_apply [of n "src + n" "dest + n" m a]
  by (auto simp: memmove_def)

lemma memcmp_sound:
  "memcmp m p q n = 0 \<longleftrightarrow> bytes m p n = bytes m q n"
  by (induction m p q n rule: memcmp.induct) (auto simp: bytes_Suc)

fun lex_cmp :: "u8 list \<Rightarrow> u8 list \<Rightarrow> int" where
  "lex_cmp [] [] = 0"
| "lex_cmp [] (y # ys) = -1"
| "lex_cmp (x # xs) [] = 1"
| "lex_cmp (x # xs) (y # ys) = (if x > y then 1 else if x < y then -1 else lex_cmp xs ys)"

lemma memcmp_lex: "memcmp m p q n = lex_cmp (bytes m p n) (bytes m q n)"
  by (induction m p q n rule: memcmp.induct) (auto simp: bytes_Suc)

lemma lex_cmp_antisym: "lex_cmp xs ys = - lex_cmp ys xs"
  by (induction xs ys rule: lex_cmp.induct) auto

lemma lex_cmp_eq_0: "lex_cmp xs ys = 0 \<longleftrightarrow> xs = ys"
  by (induction xs ys rule: lex_cmp.induct) auto

section \<open>Strings\<close>

fun cstr :: "mem \<Rightarrow> nat \<Rightarrow> u8 list \<Rightarrow> bool" where
  "cstr m p [] \<longleftrightarrow> m p = 0"
| "cstr m p (x # xs) \<longleftrightarrow> m p = x \<and> x \<noteq> 0 \<and> cstr m (Suc p) xs"

partial_function (option) strlen_loop :: "mem \<Rightarrow> nat \<Rightarrow> nat \<Rightarrow> nat option" where
  "strlen_loop m s n = (if m s \<noteq> 0 then strlen_loop m (s + 1) (n + 1) else Some n)"

definition strlen :: "mem \<Rightarrow> nat \<Rightarrow> nat option" where
  "strlen m s = strlen_loop m s 0"

partial_function (option) strcpy :: "mem \<Rightarrow> nat \<Rightarrow> nat \<Rightarrow> mem option" where
  "strcpy m dest src =
     (let m' = m(dest := m src) in
      if m src \<noteq> 0 then strcpy m' (dest + 1) (src + 1) else Some m')"

partial_function (option) strcmp :: "mem \<Rightarrow> nat \<Rightarrow> nat \<Rightarrow> int option" where
  "strcmp m s1 s2 =
     (if m s1 \<noteq> m s2 then Some (if m s1 > m s2 then 1 else -1)
      else if m s1 \<noteq> 0 then strcmp m (s1 + 1) (s2 + 1)
      else Some 0)"

partial_function (option) strchr :: "mem \<Rightarrow> nat \<Rightarrow> int \<Rightarrow> nat option option" where
  "strchr m s c =
     (if uint (m s) = c then Some (Some s)
      else if m s \<noteq> 0 then strchr m (s + 1) c
      else Some None)"

lemma cstr_cong: "(\<And>i. i \<le> length xs \<Longrightarrow> m' (p + i) = m (p + i)) \<Longrightarrow> cstr m' p xs = cstr m p xs"
proof (induction xs arbitrary: p)
  case (Cons x xs)
  have "cstr m' (Suc p) xs = cstr m (Suc p) xs"
    using Cons.prems [of "Suc _"] by (intro Cons.IH) simp
  with Cons.prems [of 0] show ?case
    by simp
qed simp

lemma cstr_upd [simp]: "a < p \<Longrightarrow> cstr (m(a := v)) p xs = cstr m p xs"
  by (rule cstr_cong) simp

lemma cstr_append: "cstr m p (xs @ ys) \<longleftrightarrow> cstr (m(p + length xs := 0)) p xs \<and> cstr m (p + length xs) ys"
  by (induction xs arbitrary: p) (auto simp: fun_upd_def)

lemma cstr_unique: "cstr m p xs \<Longrightarrow> cstr m p ys \<Longrightarrow> xs = ys"
proof (induction xs arbitrary: p ys)
  case Nil
  then show ?case
    by (cases ys) auto
next
  case (Cons x xs)
  then show ?case
    by (cases ys) auto
qed

lemma strlen_loop_cstr: "cstr m s xs \<Longrightarrow> strlen_loop m s n = Some (n + length xs)"
  by (induction xs arbitrary: s n) (simp_all add: strlen_loop.simps)

lemma strlen_cstr: "cstr m s xs \<Longrightarrow> strlen m s = Some (length xs)"
  by (simp add: strlen_def strlen_loop_cstr)

lemma strcpy_cstr:
  assumes "cstr m src xs" and "dest \<le> src \<or> src + length xs < dest"
  shows "\<exists>m'. strcpy m dest src = Some m' \<and> cstr m' dest xs \<and>
    (\<forall>a. a < dest \<or> dest + length xs < a \<longrightarrow> m' a = m a)"
  using assms
proof (induction xs arbitrary: m dest src)
  case Nil
  then show ?case
    by (simp add: strcpy.simps)
next
  case (Cons x xs)
  define m1 where "m1 = m(dest := m src)"
  have "cstr m1 (Suc src) xs"
    unfolding m1_def using Cons.prems by (subst cstr_cong [of xs _ _ m]) auto
  with Cons.IH [of m1 "Suc src" "Suc dest"] Cons.prems(2) obtain m2
    where m2: "strcpy m1 (Suc dest) (Suc src) = Some m2" "cstr m2 (Suc dest) xs"
      "\<forall>a. a < Suc dest \<or> Suc dest + length xs < a \<longrightarrow> m2 a = m1 a"
    by auto
  have "strcpy m dest src = Some m2"
    using Cons.prems m2(1) by (subst strcpy.simps) (simp add: m1_def)
  moreover have "m2 dest = x" "\<forall>a. a < dest \<or> dest + length (x # xs) < a \<longrightarrow> m2 a = m a"
    using m2(3) Cons.prems(1) by (auto simp: m1_def)
  ultimately show ?case
    using m2(2) Cons.prems(1) by auto
qed

lemma strcmp_lex: "cstr m p xs \<Longrightarrow> cstr m q ys \<Longrightarrow> strcmp m p q = Some (lex_cmp xs ys)"
proof (induction xs arbitrary: p q ys)
  case Nil
  then show ?case
    by (cases ys) (auto simp: strcmp.simps word_neq_0_conv)
next
  case (Cons x xs)
  then show ?case
    by (cases ys) (auto simp: strcmp.simps word_neq_0_conv)
qed

text \<open>\<open>strchr\<close> finds the first occurrence; the terminator itself counts as a character.\<close>

lemma strchr_cstr:
  assumes "cstr m s xs"
  shows "strchr m s (uint c) = Some
    (if c \<in> set xs \<or> c = 0 then Some (s + length (takeWhile (\<lambda>x. x \<noteq> c) xs)) else None)"
  using assms by (induction xs arbitrary: s) (auto simp: strchr.simps [of m] word_uint_eq_iff)

lemma strchr_member:
  assumes "cstr m s xs"
  shows "(\<exists>p. strchr m s (uint c) = Some (Some p)) \<longleftrightarrow> c \<in> set xs \<or> c = 0"
  using strchr_cstr [OF assms, of c] by auto

section \<open>Tokens\<close>

partial_function (option) strtok_skip :: "mem \<Rightarrow> nat \<Rightarrow> nat \<Rightarrow> nat option" where
  "strtok_skip m delim ptr =
     (if m ptr \<noteq> 0
      then Option.bind (strchr m delim (uint (m ptr)))
        (\<lambda>r. case r of None \<Rightarrow> Some ptr | Some _ \<Rightarrow> strtok_skip m delim (ptr + 1))
      else Some ptr)"

partial_function (option) strtok_scan :: "mem \<Rightarrow> nat \<Rightarrow> nat \<Rightarrow> nat option" where
  "strtok_scan m delim ptr =
     Option.bind (strchr m delim (uint (m ptr)))
       (\<lambda>r. case r of None \<Rightarrow> strtok_scan m delim (ptr + 1) | Some _ \<Rightarrow> Some ptr)"

text \<open>
  \<open>saveptr\<close> is \<open>None\<close> when the caller passes a null pointer and \<open>Some v\<close> when it passes the
  address of a variable holding \<open>v\<close>; the result carries the memory, the token and the variable's new value.
\<close>

definition strtok_from :: "mem \<Rightarrow> nat \<Rightarrow> nat \<Rightarrow> nat option option \<Rightarrow>
    (mem \<times> nat option \<times> nat option option) result option" where
  "strtok_from m str delim saveptr =
     Option.bind (strtok_skip m delim str) (\<lambda>ptr.
       if m ptr \<noteq> 0
       then Option.bind (strtok_scan m delim (ptr + 1)) (\<lambda>fin.
         if m fin \<noteq> 0
         then Some (Ok (m(fin := 0), Some ptr, map_option (\<lambda>_. Some (fin + 1)) saveptr))
         else Some (Ok (m, Some ptr, map_option (\<lambda>_. Some fin) saveptr)))
       else Some (Ok (m, None, map_option (\<lambda>_. Some ptr) saveptr)))"

definition strtok_r :: "mem \<Rightarrow> nat option \<Rightarrow> nat option \<Rightarrow> nat option option \<Rightarrow>
    (mem \<times> nat option \<times> nat option option) result option" where
  "strtok_r m str delim saveptr =
     (case delim of
        None \<Rightarrow> Some (Fault AssertFail)
      | Some d \<Rightarrow>
          if m d = 0 then Some (Fault AssertFail)
          else (case str of
             Some p \<Rightarrow> strtok_from m p d saveptr
           | None \<Rightarrow> (case saveptr of
                None \<Rightarrow> Some (Ok (m, None, None))
              | Some None \<Rightarrow> Some (Fault NullDeref)
              | Some (Some p) \<Rightarrow> strtok_from m p d saveptr)))"

definition next_token :: "u8 list \<Rightarrow> u8 list \<Rightarrow> (u8 list \<times> u8 list) option" where
  "next_token ds xs =
     (let r = dropWhile (\<lambda>x. x \<in> set ds) xs in
      if r = [] then None
      else Some (takeWhile (\<lambda>x. x \<notin> set ds) r, tl (dropWhile (\<lambda>x. x \<notin> set ds) r)))"

lemma next_token_length: "next_token ds xs = Some (t, r) \<Longrightarrow> length r < length xs"
proof -
  assume a: "next_token ds xs = Some (t, r)"
  define u where "u = dropWhile (\<lambda>x. x \<in> set ds) xs"
  have u: "u \<noteq> []" "r = tl (dropWhile (\<lambda>x. x \<notin> set ds) u)"
    using a by (auto simp: next_token_def u_def Let_def split: if_splits)
  have "length (dropWhile (\<lambda>x. x \<notin> set ds) u) \<le> length u" "length u \<le> length xs"
    by (simp_all add: length_dropWhile_le u_def)
  with u show ?thesis
    by (cases u) auto
qed

function tokens :: "u8 list \<Rightarrow> u8 list \<Rightarrow> u8 list list" where
  "tokens ds xs = (case next_token ds xs of None \<Rightarrow> [] | Some (t, r) \<Rightarrow> t # tokens ds r)"
  by pat_completeness auto
termination
  by (relation "measure (\<lambda>(ds, xs). length xs)") (auto dest: next_token_length)

declare tokens.simps [simp del]

lemma next_token_Some:
  assumes "next_token ds xs = Some (t, r)"
  shows "t \<noteq> [] \<and> set t \<inter> set ds = {} \<and>
    filter (\<lambda>x. x \<notin> set ds) xs = t @ filter (\<lambda>x. x \<notin> set ds) r"
proof -
  define P where "P = (\<lambda>x. x \<in> set ds)"
  define u where "u = dropWhile P xs"
  define v where "v = dropWhile (\<lambda>x. \<not> P x) u"
  have u: "u \<noteq> []" "t = takeWhile (\<lambda>x. \<not> P x) u" "r = tl v"
    using assms by (auto simp: next_token_def u_def v_def P_def Let_def split: if_splits)
  have hd: "\<not> P (hd u)"
    using u(1) unfolding u_def by (rule hd_dropWhile)
  have "filter (\<lambda>x. \<not> P x) xs = filter (\<lambda>x. \<not> P x) u"
    unfolding u_def by (induction xs) auto
  also have "\<dots> = t @ filter (\<lambda>x. \<not> P x) v"
    unfolding u(2) v_def by (induction u) auto
  also have "filter (\<lambda>x. \<not> P x) v = filter (\<lambda>x. \<not> P x) r"
  proof (cases v)
    case (Cons y ys)
    then have "P y"
      using hd_dropWhile [of "\<lambda>x. \<not> P x" u] by (simp add: v_def)
    with Cons u(3) show ?thesis
      by simp
  qed (simp add: u(3))
  finally have f: "filter (\<lambda>x. \<not> P x) xs = t @ filter (\<lambda>x. \<not> P x) r" .
  have "t \<noteq> []"
    using u(1,2) hd by (cases u) auto
  moreover have "set t \<inter> set ds = {}"
    unfolding u(2) by (auto simp: P_def dest: set_takeWhileD)
  ultimately show ?thesis
    using f by (simp add: P_def)
qed

lemma next_token_None: "next_token ds xs = None \<longleftrightarrow> set xs \<subseteq> set ds"
  by (auto simp: next_token_def Let_def dropWhile_eq_Nil_conv)

lemma tokens_concat:
  "concat (tokens ds xs) = filter (\<lambda>x. x \<notin> set ds) xs \<and>
   (\<forall>t \<in> set (tokens ds xs). t \<noteq> [] \<and> set t \<inter> set ds = {})"
proof (induction ds xs rule: tokens.induct)
  case (1 ds xs)
  show ?case
  proof (cases "next_token ds xs")
    case None
    then show ?thesis
      using next_token_None [of ds xs] by (simp add: tokens.simps [of ds xs] filter_empty_conv subset_iff)
  next
    case (Some tr)
    then obtain t r where tr: "next_token ds xs = Some (t, r)"
      by (cases tr) auto
    with 1 [OF tr] next_token_Some [OF tr] show ?thesis
      by (auto simp: tokens.simps [of ds xs])
  qed
qed

lemma strtok_skip_cstr:
  assumes "cstr m d ds" and "cstr m p xs"
  shows "strtok_skip m d p = Some (p + length (takeWhile (\<lambda>x. x \<in> set ds) xs))"
  using assms(2)
  by (induction xs arbitrary: p)
    (auto simp: strtok_skip.simps [of m] strchr_cstr [OF assms(1)])

lemma strtok_scan_cstr:
  assumes "cstr m d ds" and "cstr m p xs"
  shows "strtok_scan m d p = Some (p + length (takeWhile (\<lambda>x. x \<notin> set ds) xs))"
  using assms(2)
  by (induction xs arbitrary: p)
    (auto simp: strtok_scan.simps [of m] strchr_cstr [OF assms(1)]
      strchr_cstr [OF assms(1), of 0, simplified])

lemma cstr_suffix: "cstr m p (xs @ ys) \<Longrightarrow> cstr m (p + length xs) ys"
  by (simp add: cstr_append)

lemma cstr_nth0: "cstr m p (x # xs) \<Longrightarrow> m p = x \<and> x \<noteq> 0"
  by simp

lemma strtok_from_none:
  assumes "cstr m d ds" and "cstr m p xs" and "next_token ds xs = None"
  shows "strtok_from m p d (Some v) = Some (Ok (m, None, Some (Some (p + length xs))))"
proof -
  have "length (takeWhile (\<lambda>x. x \<in> set ds) xs) = length xs"
    using assms(3) by (subst takeWhile_eq_all_conv [THEN iffD2]) (auto simp: next_token_None)
  moreover have "m (p + length xs) = 0"
    using cstr_suffix [of m p xs "[]"] assms(2) by simp
  ultimately show ?thesis
    by (simp add: strtok_from_def strtok_skip_cstr [OF assms(1,2)])
qed

lemma strtok_from_some:
  assumes "cstr m d ds" and "cstr m p xs" and "next_token ds xs = Some (t, r)"
  obtains m' a b where "strtok_from m p d (Some v) = Some (Ok (m', Some a, Some (Some b)))"
    and "cstr m' a t" and "cstr m' b r" and "p \<le> a" and "a + length t \<le> b"
    and "b + length r = p + length xs"
    and "r \<noteq> [] \<Longrightarrow> a + length t < b"
    and "\<forall>c. c < p \<or> p + length xs \<le> c \<longrightarrow> m' c = m c"
proof -
  define sp where "sp = takeWhile (\<lambda>x. x \<in> set ds) xs"
  define u where "u = dropWhile (\<lambda>x. x \<in> set ds) xs"
  define w where "w = dropWhile (\<lambda>x. x \<notin> set ds) u"
  have xs: "xs = sp @ t @ w" and t: "t = takeWhile (\<lambda>x. x \<notin> set ds) u" and r: "r = tl w"
    and u0: "u \<noteq> []"
    using assms(3)
    by (auto simp: next_token_def sp_def u_def w_def Let_def split: if_splits)
  from next_token_Some [OF assms(3)] obtain h tt where h: "t = h # tt" "h \<notin> set ds"
    by (cases t) auto
  define a where "a = p + length sp"
  define f where "f = a + length t"
  have ca: "cstr m a (t @ w)"
    using assms(2) cstr_suffix [of m p sp "t @ w"] by (simp add: xs a_def)
  have skip: "strtok_skip m d p = Some a"
    by (simp add: strtok_skip_cstr [OF assms(1,2)] a_def sp_def)
  have u: "u = h # tt @ w"
    using t h(1) by (simp add: w_def flip: append_Cons)
  have tt: "takeWhile (\<lambda>x. x \<notin> set ds) (tt @ w) = tt"
    using t u h by simp
  have ca1: "m a = h" "h \<noteq> 0" "cstr m (Suc a) (tt @ w)"
    using ca h(1) by auto
  have scan: "strtok_scan m d (a + 1) = Some f"
    using strtok_scan_cstr [OF assms(1) ca1(3)] tt h(1) by (simp add: f_def)
  have cf: "cstr m f w" and ct: "cstr (m(f := 0)) a t"
    using ca by (simp_all add: cstr_append f_def)
  have len: "p + length xs = f + length w"
    by (simp add: xs f_def a_def)
  show ?thesis
  proof (cases w)
    case Nil
    then have mf: "m f = 0"
      using cf by simp
    then have "cstr m a t"
      using ct by (simp add: fun_upd_idem)
    then show ?thesis
      using mf skip scan ca1 Nil len r cf
      by (intro that [of m a f]) (auto simp: strtok_from_def a_def f_def)
  next
    case (Cons y w')
    then have "m f \<noteq> 0"
      using cf by auto
    then show ?thesis
      using skip scan ca1 Cons len r cf ct
      by (intro that [of "m(f := 0)" a "f + 1"]) (auto simp: strtok_from_def a_def f_def)
  qed
qed

end
