(* ===== verification/Stdlib.thy ===== *)
theory Stdlib
  imports Strings
begin

text \<open>
  Number parsing of \<open>src/lib/stdlib.c\<close> and the inline functions of \<open>src/include/stdlib.h\<close>.
  \<open>unsigned long\<close> is a 32-bit word, so the accumulator wraps exactly as in the code; the flag word becomes a
  record of its three bits.  A result pairs the value with the pointer stored through \<open>endptr\<close>
  (\<open>None\<close>: nothing stored) and, for the public functions, the value assigned to \<open>errno\<close>.
  The lemmas show that the overflow test is exact and that parsing computes the value of the digits.
\<close>

section \<open>Definitions\<close>

definition ULONG_MAX :: u32 where
  "ULONG_MAX = 0xffffffff"

definition LONG_MAX :: u32 where
  "LONG_MAX = 0x7fffffff"

definition LONG_MIN :: u32 where
  "LONG_MIN = - LONG_MAX - 1"

record strtoul_flags =
  F_NEG :: bool
  F_INV :: bool
  F_OVF :: bool

partial_function (option) skip_space :: "mem \<Rightarrow> nat \<Rightarrow> nat option" where
  "skip_space m nptr = (if isspace (uint (m nptr)) then skip_space m (nptr + 1) else Some nptr)"

definition detect_base :: "mem \<Rightarrow> nat \<Rightarrow> int \<Rightarrow> int" where
  "detect_base m nptr base =
     (if base = 0
      then if m nptr = 48
           then if tolower (uint (m (nptr + 1))) = 120 then 16 else 8
           else 10
      else base)"

definition strip_prefix :: "mem \<Rightarrow> nat \<Rightarrow> int \<Rightarrow> nat" where
  "strip_prefix m nptr base =
     (if base = 16 \<and> m nptr = 48 \<and> tolower (uint (m (nptr + 1))) = 120 then nptr + 2 else nptr)"

definition digit_value :: "int \<Rightarrow> int option" where
  "digit_value c =
     (if isdigit c then Some (c - 48)
      else if isalpha c then Some (tolower c - (97 - 10))
      else None)"

definition accept_digit :: "int \<Rightarrow> int \<Rightarrow> int option" where
  "accept_digit base c =
     (case digit_value c of
        None \<Rightarrow> None
      | Some d \<Rightarrow> if d \<ge> base then None else Some d)"

definition add_digit :: "int \<Rightarrow> int \<Rightarrow> u32 \<times> bool \<Rightarrow> u32 \<times> bool" where
  "add_digit base d vo =
     (let b = word_of_int base; c = word_of_int d; (val, ovf) = vo in
      (val * b + c, ovf \<or> val > (ULONG_MAX - c) div b))"

partial_function (option) strtoul_digits ::
    "mem \<Rightarrow> nat \<Rightarrow> int \<Rightarrow> bool \<Rightarrow> u32 \<times> bool \<Rightarrow> (nat \<times> bool \<times> u32 \<times> bool) option" where
  "strtoul_digits m nptr base parsed vo =
     (if m nptr = 0 then Some (nptr, parsed, vo)
      else case accept_digit base (uint (m nptr)) of
          None \<Rightarrow> Some (nptr, parsed, vo)
        | Some d \<Rightarrow> strtoul_digits m (nptr + 1) base True (add_digit base d vo))"

definition no_flags :: strtoul_flags where
  "no_flags = \<lparr>F_NEG = False, F_INV = False, F_OVF = False\<rparr>"

definition strtoul_body :: "mem \<Rightarrow> nat \<Rightarrow> int \<Rightarrow> strtoul_flags \<Rightarrow> (u32 \<times> nat option \<times> strtoul_flags) option" where
  "strtoul_body m nptr base flags =
     (let b = detect_base m nptr base; p = strip_prefix m nptr b in
      case strtoul_digits m p b False (0, False) of
        None \<Rightarrow> None
      | Some (fin, parsed, val, ovf) \<Rightarrow>
          (let fl = flags\<lparr>F_OVF := ovf\<rparr> in
           if \<not> parsed then Some (0, None, fl\<lparr>F_INV := True\<rparr>)
           else Some (val, Some fin, fl)))"

definition strtoul_core :: "mem \<Rightarrow> nat option \<Rightarrow> int \<Rightarrow> (u32 \<times> nat option \<times> strtoul_flags) option" where
  "strtoul_core m nptr base =
     (case nptr of
        None \<Rightarrow> Some (0, None, no_flags\<lparr>F_INV := True\<rparr>)
      | Some p0 \<Rightarrow>
          if (base < 2 \<and> base \<noteq> 0) \<or> base > 36 then Some (0, None, no_flags\<lparr>F_INV := True\<rparr>)
          else case skip_space m p0 of
              None \<Rightarrow> None
            | Some p \<Rightarrow>
                if m p = 45 then strtoul_body m (p + 1) base (no_flags\<lparr>F_NEG := True\<rparr>)
                else if m p = 43 then strtoul_body m (p + 1) base no_flags
                else if m p = 0 then Some (0, None, no_flags\<lparr>F_INV := True\<rparr>)
                else strtoul_body m p base no_flags)"

text \<open>
  \<open>endp\<close> says whether the caller passed an \<open>endptr\<close>.  The results are the bits of the returned
  \<open>long\<close>, the pointer stored (on an invalid argument the start of the input, which may itself be null) and
  the \<open>errno\<close> set.
\<close>

definition strtol :: "mem \<Rightarrow> nat option \<Rightarrow> bool \<Rightarrow> int \<Rightarrow> (u32 \<times> nat option option \<times> errno option) option" where
  "strtol m nptr endp base =
     (case strtoul_core m nptr base of
        None \<Rightarrow> None
      | Some (v, fin, flags) \<Rightarrow>
          if F_INV flags then Some (0, if endp then Some nptr else None, Some EINVAL)
          else
            (let stored = (if endp then map_option Some fin else None);
                 ovf = (F_OVF flags \<or> (if F_NEG flags then v > LONG_MAX + 1 else v > LONG_MAX)) in
             if ovf then Some (if F_NEG flags then LONG_MIN else LONG_MAX, stored, Some ERANGE)
             else Some (if F_NEG flags then - v else v, stored, None)))"

definition strtoul :: "mem \<Rightarrow> nat option \<Rightarrow> bool \<Rightarrow> int \<Rightarrow> (u32 \<times> nat option option \<times> errno option) option" where
  "strtoul m nptr endp base =
     (case strtoul_core m nptr base of
        None \<Rightarrow> None
      | Some (v, fin, flags) \<Rightarrow>
          if F_INV flags then Some (0, if endp then Some nptr else None, Some EINVAL)
          else
            (let stored = (if endp then map_option Some fin else None) in
             if F_OVF flags then Some (ULONG_MAX, stored, Some ERANGE)
             else Some (if F_NEG flags then - v else v, stored, None)))"

definition atol :: "mem \<Rightarrow> nat option \<Rightarrow> u32 option" where
  "atol m nptr = map_option fst (strtol m nptr False 10)"

definition atoi :: "mem \<Rightarrow> nat option \<Rightarrow> u32 option" where
  "atoi m nptr = atol m nptr"

text \<open>\<open>abs\<close> on the bits of an \<open>int\<close>.\<close>

definition abs_int :: "u32 \<Rightarrow> u32" where
  "abs_int v = (if sint v \<ge> 0 then v else - v)"

section \<open>The value of a digit string\<close>

fun digits_value :: "int \<Rightarrow> int \<Rightarrow> int list \<Rightarrow> int" where
  "digits_value base acc [] = acc"
| "digits_value base acc (d # ds) = digits_value base (acc * base + d) ds"

lemma digits_value_mono:
  assumes "2 \<le> base" and "0 \<le> acc" and "\<forall>d \<in> set ds. 0 \<le> d"
  shows "acc \<le> digits_value base acc ds"
  using assms(2,3)
proof (induction ds arbitrary: acc)
  case (Cons d ds)
  have "acc \<le> acc * base + d"
    using assms(1) Cons.prems mult_left_mono [of 1 base acc] by simp
  moreover have "acc * base + d \<le> digits_value base (acc * base + d) ds"
    using assms(1) Cons.prems by (intro Cons.IH) auto
  ultimately show ?case
    by simp
qed simp

lemma digits_value_snoc: "digits_value base acc (ds @ [d]) = digits_value base acc ds * base + d"
  by (induction ds arbitrary: acc) simp_all

lemma accept_digit_range:
  assumes "accept_digit base c = Some d"
  shows "0 \<le> d \<and> d < base \<and> d < 36"
  using assms by (auto simp: accept_digit_def digit_value_def ctype_defs split: if_splits option.splits)

text \<open>The overflow test holds exactly when the exact next value does not fit.\<close>

lemma overflow_test:
  fixes val :: u32
  assumes "2 \<le> base" and "base \<le> 36" and "0 \<le> d" and "d < base"
  shows "val > (ULONG_MAX - word_of_int d) div word_of_int base \<longleftrightarrow> uint val * base + d \<ge> 2 ^ 32"
proof -
  have d: "uint (word_of_int d :: u32) = d" and b: "uint (word_of_int base :: u32) = base"
    using assms by (auto simp: uint_word_of_int)
  have "uint (ULONG_MAX - word_of_int d) = 2 ^ 32 - 1 - d"
    using assms d by (simp add: ULONG_MAX_def uint_word_arith_bintrs(2) take_bit_eq_mod)
  then have "val > (ULONG_MAX - word_of_int d) div word_of_int base \<longleftrightarrow> (2 ^ 32 - 1 - d) div base < uint val"
    by (simp add: word_less_def uint_div b)
  also have "\<dots> \<longleftrightarrow> 2 ^ 32 - 1 - d < uint val * base"
    using assms(1) by (intro int_div_less_iff) simp
  finally show ?thesis
    by linarith
qed

lemma add_digit_step:
  assumes "2 \<le> base" and "base \<le> 36" and "0 \<le> d" and "d < base"
  shows "add_digit base d (word_of_int v, ovf) =
    (word_of_int (v * base + d), ovf \<or> (v mod 2 ^ 32) * base + d \<ge> 2 ^ 32)"
  using overflow_test [OF assms, of "word_of_int v"]
  by (simp add: add_digit_def uint_word_of_int Let_def take_bit_eq_mod)

lemma strtoul_digits_cstr:
  assumes "2 \<le> base" and "base \<le> 36"
    and "cstr m p (ds @ rest)"
    and "list_all2 (\<lambda>x d. accept_digit base (uint x) = Some d) ds vs"
    and "rest = [] \<or> accept_digit base (uint (hd rest)) = None"
    and "0 \<le> v" and "ovf \<longleftrightarrow> v \<ge> 2 ^ 32"
  shows "strtoul_digits m p base parsed (word_of_int v, ovf) =
    Some (p + length ds, parsed \<or> ds \<noteq> [], word_of_int (digits_value base v vs),
      digits_value base v vs \<ge> 2 ^ 32)"
  using assms(3,4,6,7)
proof (induction ds arbitrary: p vs v ovf parsed)
  case Nil
  then show ?case
    using assms(5) by (cases rest) (auto simp: strtoul_digits.simps [of m])
next
  case (Cons x ds)
  from Cons.prems(2) obtain d vs' where vs: "vs = d # vs'" "accept_digit base (uint x) = Some d"
      "list_all2 (\<lambda>x d. accept_digit base (uint x) = Some d) ds vs'"
    by (auto simp: list_all2_Cons1)
  have d: "0 \<le> d" "d < base"
    using accept_digit_range [OF vs(2)] by auto
  have "v \<le> v * base + d"
    using assms(1) Cons.prems(3) d mult_left_mono [of 1 base v] by simp
  then have o: "(ovf \<or> (v mod 2 ^ 32) * base + d \<ge> 2 ^ 32) \<longleftrightarrow> v * base + d \<ge> 2 ^ 32"
    using Cons.prems(3,4) by (cases "v < 2 ^ 32") auto
  have "strtoul_digits m p base parsed (word_of_int v, ovf) =
      strtoul_digits m (Suc p) base True (word_of_int (v * base + d), v * base + d \<ge> 2 ^ 32)"
    using Cons.prems(1) vs(2) o add_digit_step [OF assms(1,2) d, of v ovf]
    by (subst strtoul_digits.simps) simp
  also have "\<dots> = Some (Suc p + length ds, True, word_of_int (digits_value base (v * base + d) vs'),
      digits_value base (v * base + d) vs' \<ge> 2 ^ 32)"
    using Cons.IH [of "Suc p" vs' "v * base + d" "v * base + d \<ge> 2 ^ 32" True] Cons.prems(1,3) vs(3) d assms(1)
    by simp
  finally show ?case
    by (simp add: vs(1))
qed

lemma skip_space_cstr:
  assumes "cstr m p (ws @ rest)" and "\<forall>w \<in> set ws. isspace (uint w)"
    and "rest = [] \<or> \<not> isspace (uint (hd rest))"
  shows "skip_space m p = Some (p + length ws)"
  using assms(1,2)
proof (induction ws arbitrary: p)
  case Nil
  then show ?case
    using assms(3) by (cases rest) (auto simp: skip_space.simps [of m] isspace_def)
next
  case (Cons w ws)
  then show ?case
    by (simp add: skip_space.simps [of m p])
qed

text \<open>A parsable number: white space, an optional sign, digits of the base, then anything else.\<close>

definition sign_ok :: "u8 list \<Rightarrow> bool" where
  "sign_ok sg \<longleftrightarrow> sg = [] \<or> sg = [43] \<or> sg = [45]"

definition numeral_at :: "mem \<Rightarrow> nat \<Rightarrow> int \<Rightarrow> u8 list \<Rightarrow> u8 list \<Rightarrow> u8 list \<Rightarrow> u8 list \<Rightarrow> int list \<Rightarrow> bool" where
  "numeral_at m p base ws sg ds rest vs \<longleftrightarrow>
     cstr m p (ws @ sg @ ds @ rest) \<and> (\<forall>w \<in> set ws. isspace (uint w)) \<and> sign_ok sg \<and> ds \<noteq> [] \<and>
     list_all2 (\<lambda>x d. accept_digit base (uint x) = Some d) ds vs \<and>
     (rest = [] \<or> accept_digit base (uint (hd rest)) = None)"

lemma accepted_char:
  assumes "accept_digit base (uint (x :: u8)) = Some d"
  shows "\<not> isspace (uint x) \<and> x \<noteq> 43 \<and> x \<noteq> 45 \<and> x \<noteq> 0"
  using assms by (auto simp: accept_digit_def digit_value_def ctype_defs split: if_splits option.splits)

lemma strtoul_core_spec:
  assumes "numeral_at m p base ws sg ds rest vs" and "2 \<le> base" and "base \<le> 36"
    and "base = 16 \<longrightarrow> (case ds @ rest of x # y # _ \<Rightarrow> x = 48 \<longrightarrow> tolower (uint y) \<noteq> 120 | _ \<Rightarrow> True)"
  shows "strtoul_core m (Some p) base =
    Some (word_of_int (digits_value base 0 vs), Some (p + length ws + length sg + length ds),
      \<lparr>F_NEG = (sg = [45]), F_INV = False, F_OVF = digits_value base 0 vs \<ge> 2 ^ 32\<rparr>)"
proof -
  note N = assms(1) [unfolded numeral_at_def]
  from N obtain x ds' where ds: "ds = x # ds'"
    by (cases ds) auto
  with N obtain d vs' where x: "accept_digit base (uint x) = Some d"
    by (auto simp: list_all2_Cons1)
  define q where "q = p + length ws"
  define r where "r = q + length sg"
  have skip: "skip_space m p = Some q"
    unfolding q_def using N accepted_char [OF x] ds
    by (intro skip_space_cstr [of m p ws "sg @ ds @ rest"]) (auto simp: sign_ok_def isspace_def)
  have cq: "cstr m q (sg @ ds @ rest)"
    using N cstr_suffix [of m p ws] by (simp add: q_def)
  then have cr: "cstr m r (ds @ rest)"
    using cstr_suffix [of m q sg] by (simp add: r_def)
  have base: "detect_base m r base = base"
    using assms(2) by (simp add: detect_base_def)
  have "strip_prefix m r base = r"
    using assms(4) cr ds by (cases "ds' @ rest") (auto simp: strip_prefix_def tolower_def isupper_def)
  then have body: "strtoul_body m r base fl =
      Some (word_of_int (digits_value base 0 vs), Some (r + length ds), fl\<lparr>F_OVF := digits_value base 0 vs \<ge> 2 ^ 32\<rparr>)" for fl
    using strtoul_digits_cstr [OF assms(2,3) cr, of vs 0 False False] N base
    by (simp add: strtoul_body_def)
  have "m q = 45 \<longleftrightarrow> sg = [45]" "m q = 43 \<longleftrightarrow> sg = [43]" "m q \<noteq> 0"
    using cq N accepted_char [OF x] ds by (auto simp: sign_ok_def)
  moreover have "sg = [] \<Longrightarrow> r = q" "sg = [45] \<Longrightarrow> r = q + 1" "sg = [43] \<Longrightarrow> r = q + 1"
    by (simp_all add: r_def)
  ultimately show ?thesis
    using skip body assms(2,3) N
    by (auto simp: strtoul_core_def sign_ok_def no_flags_def r_def q_def)
qed

lemma strtoul_spec:
  assumes "numeral_at m p base ws sg ds rest vs" and "2 \<le> base" and "base \<le> 36"
    and "base = 16 \<longrightarrow> (case ds @ rest of x # y # _ \<Rightarrow> x = 48 \<longrightarrow> tolower (uint y) \<noteq> 120 | _ \<Rightarrow> True)"
  defines "V \<equiv> digits_value base 0 vs"
    and "fin \<equiv> p + length ws + length sg + length ds"
  shows "strtoul m (Some p) True base =
    Some (if V < 2 ^ 32 then (word_of_int (if sg = [45] then - V else V), Some (Some fin), None)
      else (ULONG_MAX, Some (Some fin), Some ERANGE))"
  using strtoul_core_spec [OF assms(1-4)] by (simp add: strtoul_def V_def fin_def Let_def)

lemma digits_value_nonneg:
  assumes "numeral_at m p base ws sg ds rest vs" and "2 \<le> base"
  shows "0 \<le> digits_value base 0 vs"
proof (rule digits_value_mono [OF assms(2)])
  show "\<forall>d \<in> set vs. 0 \<le> d"
  proof
    fix d assume "d \<in> set vs"
    then obtain i where "i < length vs" "vs ! i = d"
      by (auto simp: in_set_conv_nth)
    then show "0 \<le> d"
      using assms(1) accept_digit_range [of base "uint (ds ! i)" d]
      by (auto simp: numeral_at_def list_all2_conv_all_nth)
  qed
qed simp

lemma strtol_spec:
  assumes "numeral_at m p base ws sg ds rest vs" and "2 \<le> base" and "base \<le> 36"
    and "base = 16 \<longrightarrow> (case ds @ rest of x # y # _ \<Rightarrow> x = 48 \<longrightarrow> tolower (uint y) \<noteq> 120 | _ \<Rightarrow> True)"
  defines "V \<equiv> (if sg = [45] then - 1 else 1) * digits_value base 0 vs"
    and "fin \<equiv> p + length ws + length sg + length ds"
  shows "strtol m (Some p) True base =
    Some (if - (2 ^ 31) \<le> V \<and> V < 2 ^ 31 then (word_of_int V, Some (Some fin), None)
      else (if sg = [45] then LONG_MIN else LONG_MAX, Some (Some fin), Some ERANGE))"
proof -
  define W where "W = digits_value base 0 vs"
  have W: "0 \<le> W"
    unfolding W_def by (rule digits_value_nonneg [OF assms(1,2)])
  have less: "a < word_of_int W \<longleftrightarrow> uint a < W" if "W < 2 ^ 32" for a :: u32
    using W that by (simp add: word_less_def uint_word_of_int)
  show ?thesis
  proof (cases "W < 2 ^ 32")
    case True
    then show ?thesis
      using strtoul_core_spec [OF assms(1-4)] W less [OF True, of LONG_MAX] less [OF True, of "LONG_MAX + 1"]
      by (auto simp: strtol_def V_def fin_def Let_def LONG_MAX_def simp flip: W_def)
  next
    case False
    then show ?thesis
      using strtoul_core_spec [OF assms(1-4)]
      by (auto simp: strtol_def V_def fin_def Let_def simp flip: W_def)
  qed
qed

end
