(* ===== verification/Stdio.thy ===== *)
theory Stdio
  imports Stdlib
begin

text \<open>
  Formatted outputut of \<open>src/lib/stdio.c\<close>.  \<open>putchar\<close> is the driver's; here it appends its argument to the
  list of characters written.  Strings are the bytes before their terminating zero, so the end of the list stands for
  the terminator; the variable arguments are a list of machine words and strings, and reading an argument that is not
  there (or of the other kind) is an \<open>OutOfBounds\<close> fault.  The twelve-byte buffer of \<open>__print_number\<close> is
  explicit, so writing below its start is a fault too.  Character counts are unbounded: output of two gigabytes is out
  of scope.

  Shown: the buffer is large enough for every number and base the formats use, what each directive prints, and that
  printed numbers parse back to themselves.
\<close>

section \<open>Definitions\<close>

record printf_context =
  pad :: int
  min_width :: u32

definition number_table :: "u8 list" where
  "number_table = [48, 49, 50, 51, 52, 53, 54, 55, 56, 57, 97, 98, 99, 100, 101, 102]"

definition number_table_upper :: "u8 list" where
  "number_table_upper = [48, 49, 50, 51, 52, 53, 54, 55, 56, 57, 65, 66, 67, 68, 69, 70]"

text \<open>A printing operation maps the characters written so far to the new ones and its return value.\<close>

type_synonym outp = "int list"

definition print_str :: "printf_context \<Rightarrow> u8 list \<Rightarrow> outp \<Rightarrow> outp \<times> nat" where
  "print_str ctx str out =
     (let n = length str; w = unat (min_width ctx) in
      (out @ replicate (w - n) (pad ctx) @ map uint str, max n w))"

fun number_digits :: "u8 list \<Rightarrow> nat \<Rightarrow> u32 \<Rightarrow> u32 \<Rightarrow> u8 list \<Rightarrow> (u8 list \<times> nat) result" where
  "number_digits buf 0 n base table = Fault OutOfBounds"
| "number_digits buf (Suc ptr) n base table =
     (let buf' = buf[ptr := table ! unat (n mod base)]; n' = n div base in
      if n' \<noteq> 0 then number_digits buf' ptr n' base table else Ok (buf', ptr))"

definition put_minus :: "bool \<Rightarrow> u8 list \<times> nat \<Rightarrow> (u8 list \<times> nat) result" where
  "put_minus neg bp =
     (let (buf, ptr) = bp in
      if neg then rguard (ptr > 0) OutOfBounds (Ok (buf[ptr - 1 := 45], ptr - 1)) else Ok (buf, ptr))"

definition number_chars :: "bool \<Rightarrow> u32 \<Rightarrow> u32 \<Rightarrow> u8 list \<Rightarrow> u8 list \<Rightarrow> u8 list result" where
  "number_chars neg n base table buf0 =
     (let buf = buf0[11 := 0];
          digits = (if n = 0 then Ok (buf[10 := 48], 10) else number_digits buf 11 n base table) in
      rbind (rbind digits (put_minus neg)) (\<lambda>(buf, ptr). Ok (takeWhile (\<lambda>x. x \<noteq> 0) (drop ptr buf))))"

text \<open>\<open>buf0\<close> is the uninitialised stack buffer of twelve bytes.\<close>

definition print_number_in :: "u8 list \<Rightarrow> printf_context \<Rightarrow> bool \<Rightarrow> u32 \<Rightarrow> u32 \<Rightarrow> u8 list \<Rightarrow> outp \<Rightarrow> (outp \<times> nat) result" where
  "print_number_in buf0 ctx neg n base table out =
     rbind (number_chars neg n base table buf0) (\<lambda>str. Ok (print_str ctx str out))"

definition print_unsigned :: "u8 list \<Rightarrow> printf_context \<Rightarrow> u32 \<Rightarrow> u32 \<Rightarrow> outp \<Rightarrow> (outp \<times> nat) result" where
  "print_unsigned buf0 ctx n base out = print_number_in buf0 ctx False n base number_table out"

definition print_number :: "u8 list \<Rightarrow> printf_context \<Rightarrow> u32 \<Rightarrow> u32 \<Rightarrow> outp \<Rightarrow> (outp \<times> nat) result" where
  "print_number buf0 ctx n base out =
     (if sint n < 0 then print_number_in buf0 ctx True (- n) base number_table out
      else print_number_in buf0 ctx False n base number_table out)"

partial_function (option) print_char_loop :: "printf_context \<Rightarrow> u32 \<Rightarrow> outp \<Rightarrow> outp option" where
  "print_char_loop ctx n out =
     (if n < min_width ctx then print_char_loop ctx n (out @ [pad ctx]) else Some out)"

definition print_char :: "printf_context \<Rightarrow> int \<Rightarrow> outp \<Rightarrow> (outp \<times> nat) result" where
  "print_char ctx c out =
     (case print_char_loop ctx 1 out of
        None \<Rightarrow> Fault Diverge
      | Some out' \<Rightarrow> Ok (out' @ [c], 1))"

datatype va_arg = VInt u32 | VStr "u8 list"

fun va_int :: "va_arg list \<Rightarrow> (u32 \<times> va_arg list) result" where
  "va_int (VInt v # ap) = Ok (v, ap)"
| "va_int ap = Fault OutOfBounds"

fun va_str :: "va_arg list \<Rightarrow> (u8 list \<times> va_arg list) result" where
  "va_str (VStr s # ap) = Ok (s, ap)"
| "va_str ap = Fault OutOfBounds"

text \<open>The \<open>do\<close> loop over the digits of a width: the width read and the format after it.\<close>

fun width_loop :: "u32 \<Rightarrow> u8 list \<Rightarrow> u32 \<times> u8 list" where
  "width_loop w [] = (w, [])"
| "width_loop w (c # fmt) =
     (if isdigit (uint c) then width_loop (w * 10 + word_of_int (uint c - 48)) fmt else (w, c # fmt))"

lemma width_loop_length: "length (snd (width_loop w fmt)) \<le> length fmt"
  by (induction w fmt rule: width_loop.induct) auto

text \<open>What a directive leaves: the rest of the format, the arguments, the count and the output.\<close>

type_synonym out_state = "u8 list \<times> va_arg list \<times> nat \<times> outp"

definition after_print :: "u8 list \<Rightarrow> va_arg list \<Rightarrow> nat \<Rightarrow> (outp \<times> nat) result \<Rightarrow> out_state result" where
  "after_print fmt ap n r = rbind r (\<lambda>(out, k). Ok (fmt, ap, n + k, out))"

definition int_directive :: "(u32 \<Rightarrow> outp \<Rightarrow> (outp \<times> nat) result) \<Rightarrow> u8 list \<Rightarrow> va_arg list \<Rightarrow> nat \<Rightarrow> outp \<Rightarrow> out_state result" where
  "int_directive pr fmt ap n out = rbind (va_int ap) (\<lambda>(v, ap'). after_print fmt ap' n (pr v out))"

function print_spec :: "u8 list \<Rightarrow> printf_context \<Rightarrow> u8 list \<Rightarrow> va_arg list \<Rightarrow> nat \<Rightarrow> outp \<Rightarrow> out_state result" where
  "print_spec buf0 ctx [] ap n out = Ok ([], ap, n, out)"
| "print_spec buf0 ctx (c # fmt) ap n out =
     (if c = 37 then after_print fmt ap n (print_char ctx 37 out)
      else if c = 105 \<or> c = 100 then int_directive (\<lambda>v. print_number buf0 ctx v 10) fmt ap n out
      else if c = 88 then int_directive (\<lambda>v. print_number_in buf0 ctx False v 16 number_table_upper) fmt ap n out
      else if c = 112 then
        (let (out', k) = print_str (ctx\<lparr>min_width := 0\<rparr>) [48, 120] out in
         int_directive (\<lambda>v. print_unsigned buf0 (ctx\<lparr>pad := 48, min_width := 8\<rparr>) v 16) fmt ap (n + k) out')
      else if c = 120 then int_directive (\<lambda>v. print_unsigned buf0 ctx v 16) fmt ap n out
      else if c = 117 then int_directive (\<lambda>v. print_unsigned buf0 ctx v 10) fmt ap n out
      else if c = 111 then int_directive (\<lambda>v. print_unsigned buf0 ctx v 8) fmt ap n out
      else if c = 115 then rbind (va_str ap) (\<lambda>(s, ap'). after_print fmt ap' n (Ok (print_str ctx s out)))
      else if c = 99 then int_directive (\<lambda>v. print_char ctx (sint v)) fmt ap n out
      else if c = 108 then print_spec buf0 ctx fmt ap n out
      else
        (let (ctx', rest) = (if c = 48 then (ctx\<lparr>pad := 48\<rparr>, fmt) else (ctx, c # fmt)) in
         case rest of
           [] \<Rightarrow> Ok ([], ap, n, out)
         | d # fmt' \<Rightarrow>
             if isdigit (uint d)
             then (let (w, fmt'') = width_loop (min_width ctx') rest in
                   print_spec buf0 (ctx'\<lparr>min_width := w\<rparr>) fmt'' ap n out)
             else after_print fmt' ap n (print_char ctx' (uint d) out)))"
  by pat_completeness auto


lemma width_loop_digit:
  "isdigit (uint c) \<Longrightarrow> length (snd (width_loop w (c # fmt))) < Suc (length fmt)"
  using width_loop_length [of "w * 10 + word_of_int (uint c - 48)" fmt] by (simp add: less_Suc_eq_le)

termination print_spec
proof (relation "measure (\<lambda>(buf0, ctx, fmt, ap, n, out). length fmt)", goal_cases)
  case 1
  show ?case by simp
next
  case (2 buf0 ctx c fmt ap n out)
  show ?case by simp
next
  case (3 buf0 ctx c fmt ap n out x ctx' rest d fmt' y w fmt'')
  then have "length fmt'' = length (snd (width_loop (min_width ctx') (d # fmt')))"
    by (metis snd_conv)
  also have "\<dots> < Suc (length fmt')"
    using 3 by (intro width_loop_digit) simp
  also have "Suc (length fmt') \<le> Suc (length fmt)"
    using 3 by (auto split: if_splits)
  finally show ?case
    by simp
qed

declare print_spec.simps(2) [simp del]

fun printf_loop :: "u8 list \<Rightarrow> nat \<Rightarrow> u8 list \<Rightarrow> va_arg list \<Rightarrow> nat \<Rightarrow> outp \<Rightarrow> (nat \<times> outp) result" where
  "printf_loop buf0 0 fmt ap n out = (case fmt of [] \<Rightarrow> Ok (n, out) | _ \<Rightarrow> Fault Diverge)"
| "printf_loop buf0 (Suc fuel) [] ap n out = Ok (n, out)"
| "printf_loop buf0 (Suc fuel) (c # fmt) ap n out =
     (if c \<noteq> 37 then printf_loop buf0 fuel fmt ap (n + 1) (out @ [uint c])
      else rbind (print_spec buf0 \<lparr>pad = 32, min_width = 0\<rparr> fmt ap n out)
        (\<lambda>(fmt', ap', n', out'). printf_loop buf0 fuel fmt' ap' n' out'))"

text \<open>Every turn of the loop consumes a character, so the length of the format is enough fuel.\<close>

definition printf :: "u8 list \<Rightarrow> u8 list \<Rightarrow> va_arg list \<Rightarrow> outp \<Rightarrow> (nat \<times> outp) result" where
  "printf buf0 format args out = printf_loop buf0 (length format) format args 0 out"


section \<open>The digits of a number\<close>

function base_digits :: "nat \<Rightarrow> nat \<Rightarrow> nat list" where
  "base_digits b n = (if n < b \<or> b < 2 then [n] else base_digits b (n div b) @ [n mod b])"
  by pat_completeness auto
termination
  by (relation "measure snd") auto

declare base_digits.simps [simp del]

lemma base_digits_length:
  assumes "2 \<le> b" and "n < b ^ k" and "0 < k"
  shows "length (base_digits b n) \<le> k"
  using assms(2,3)
proof (induction k arbitrary: n)
  case (Suc k)
  show ?case
  proof (cases "n < b")
    case False
    then have "0 < k"
      using Suc.prems by (cases k) auto
    moreover have "n div b < b ^ k"
      using Suc.prems(1) assms(1) by (simp add: less_mult_imp_div_less mult.commute)
    ultimately show ?thesis
      using Suc.IH [of "n div b"] False assms(1) by (simp add: base_digits.simps [of b n])
  qed (simp add: base_digits.simps)
qed simp

lemma base_digits_less: "2 \<le> b \<Longrightarrow> d \<in> set (base_digits b n) \<Longrightarrow> d < b"
proof (induction b n rule: base_digits.induct)
  case (1 b n)
  then show ?case
    by (cases "n < b") (auto simp: base_digits.simps [of b n])
qed

lemma base_digits_value: "2 \<le> b \<Longrightarrow> digits_value (int b) 0 (map int (base_digits b n)) = int n"
proof (induction b n rule: base_digits.induct)
  case (1 b n)
  show ?case
  proof (cases "n < b")
    case False
    then have "digits_value (int b) 0 (map int (base_digits b n)) = int (n div b) * int b + int (n mod b)"
      using 1 by (simp add: base_digits.simps [of b n] digits_value_snoc)
    then show ?thesis
      by (metis of_nat_add of_nat_mult div_mult_mod_eq)
  qed (simp add: base_digits.simps)
qed

lemma base_digits_nonempty: "base_digits b n \<noteq> []"
  by (subst base_digits.simps) simp

lemma number_digits_spec:
  fixes n base :: u32
  assumes "2 \<le> base" and "length (base_digits (unat base) (unat n)) \<le> ptr" and "ptr \<le> length buf"
  shows "number_digits buf ptr n base table =
    (let cs = map ((!) table) (base_digits (unat base) (unat n)) in
     Ok (take (ptr - length cs) buf @ cs @ drop ptr buf, ptr - length cs))"
  using assms(2,3)
proof (induction ptr arbitrary: buf n)
  case 0
  then show ?case
    by (simp add: base_digits_nonempty)
next
  case (Suc ptr)
  have b: "2 \<le> unat base"
    using assms(1) by (simp add: word_le_nat_alt)
  have upd: "buf[ptr := x] = take ptr buf @ x # drop (Suc ptr) buf" for x
    using Suc.prems(2) by (simp add: upd_conv_take_nth_drop)
  have z: "n div base = 0 \<longleftrightarrow> unat n < unat base"
    using b by (simp add: unat_eq_zero [symmetric] unat_div div_eq_0_iff del: unat_eq_zero)
  show ?case
  proof (cases "unat n < unat base")
    case True
    then have "n div base = 0" "unat (n mod base) = unat n"
      using z by (simp_all add: unat_mod)
    then show ?thesis
      using True upd by (simp add: base_digits.simps Let_def)
  next
    case False
    define ds where "ds = base_digits (unat base) (unat (n div base))"
    have ds: "base_digits (unat base) (unat n) = ds @ [unat (n mod base)]"
      using False b by (simp add: base_digits.simps [of _ "unat n"] ds_def unat_div unat_mod)
    then have "length ds \<le> ptr"
      using Suc.prems(1) by simp
    then have "number_digits (buf[ptr := table ! unat (n mod base)]) ptr (n div base) base table =
      Ok (take (ptr - length ds) buf @ map ((!) table) ds @ table ! unat (n mod base) # drop (Suc ptr) buf,
        ptr - length ds)"
      using Suc.IH [of "n div base" "buf[ptr := table ! unat (n mod base)]"] Suc.prems(2)
      by (simp add: Let_def ds_def [symmetric] upd)
    then show ?thesis
      using z False ds by (simp add: Let_def)
  qed
qed

lemma number_chars_spec:
  fixes n base :: u32
  assumes "2 \<le> base" and "length (base_digits (unat base) (unat n)) + (if neg then 1 else 0) \<le> 11"
    and "length buf0 = 12" and "table ! 0 = 48" and "\<forall>i < unat base. table ! i \<noteq> 0"
  shows "number_chars neg n base table buf0 =
    Ok ((if neg then [45] else []) @ map ((!) table) (base_digits (unat base) (unat n)))"
proof -
  have b: "2 \<le> unat base"
    using assms(1) by (simp add: word_le_nat_alt)
  define buf where "buf = buf0[11 := 0]"
  define cs where "cs = map ((!) table) (base_digits (unat base) (unat n))"
  have len: "length cs + (if neg then 1 else 0) \<le> 11" and cs0: "\<forall>c \<in> set cs. c \<noteq> 0"
    using assms(2,5) base_digits_less [OF b] by (auto simp: cs_def)
  have buf: "length buf = 12" "drop 11 buf = [0]"
    using assms(3) Cons_nth_drop_Suc [of 11 buf0, symmetric] by (simp_all add: buf_def drop_update_swap)
  have digits: "(if n = 0 then Ok (buf[10 := 48], 10) else number_digits buf 11 n base table) =
      Ok (take (11 - length cs) buf @ cs @ [0], 11 - length cs)"
  proof (cases "n = 0")
    case True
    then have "cs = [48]"
      using b assms(4) by (simp add: cs_def base_digits.simps)
    with True buf show ?thesis
      by (simp add: upd_conv_take_nth_drop)
  next
    case False
    then show ?thesis
      using number_digits_spec [OF assms(1), of n 11 buf table] len buf
      by (simp add: cs_def Let_def)
  qed
  have tw: "takeWhile (\<lambda>x. x \<noteq> 0) (cs @ [0]) = cs"
    using cs0 by (subst takeWhile_append2) auto
  have minus: "drop (10 - length cs) ((take (11 - length cs) buf @ cs @ [0])[10 - length cs := 45]) = 45 # cs @ [0]"
    if neg
  proof -
    have "Suc (10 - length cs) = 11 - length cs"
      using len that by simp
    then have "drop (10 - length cs) (take (11 - length cs) buf) = [buf ! (10 - length cs)]"
      using len that buf(1) Cons_nth_drop_Suc [of "10 - length cs" "take (11 - length cs) buf"] by simp
    then show ?thesis
      using len that buf(1) by (simp add: drop_update_swap)
  qed
  show ?thesis
    unfolding number_chars_def Let_def buf_def [symmetric] cs_def [symmetric] digits
    using len tw buf minus by (auto simp: put_minus_def)
qed


section \<open>What the conversions print\<close>

definition uns_chars :: "u8 list \<Rightarrow> nat \<Rightarrow> u32 \<Rightarrow> u8 list" where
  "uns_chars table b v = map ((!) table) (base_digits b (unat v))"

definition dec_chars :: "int \<Rightarrow> u8 list" where
  "dec_chars i = (if i < 0 then [45] else []) @ map ((!) number_table) (base_digits 10 (nat \<bar>i\<bar>))"

lemma unat_bound_length:
  fixes v :: u32
  shows "length (base_digits 8 (unat v)) \<le> 11" "length (base_digits 10 (unat v)) \<le> 10"
    "length (base_digits 16 (unat v)) \<le> 8"
proof -
  have v: "unat v < 2 ^ 32"
    using unsigned_less [of v] by simp
  then show "length (base_digits 8 (unat v)) \<le> 11" "length (base_digits 10 (unat v)) \<le> 10"
    "length (base_digits 16 (unat v)) \<le> 8"
    by (auto intro!: base_digits_length)
qed

lemma table_digits:
  assumes "i < 16"
  shows "number_table ! i \<noteq> 0" "number_table_upper ! i \<noteq> 0"
    "uint (number_table ! i) = int i + (if i < 10 then 48 else 87)"
proof -
  have "i \<in> set [0..<16]"
    using assms by simp
  then have "number_table ! i \<noteq> 0 \<and> number_table_upper ! i \<noteq> 0 \<and>
      uint (number_table ! i) = int i + (if i < 10 then 48 else 87)"
    by (simp add: upt_rec [of _ "16"] number_table_def number_table_upper_def) (elim disjE; simp)
  then show "number_table ! i \<noteq> 0" "number_table_upper ! i \<noteq> 0"
    "uint (number_table ! i) = int i + (if i < 10 then 48 else 87)"
    by auto
qed

lemma print_unsigned_spec:
  assumes "length buf0 = 12" and "b = 8 \<or> b = 10 \<or> b = 16" and "table = number_table \<or> table = number_table_upper"
  shows "print_number_in buf0 ctx False v (of_nat b) table out = Ok (print_str ctx (uns_chars table b v) out)"
proof -
  have b: "unat (of_nat b :: u32) = b" "2 \<le> (of_nat b :: u32)"
    using assms(2) by auto
  have "table ! 0 = 48" "\<forall>i < b. table ! i \<noteq> 0"
    using assms(2,3) table_digits by (auto simp: number_table_def number_table_upper_def)
  then have "number_chars False v (of_nat b) table buf0 = Ok (uns_chars table b v)"
    using number_chars_spec [OF b(2), of v False buf0 table] assms(1,2) unat_bound_length [of v] b(1)
    by (auto simp: uns_chars_def)
  then show ?thesis
    by (simp add: print_number_in_def)
qed

lemma unat_of_int32: "0 \<le> k \<Longrightarrow> k < 2 ^ 32 \<Longrightarrow> unat (word_of_int k :: u32) = nat k"
  by (simp add: unat_eq_nat_uint uint_word_of_int)

lemma sint32_range: "- (2 ^ 31) \<le> sint v \<and> sint v < 2 ^ 31" for v :: u32
  using sint_greater_eq [of v] sint_less [of v] by simp

lemma unat_minus_sint:
  fixes v :: u32
  assumes "sint v < 0"
  shows "unat (- v) = nat (- sint v)"
  using unat_of_int32 [of "- sint v"] assms sint32_range [of v] by simp

lemma unat_sint: "0 \<le> sint v \<Longrightarrow> unat v = nat (sint v)" for v :: u32
  using unat_of_int32 [of "sint v"] sint32_range [of v] by simp

lemma print_number_spec:
  assumes "length buf0 = 12"
  shows "print_number buf0 ctx v 10 out = Ok (print_str ctx (dec_chars (sint v)) out)"
proof -
  have t: "number_table ! 0 = 48" "\<forall>i < 10. number_table ! i \<noteq> 0"
    using table_digits by (auto simp: number_table_def)
  have "number_chars True (- v) 10 number_table buf0 = Ok (45 # uns_chars number_table 10 (- v))"
    using number_chars_spec [of 10 "- v" True buf0 number_table] assms unat_bound_length(2) [of "- v"] t
    by (simp add: uns_chars_def)
  then show ?thesis
    using print_unsigned_spec [OF assms, of 10 number_table ctx v out] unat_minus_sint [of v] unat_sint [of v]
    by (auto simp: print_number_def print_number_in_def dec_chars_def uns_chars_def)
qed


section \<open>Printed numbers parse back\<close>

lemma accept_table:
  assumes "d < b" and "b \<le> 16"
  shows "accept_digit (int b) (uint (number_table ! d)) = Some (int d)"
  using assms table_digits(3) [of d]
  by (auto simp: accept_digit_def digit_value_def ctype_defs split: if_splits)

lemma digits_accepted:
  assumes "2 \<le> b" and "b \<le> 16"
  shows "list_all2 (\<lambda>x d. accept_digit (int b) (uint x) = Some d)
    (map ((!) number_table) (base_digits b n)) (map int (base_digits b n))"
  using base_digits_less [OF assms(1)] accept_table [OF _ assms(2)]
  by (auto simp: list.rel_map intro: list.rel_refl_strong)

lemma base_digits_hd: "2 \<le> b \<Longrightarrow> 0 < n \<Longrightarrow> hd (base_digits b n) \<noteq> 0"
proof (induction b n rule: base_digits.induct)
  case (1 b n)
  then show ?case
    using base_digits_nonempty
    by (cases "n < b") (auto simp: base_digits.simps [of b n] div_greater_zero_iff)
qed

lemma numeral_at_printed:
  assumes "2 \<le> b" and "b \<le> 16" and "sign_ok sg"
    and "cstr m p (sg @ map ((!) number_table) (base_digits b n))"
  shows "numeral_at m p (int b) [] sg (map ((!) number_table) (base_digits b n)) [] (map int (base_digits b n))"
  using assms(3,4) digits_accepted [OF assms(1,2)] by (simp add: numeral_at_def base_digits_nonempty)

lemma no_hex_prefix:
  assumes "2 \<le> b" and "b \<le> 16"
  shows "case map ((!) number_table) (base_digits b n) @ [] of
    x # y # _ \<Rightarrow> x = 48 \<longrightarrow> tolower (uint y) \<noteq> 120 | _ \<Rightarrow> True"
proof -
  have "tolower (uint y) \<noteq> 120" if y: "y \<in> set (map ((!) number_table) (base_digits b n))" for y
  proof -
    from y obtain d where "y = number_table ! d" "d < 16"
      using base_digits_less [OF assms(1)] assms(2) by fastforce
    then show ?thesis
      using table_digits(3) [of d] by (auto simp: ctype_defs split: if_splits)
  qed
  then show ?thesis
    by (auto split: list.split)
qed

lemma strtoul_printed:
  assumes "2 \<le> b" and "b \<le> 16" and "cstr m p (uns_chars number_table b v)"
  shows "strtoul m (Some p) True (int b) = Some (v, Some (Some (p + length (uns_chars number_table b v))), None)"
proof -
  have n: "numeral_at m p (int b) [] [] (uns_chars number_table b v) [] (map int (base_digits b (unat v)))"
    using numeral_at_printed [of b "[]" m p "unat v"] assms by (simp add: uns_chars_def sign_ok_def)
  have pre: "int b = 16 \<longrightarrow> (case uns_chars number_table b v @ [] of
      x # y # _ \<Rightarrow> x = 48 \<longrightarrow> tolower (uint y) \<noteq> 120 | _ \<Rightarrow> True)"
    unfolding uns_chars_def by (intro impI no_hex_prefix assms(1,2))
  have "digits_value (int b) 0 (map int (base_digits b (unat v))) = uint v" "uint v < 2 ^ 32"
    using uint_bounded [of v] by (simp_all add: base_digits_value [OF assms(1)])
  then show ?thesis
    using strtoul_spec [OF n _ _ pre] assms(1,2) by simp
qed

lemma strtol_printed:
  fixes v :: u32
  assumes "cstr m p (dec_chars (sint v))"
  shows "strtol m (Some p) True 10 = Some (v, Some (Some (p + length (dec_chars (sint v)))), None)"
proof -
  define sg :: "u8 list" where "sg = (if sint v < 0 then [45] else [])"
  define n where "n = nat \<bar>sint v\<bar>"
  have dec: "dec_chars (sint v) = sg @ map ((!) number_table) (base_digits 10 n)"
    by (simp add: dec_chars_def sg_def n_def)
  have num: "numeral_at m p 10 [] sg (map ((!) number_table) (base_digits 10 n)) [] (map int (base_digits 10 n))"
    using numeral_at_printed [of 10 sg m p n] assms dec by (simp add: sign_ok_def sg_def)
  have "(if sg = [45] then - 1 else 1) * digits_value 10 0 (map int (base_digits 10 n)) = sint v"
    using base_digits_value [of 10 n] by (simp add: sg_def n_def)
  then show ?thesis
    using strtol_spec [OF num] sint32_range [of v] by (simp add: dec)
qed

section \<open>Formats\<close>

text \<open>
  A format as the list of its directives: a literal character, \<open>%%\<close>, \<open>%c\<close>, \<open>%p\<close>, or a
  number or string conversion with zero padding, a width and an ignored \<open>l\<close>.
\<close>

datatype conv = Dec | Udec | Hex | HexU | Oct | Str

datatype directive = Lit u8 | Percent | Chr | Ptr | Conv conv bool nat bool

fun conv_char :: "conv \<Rightarrow> u8" where
  "conv_char Dec = 100" | "conv_char Udec = 117" | "conv_char Hex = 120" | "conv_char HexU = 88"
| "conv_char Oct = 111" | "conv_char Str = 115"

definition width_chars :: "nat \<Rightarrow> u8 list" where
  "width_chars w = (if w = 0 then [] else map ((!) number_table) (base_digits 10 w))"

fun render :: "directive \<Rightarrow> u8 list" where
  "render (Lit c) = [c]"
| "render Percent = [37, 37]"
| "render Chr = [37, 99]"
| "render Ptr = [37, 112]"
| "render (Conv k z w l) =
     [37] @ (if z then [48] else []) @ width_chars w @ (if l then [108] else []) @ [conv_char k]"

fun directive_ok :: "directive \<Rightarrow> bool" where
  "directive_ok (Lit c) \<longleftrightarrow> c \<noteq> 37"
| "directive_ok (Conv k z w l) \<longleftrightarrow> (z \<longrightarrow> 0 < w) \<and> w < 2 ^ 32"
| "directive_ok _ \<longleftrightarrow> True"

definition padded :: "bool \<Rightarrow> nat \<Rightarrow> u8 list \<Rightarrow> int list" where
  "padded z w cs = replicate (w - length cs) (if z then 48 else 32) @ map uint cs"

fun conv_text :: "conv \<Rightarrow> va_arg \<Rightarrow> u8 list option" where
  "conv_text Dec (VInt v) = Some (dec_chars (sint v))"
| "conv_text Udec (VInt v) = Some (uns_chars number_table 10 v)"
| "conv_text Hex (VInt v) = Some (uns_chars number_table 16 v)"
| "conv_text HexU (VInt v) = Some (uns_chars number_table_upper 16 v)"
| "conv_text Oct (VInt v) = Some (uns_chars number_table 8 v)"
| "conv_text Str (VStr s) = Some s"
| "conv_text _ _ = None"

fun format_text :: "directive list \<Rightarrow> va_arg list \<Rightarrow> int list option" where
  "format_text [] ap = Some []"
| "format_text (Lit c # ds) ap = map_option (\<lambda>t. uint c # t) (format_text ds ap)"
| "format_text (Percent # ds) ap = map_option (\<lambda>t. 37 # t) (format_text ds ap)"
| "format_text (Chr # ds) (VInt v # ap) = map_option (\<lambda>t. sint v # t) (format_text ds ap)"
| "format_text (Ptr # ds) (VInt v # ap) =
     map_option (\<lambda>t. 48 # 120 # padded True 8 (uns_chars number_table 16 v) @ t) (format_text ds ap)"
| "format_text (Conv k z w l # ds) (a # ap) =
     (case conv_text k a of
        None \<Rightarrow> None
      | Some cs \<Rightarrow> map_option (\<lambda>t. padded z w cs @ t) (format_text ds ap))"
| "format_text _ _ = None"

lemma width_loop_digits:
  assumes "rest \<noteq> [] \<Longrightarrow> \<not> isdigit (uint (hd rest))" and "\<forall>d \<in> set ds. d < 10"
  shows "width_loop (word_of_int w) (map ((!) number_table) ds @ rest) =
    (word_of_int (digits_value 10 w (map int ds)), rest)"
  using assms(2)
proof (induction ds arbitrary: w)
  case Nil
  then show ?case
    using assms(1) by (cases rest) auto
next
  case (Cons d ds)
  have "uint (number_table ! d) = int d + 48"
    using Cons.prems table_digits(3) [of d] by simp
  then show ?case
    using Cons.IH [of "w * 10 + int d"] Cons.prems by (simp add: isdigit_def)
qed


lemma print_char_narrow: "min_width ctx = 0 \<Longrightarrow> print_char ctx c out = Ok (out @ [c], 1)"
  by (simp add: print_char_def print_char_loop.simps)

lemma conv_print_spec:
  assumes "length buf0 = 12" and "conv_text k a = Some cs"
  shows "print_spec buf0 ctx (conv_char k # fmt) (a # ap) n out =
    (let (out', j) = print_str ctx cs out in Ok (fmt, ap, n + j, out'))"
  using assms(2) print_number_spec [OF assms(1)] print_unsigned_spec [OF assms(1), of 8 number_table]
    print_unsigned_spec [OF assms(1), of 10 number_table] print_unsigned_spec [OF assms(1), of 16 number_table]
    print_unsigned_spec [OF assms(1), of 16 number_table_upper]
  by (cases "(k, a)" rule: conv_text.cases)
    (auto simp: print_spec.simps(2) int_directive_def after_print_def print_unsigned_def split: prod.split)

lemma print_spec_l: "print_spec buf0 ctx (108 # fmt) ap n out = print_spec buf0 ctx fmt ap n out"
  by (simp add: print_spec.simps(2))

lemma conv_char_not_digit: "\<not> isdigit (uint (conv_char k))"
  by (cases k) (simp_all add: isdigit_def)

lemma print_spec_digits:
  assumes "isdigit (uint d)" and "d \<noteq> 48 \<or> z"
  shows "print_spec buf0 ctx ((if z then [48] else []) @ d # fmt) ap n out =
    (let (w, rest) = width_loop (min_width ctx) (d # fmt) in
     print_spec buf0 (ctx\<lparr>pad := if z then 48 else pad ctx, min_width := w\<rparr>) rest ap n out)"
proof -
  have d: "d \<noteq> 37" "d \<noteq> 105" "d \<noteq> 100" "d \<noteq> 88" "d \<noteq> 112" "d \<noteq> 120" "d \<noteq> 117" "d \<noteq> 111" "d \<noteq> 115" "d \<noteq> 99" "d \<noteq> 108"
    using assms(1) by (auto simp: isdigit_def)
  show ?thesis
    using assms d by (cases z) (auto simp: print_spec.simps(2))
qed


lemma print_str_padded:
  assumes "w < 2 ^ 32"
  shows "print_str \<lparr>pad = if z then 48 else 32, min_width = word_of_nat w\<rparr> cs out =
    (out @ padded z w cs, length (padded z w cs))"
  using assms by (simp add: print_str_def padded_def unat_of_nat Let_def max_def)

lemma print_spec_conv:
  assumes "length buf0 = 12" and "directive_ok (Conv k z w l)" and "conv_text k a = Some cs"
  shows "print_spec buf0 \<lparr>pad = 32, min_width = 0\<rparr> (tl (render (Conv k z w l)) @ fmt) (a # ap) n out =
    Ok (fmt, ap, n + length (padded z w cs), out @ padded z w cs)"
proof -
  define tail where "tail = (if l then [108] else []) @ conv_char k # fmt"
  have tl: "print_spec buf0 \<lparr>pad = if z then 48 else 32, min_width = word_of_nat w\<rparr> tail (a # ap) n out =
      Ok (fmt, ap, n + length (padded z w cs), out @ padded z w cs)"
    using assms(2) by (simp add: tail_def print_spec_l conv_print_spec [OF assms(1,3)] print_str_padded)
  show ?thesis
  proof (cases "w = 0")
    case True
    then show ?thesis
      using assms(2) tl by (simp add: width_chars_def tail_def)
  next
    case False
    then obtain d ds where d: "base_digits 10 w = d # ds"
      using base_digits_nonempty by (cases "base_digits 10 w") auto
    then have lt: "\<forall>x \<in> set (d # ds). x < 10" and nz: "d \<noteq> 0"
      using base_digits_less [of 10 _ w] base_digits_hd [of 10 w] False by auto
    have "hd tail = conv_char k \<or> hd tail = 108" "tail \<noteq> []"
      by (auto simp: tail_def)
    then have nd: "\<not> isdigit (uint (hd tail))"
      using conv_char_not_digit [of k] by (auto simp: isdigit_def)
    have "uint (number_table ! d) = int d + 48"
      using lt table_digits(3) [of d] by simp
    then have dig: "isdigit (uint (number_table ! d))" "number_table ! d \<noteq> 48 \<or> z"
      using lt nz by (auto simp: isdigit_def)
    have "width_loop 0 (number_table ! d # map ((!) number_table) ds @ tail) = (word_of_nat w, tail)"
      using width_loop_digits [of tail "d # ds" 0] nd lt base_digits_value [of 10 w] d
      by (simp del: width_loop.simps)
    then show ?thesis
      using print_spec_digits [OF dig, of buf0 "\<lparr>pad = 32, min_width = 0\<rparr>" "map ((!) number_table) ds @ tail"] tl d False
      by (simp add: width_chars_def tail_def cong: if_cong)
  qed
qed

lemma printf_loop_spec:
  assumes "length buf0 = 12"
  shows "format_text ds ap = Some t \<Longrightarrow> \<forall>d \<in> set ds. directive_ok d \<Longrightarrow> length (concat (map render ds)) \<le> fuel \<Longrightarrow>
    printf_loop buf0 fuel (concat (map render ds)) ap n out = Ok (n + length t, out @ t)"
proof (induction ds ap arbitrary: t fuel n out rule: format_text.induct)
  case (1 ap)
  then show ?case
    by (cases fuel) auto
next
  case (2 c ds ap)
  then show ?case
    by (cases fuel) auto
next
  case (3 ds ap)
  then show ?case
    by (cases fuel) (auto simp: print_spec.simps(2) after_print_def print_char_narrow)
next
  case (4 ds v ap)
  then show ?case
    by (cases fuel) (auto simp: print_spec.simps(2) after_print_def int_directive_def print_char_narrow)
next
  case (5 ds v ap)
  have "print_str \<lparr>pad = 48, min_width = 8\<rparr> cs out = (out @ padded True 8 cs, length (padded True 8 cs))" for cs out
    using print_str_padded [of 8 True cs out] by simp
  then show ?case
    using 5 print_unsigned_spec [OF assms, of 16 number_table]
    by (cases fuel) (auto simp: print_spec.simps(2) after_print_def int_directive_def print_unsigned_def
        print_str_def [of _ "[48, 120]"] add.assoc)
next
  case (6 k z w l ds a ap)
  then obtain cs t' where cs: "conv_text k a = Some cs" "format_text ds ap = Some t'" "t = padded z w cs @ t'"
    by (auto split: option.splits)
  obtain f' where f: "fuel = Suc f'"
    using "6.prems"(3) by (cases fuel) auto
  have "printf_loop buf0 f' (concat (map render ds)) ap (n + length (padded z w cs)) (out @ padded z w cs) =
      Ok (n + length (padded z w cs) + length t', (out @ padded z w cs) @ t')"
    using "6.prems" cs f by (intro "6.IH") auto
  then show ?case
    using print_spec_conv [OF assms _ cs(1), of z w l "concat (map render ds)" ap n out] "6.prems"(2) cs(3) f
    by simp
qed auto


text \<open>More fuel than the length of the format changes nothing: a fault \<open>Diverge\<close> is never due to it.\<close>

lemma after_print_length: "after_print fmt ap n r = Ok (fmt', st) \<Longrightarrow> fmt' = fmt"
  by (cases r) (auto simp: after_print_def)

lemma int_directive_length: "int_directive pr fmt ap n out = Ok (fmt', st) \<Longrightarrow> fmt' = fmt"
  by (auto simp: int_directive_def result_simps dest: after_print_length)

lemma print_spec_length: "print_spec buf0 ctx fmt ap n out = Ok (fmt', st) \<Longrightarrow> length fmt' \<le> length fmt"
proof (induction buf0 ctx fmt ap n out rule: print_spec.induct)
  case (2 buf0 ctx c fmt ap n out)
  note IH_l = "2.IH"(1) and IH_w = "2.IH"(2)
  show ?case
  proof (cases "c \<in> {37, 105, 100, 88, 112, 120, 117, 111, 115, 99}")
    case True
    then show ?thesis
      using "2.prems" by (auto simp: print_spec.simps(2) result_simps split: prod.splits
          dest!: after_print_length int_directive_length)
  next
    case False
    then have c: "c \<noteq> 37" "\<not> (c = 105 \<or> c = 100)" "c \<noteq> 88" "c \<noteq> 112" "c \<noteq> 120" "c \<noteq> 117" "c \<noteq> 111" "c \<noteq> 115" "c \<noteq> 99"
      by auto
    show ?thesis
    proof (cases "c = 108")
      case True
      then show ?thesis
        using IH_l [OF c True] "2.prems" by (simp add: print_spec_l)
    next
      case l: False
      obtain ctx' rest where cr: "(if c = 48 then (ctx\<lparr>pad := 48\<rparr>, fmt) else (ctx, c # fmt)) = (ctx', rest)"
        by (cases "c = 48") auto
      then have rest: "length rest \<le> Suc (length fmt)"
        by (auto split: if_splits)
      show ?thesis
      proof (cases rest)
        case Nil
        then show ?thesis
          using "2.prems" c l cr by (simp add: print_spec.simps(2))
      next
        case (Cons d fmt0)
        obtain w fmt1 where w: "width_loop (min_width ctx') rest = (w, fmt1)"
          by (cases "width_loop (min_width ctx') rest") auto
        show ?thesis
        proof (cases "isdigit (uint d)")
          case True
          have "length fmt' \<le> length fmt1"
            using IH_w [OF c l refl cr [symmetric] Cons True refl w [symmetric]] "2.prems" c l cr Cons True w
            by (simp add: print_spec.simps(2))
          then show ?thesis
            using width_loop_length [of "min_width ctx'" rest] w rest by simp
        next
          case False
          then show ?thesis
            using "2.prems" c l cr Cons rest by (auto simp: print_spec.simps(2) dest!: after_print_length)
        qed
      qed
    qed
  qed
qed simp

lemma printf_fuel:
  "length fmt \<le> fuel \<Longrightarrow> printf_loop buf0 fuel fmt ap n out = printf_loop buf0 (length fmt) fmt ap n out"
proof (induction "length fmt" arbitrary: fmt fuel ap n out rule: less_induct)
  case less
  show ?case
  proof (cases fmt)
    case Nil
    then show ?thesis
      by (cases fuel) auto
  next
    case (Cons c fmt0)
    then obtain f where f: "fuel = Suc f" "length fmt0 \<le> f"
      using less.prems by (cases fuel) auto
    have step: "printf_loop buf0 f fmt' ap' n' out' = printf_loop buf0 (length fmt0) fmt' ap' n' out'"
      if "length fmt' \<le> length fmt0" for fmt' ap' n' out'
      using less.hyps [of fmt' f ap' n' out'] less.hyps [of fmt' "length fmt0" ap' n' out'] that f(2) Cons by simp
    show ?thesis
    proof (cases "print_spec buf0 \<lparr>pad = 32, min_width = 0\<rparr> fmt0 ap n out")
      case (Ok st)
      then show ?thesis
        using Cons f step print_spec_length [of buf0 _ fmt0 ap n out] by (cases st) auto
    next
      case (Fault e)
      then show ?thesis
        using Cons f step by simp
    qed
  qed
qed

section \<open>A width before a single character\<close>

text \<open>The padding loop of \<open>print_char\<close> never advances its counter.\<close>

lemma print_char_loop_diverges:
  assumes "n < min_width ctx"
  shows "print_char_loop ctx n out = None"
proof -
  have "\<not> n < min_width ctx" if "print_char_loop ctx n out = Some r" for r
    by (rule print_char_loop.raw_induct [of "\<lambda>ctx n out r. \<not> n < min_width ctx", OF _ that])
      (auto split: if_splits)
  with assms show ?thesis
    by (cases "print_char_loop ctx n out") auto
qed

lemma print_char_wide: "1 < min_width ctx \<Longrightarrow> print_char ctx c out = Fault Diverge"
  by (simp add: print_char_def print_char_loop_diverges)

section \<open>For the callers\<close>

text \<open>
  \<open>printf\<close> for callers that ignore the count.  The number buffer starts with arbitrary contents in the code; they do
  not matter.
\<close>

definition kprintf :: "u8 list \<Rightarrow> va_arg list \<Rightarrow> outp \<Rightarrow> outp result" where
  "kprintf fmt args out = rbind (printf (replicate 12 0) fmt args out) (\<lambda>(n, out). Ok out)"

lemma kprintf_format:
  assumes "format_text ds args = Some t" and "\<forall>d \<in> set ds. directive_ok d"
  shows "kprintf (concat (map render ds)) args out = Ok (out @ t)"
  using printf_loop_spec [of "replicate 12 0" ds args t "length (concat (map render ds))" 0 out] assms
  by (simp add: kprintf_def printf_def)

lemma kprintf_lit: "\<forall>c \<in> set cs. c \<noteq> 0x25 \<and> c \<noteq> 0 \<Longrightarrow> kprintf cs [] out = Ok (out @ map uint cs)"
proof -
  assume c: "\<forall>c \<in> set cs. c \<noteq> 0x25 \<and> c \<noteq> 0"
  have f: "format_text (map Lit cs) [] = Some (map uint cs)"
    by (induction cs) simp_all
  have r: "concat (map render (map Lit cs)) = cs"
    by (induction cs) simp_all
  have "\<forall>d \<in> set (map Lit cs). directive_ok d"
    using c by auto
  with printf_loop_spec [of "replicate 12 0" "map Lit cs" "[]" "map uint cs" "length cs" 0 out] f r show ?thesis
    by (simp add: kprintf_def printf_def)
qed

end
