(* ===== verification/TimeLib.thy ===== *)
theory TimeLib
  imports Prelude
begin

text \<open>
  Calendar arithmetic: \<open>src/lib/time.c\<close> and \<open>is_leapyear\<close> of \<open>src/include/time.h\<close>.  Times and
  fields are integers; the code's \<open>long\<close> holds every time below \<open>2 ^ 31\<close> seconds, where none of the sums
  overflows.  Division and remainder truncate, as in C.

  Shown: for a non-negative time \<open>gmtime_r\<close> yields a valid date that \<open>mktime\<close> maps back to the time, and
  \<open>gmtime_r\<close> inverts \<open>mktime\<close> on valid dates.
\<close>

section \<open>Definitions\<close>

record tm =
  tm_sec :: int
  tm_min :: int
  tm_hour :: int
  tm_mday :: int
  tm_mon :: int
  tm_year :: int
  tm_wday :: int

definition SECS_PER_MIN :: int where "SECS_PER_MIN = 60"
definition SECS_PER_HOUR :: int where "SECS_PER_HOUR = SECS_PER_MIN * 60"
definition SECS_PER_DAY :: int where "SECS_PER_DAY = SECS_PER_HOUR * 24"

lemmas secs_defs = SECS_PER_MIN_def SECS_PER_HOUR_def SECS_PER_DAY_def

definition is_leapyear :: "int \<Rightarrow> bool" where
  "is_leapyear year \<longleftrightarrow> cmod year 4 = 0 \<and> (cmod year 100 \<noteq> 0 \<or> cmod year 400 = 0)"

definition days_to_mon :: "int list" where
  "days_to_mon =
    [31,
     31 + 28,
     31 + 28 + 31,
     31 + 28 + 31 + 30,
     31 + 28 + 31 + 30 + 31,
     31 + 28 + 31 + 30 + 31 + 30,
     31 + 28 + 31 + 30 + 31 + 30 + 31,
     31 + 28 + 31 + 30 + 31 + 30 + 31 + 31,
     31 + 28 + 31 + 30 + 31 + 30 + 31 + 31 + 30,
     31 + 28 + 31 + 30 + 31 + 30 + 31 + 31 + 30 + 31,
     31 + 28 + 31 + 30 + 31 + 30 + 31 + 31 + 30 + 31 + 30]"

function mktime_years :: "int \<Rightarrow> int \<Rightarrow> int \<Rightarrow> int" where
  "mktime_years year curr_year days =
     (if year < curr_year
      then mktime_years (year + 1) curr_year (days + (365 + of_bool (is_leapyear year)))
      else days)"
  by pat_completeness auto
termination
  by (relation "measure (\<lambda>(year, curr_year, days). nat (curr_year - year))") auto

declare mktime_years.simps [simp del]

text \<open>An access outside \<open>days_to_mon\<close> is a fault.\<close>

definition mktime :: "tm \<Rightarrow> int result" where
  "mktime t =
     (let curr_year = 1900 + tm_year t;
          days = mktime_years 1970 curr_year 0;
          mon = (if tm_mon t > 0
            then rguard (tm_mon t \<le> 11) OutOfBounds
              (Ok (days + days_to_mon ! nat (tm_mon t - 1) + of_bool (tm_mon t > 1 \<and> is_leapyear curr_year)))
            else Ok days) in
      rbind mon (\<lambda>days. Ok ((days + (tm_mday t - 1)) * SECS_PER_DAY + tm_hour t * SECS_PER_HOUR +
        tm_min t * SECS_PER_MIN + tm_sec t)))"

definition days_year :: "int \<Rightarrow> int" where
  "days_year year = 365 + of_bool (is_leapyear year)"

lemma days_year_pos: "0 < days_year year"
  by (simp add: days_year_def)

function gmtime_year :: "int \<Rightarrow> int \<Rightarrow> int \<times> int" where
  "gmtime_year year days =
     (if days_year year > days then (year, days)
      else gmtime_year (year + 1) (days - days_year year))"
  by pat_completeness auto
termination
  by (relation "measure (\<lambda>(year, days). nat days)") (use days_year_pos in \<open>auto simp: not_less intro: less_le_trans\<close>)

declare gmtime_year.simps [simp del]

function gmtime_mon :: "bool \<Rightarrow> int \<Rightarrow> int \<Rightarrow> int" where
  "gmtime_mon leapyear days mon =
     (if mon < 11
      then if days_to_mon ! nat mon + of_bool (leapyear \<and> mon > 0) > days then mon
           else gmtime_mon leapyear days (mon + 1)
      else mon)"
  by pat_completeness auto
termination
  by (relation "measure (\<lambda>(leapyear, days, mon). nat (11 - mon))") auto

declare gmtime_mon.simps [simp del]

definition gmtime_r :: "int \<Rightarrow> tm" where
  "gmtime_r timep =
     (let days = cdiv timep SECS_PER_DAY;
          n = cmod timep SECS_PER_DAY;
          n' = cmod n SECS_PER_HOUR;
          (year, yday) = gmtime_year 1970 days;
          leapyear = is_leapyear year;
          mon = gmtime_mon leapyear yday 0;
          mday = (if mon > 0
            then yday - (days_to_mon ! nat (mon - 1) + of_bool (leapyear \<and> mon > 1))
            else yday) in
      \<lparr>tm_sec = cmod n' SECS_PER_MIN, tm_min = cdiv n' SECS_PER_MIN, tm_hour = cdiv n SECS_PER_HOUR,
       tm_mday = mday + 1, tm_mon = mon, tm_year = year - 1900, tm_wday = cmod (days + 4) 7\<rparr>)"

definition localtime_r :: "int \<Rightarrow> int \<Rightarrow> tm" where
  "localtime_r tz_minuteswest timep = gmtime_r (timep - tz_minuteswest * SECS_PER_MIN)"

section \<open>Years and months\<close>

text \<open>The number of days before month \<open>mon\<close> and in it.\<close>

definition mon_start :: "bool \<Rightarrow> int \<Rightarrow> int" where
  "mon_start leap mon = (if mon > 0 then days_to_mon ! nat (mon - 1) + of_bool (mon > 1 \<and> leap) else 0)"

definition mon_days :: "bool \<Rightarrow> int \<Rightarrow> int" where
  "mon_days leap mon = (if mon = 11 then 31 else mon_start leap (mon + 1) - mon_start leap mon)"

lemma mon_start_next: "0 \<le> mon \<Longrightarrow> days_to_mon ! nat mon + of_bool (leap \<and> mon > 0) = mon_start leap (mon + 1)"
  by (auto simp: mon_start_def)

lemma mktime_years_step:
  "year \<le> cy \<Longrightarrow> mktime_years year cy d + days_year cy = mktime_years year (cy + 1) d"
proof (induction year cy d rule: mktime_years.induct)
  case (1 year cy d)
  show ?case
  proof (cases "year < cy")
    case True
    then show ?thesis
      using 1 by (simp add: mktime_years.simps [of year])
  next
    case False
    with 1 have "year = cy"
      by simp
    then show ?thesis
      by (simp add: mktime_years.simps [of cy] mktime_years.simps [of "cy + 1"] days_year_def)
  qed
qed

lemma mktime_years_self [simp]: "mktime_years year year d = d"
  by (simp add: mktime_years.simps)

lemma gmtime_year_spec:
  assumes "0 \<le> days" and "1970 \<le> year" and "gmtime_year year days = (y, r)"
  shows "year \<le> y \<and> 0 \<le> r \<and> r < days_year y \<and>
    mktime_years 1970 y 0 + r = mktime_years 1970 year 0 + days"
  using assms
proof (induction year days rule: gmtime_year.induct)
  case (1 year days)
  show ?case
  proof (cases "days_year year > days")
    case True
    then show ?thesis
      using 1 by (simp add: gmtime_year.simps [of year])
  next
    case False
    then have "gmtime_year (year + 1) (days - days_year year) = (y, r)"
      using "1.prems"(3) by (simp add: gmtime_year.simps [of year])
    then show ?thesis
      using "1.IH" [OF False] "1.prems" False mktime_years_step [of 1970 year 0] by simp
  qed
qed

lemma mktime_years_mono:
  assumes "a \<le> b" and "1970 \<le> a"
  shows "mktime_years 1970 a 0 \<le> mktime_years 1970 b 0"
  using assms
proof (induction b rule: int_ge_induct)
  case (step b)
  then show ?case
    using mktime_years_step [of 1970 b 0] days_year_pos [of b] by simp
qed simp

text \<open>Dates a day count determines are unique.\<close>

lemma gmtime_year_unique:
  assumes "1970 \<le> year" and "year \<le> y" and "0 \<le> r" and "r < days_year y"
    and "mktime_years 1970 y 0 + r = mktime_years 1970 year 0 + days"
  shows "gmtime_year year days = (y, r)"
  using assms
proof (induction "nat (y - year)" arbitrary: year days)
  case 0
  then show ?case
    by (simp add: gmtime_year.simps)
next
  case (Suc k)
  have yr: "mktime_years 1970 (year + 1) 0 = mktime_years 1970 year 0 + days_year year"
    using mktime_years_step [of 1970 year 0] Suc.prems(1) by simp
  have IH: "gmtime_year (year + 1) (days - days_year year) = (y, r)"
    using Suc.hyps(2) Suc.prems yr by (intro Suc.hyps(1)) auto
  have "days_year year \<le> days"
    using mktime_years_mono [of "year + 1" y] Suc.hyps(2) Suc.prems yr by linarith
  then show ?case
    using IH by (simp add: gmtime_year.simps [of year])
qed

lemma mon_start_step:
  assumes "0 \<le> i" and "i \<le> 10"
  shows "mon_start leap i < mon_start leap (i + 1)"
proof -
  have "i = 0 \<or> i = 1 \<or> i = 2 \<or> i = 3 \<or> i = 4 \<or> i = 5 \<or> i = 6 \<or> i = 7 \<or> i = 8 \<or> i = 9 \<or> i = 10"
    using assms by presburger
  then show ?thesis
    by (elim disjE) (simp_all add: mon_start_def days_to_mon_def)
qed

lemma mon_start_mono:
  assumes "i \<le> j" and "0 \<le> i" and "j \<le> 11"
  shows "mon_start leap i \<le> mon_start leap j"
  using assms
proof (induction j rule: int_ge_induct)
  case (step j)
  then show ?case
    using mon_start_step [of j leap] by simp
qed simp

lemma gmtime_mon_rec:
  "0 \<le> mon \<Longrightarrow> gmtime_mon leap days mon =
    (if mon < 11 \<and> \<not> days < mon_start leap (mon + 1) then gmtime_mon leap days (mon + 1) else mon)"
  by (subst gmtime_mon.simps) (simp add: mon_start_next)

lemma gmtime_mon_spec:
  assumes "0 \<le> mon" and "mon \<le> 11" and "mon_start leap mon \<le> days"
  shows "mon \<le> gmtime_mon leap days mon \<and> gmtime_mon leap days mon \<le> 11 \<and>
    mon_start leap (gmtime_mon leap days mon) \<le> days \<and>
    (gmtime_mon leap days mon < 11 \<longrightarrow> days < mon_start leap (gmtime_mon leap days mon + 1))"
  using assms
proof (induction leap days mon rule: gmtime_mon.induct)
  case (1 leap days mon)
  show ?case
  proof (cases "mon < 11 \<and> \<not> days < mon_start leap (mon + 1)")
    case True
    then have e: "gmtime_mon leap days mon = gmtime_mon leap days (mon + 1)"
      using "1.prems" by (subst gmtime_mon_rec) auto
    show ?thesis
      unfolding e using "1.IH" True "1.prems" mon_start_next [of mon leap] by force
  next
    case False
    then have "gmtime_mon leap days mon = mon"
      using "1.prems" by (subst gmtime_mon_rec) auto
    then show ?thesis
      using False "1.prems" by auto
  qed
qed

lemma gmtime_mon_unique:
  assumes "0 \<le> mon" and "mon \<le> k" and "k \<le> 11" and "mon_start leap k \<le> days"
    and "k < 11 \<longrightarrow> days < mon_start leap (k + 1)"
  shows "gmtime_mon leap days mon = k"
  using assms
proof (induction leap days mon rule: gmtime_mon.induct)
  case (1 leap days mon)
  show ?case
  proof (cases "mon = k")
    case True
    then show ?thesis
      using "1.prems" by (subst gmtime_mon_rec) auto
  next
    case False
    then have "mon < 11" "\<not> days < mon_start leap (mon + 1)"
      using "1.prems" mon_start_mono [of "mon + 1" k leap] by auto
    then show ?thesis
      using "1.IH" False "1.prems" mon_start_next [of mon leap] by (subst gmtime_mon_rec) auto
  qed
qed

section \<open>Dates\<close>

text \<open>The fields of a date from 1970 on lie in their ranges.\<close>

definition tm_ok :: "tm \<Rightarrow> bool" where
  "tm_ok t \<longleftrightarrow> 0 \<le> tm_sec t \<and> tm_sec t < 60 \<and> 0 \<le> tm_min t \<and> tm_min t < 60 \<and>
     0 \<le> tm_hour t \<and> tm_hour t < 24 \<and> 70 \<le> tm_year t \<and> 0 \<le> tm_mon t \<and> tm_mon t \<le> 11 \<and>
     1 \<le> tm_mday t \<and> tm_mday t \<le> mon_days (is_leapyear (1900 + tm_year t)) (tm_mon t)"

lemma mon_start_12: "mon_start leap 11 + 31 = 365 + of_bool leap"
  by (simp add: mon_start_def days_to_mon_def)

lemma mktime_eq:
  assumes "tm_mon t \<le> 11"
  shows "mktime t = Ok ((mktime_years 1970 (1900 + tm_year t) 0 + mon_start (is_leapyear (1900 + tm_year t)) (tm_mon t) +
      tm_mday t - 1) * 86400 + tm_hour t * 3600 + tm_min t * 60 + tm_sec t)"
  using assms by (simp add: mktime_def mon_start_def secs_defs Let_def algebra_simps)

lemma gmtime_split:
  assumes "0 \<le> n"
  obtains year yday mon where "gmtime_year 1970 (n div 86400) = (year, yday)"
    and "mon = gmtime_mon (is_leapyear year) yday 0"
    and "gmtime_r n = \<lparr>tm_sec = n mod 60, tm_min = n mod 3600 div 60, tm_hour = n mod 86400 div 3600,
      tm_mday = yday - mon_start (is_leapyear year) mon + 1, tm_mon = mon, tm_year = year - 1900,
      tm_wday = (n div 86400 + 4) mod 7\<rparr>"
proof -
  obtain year yday where y: "gmtime_year 1970 (n div 86400) = (year, yday)"
    by (cases "gmtime_year 1970 (n div 86400)") auto
  have m: "n mod 86400 mod 3600 = n mod 3600" "n mod 3600 mod 60 = n mod 60"
    by (simp_all add: mod_mod_cancel)
  have s: "SECS_PER_DAY = 86400" "SECS_PER_HOUR = 3600" "SECS_PER_MIN = 60"
    by (simp_all add: secs_defs)
  have c: "cdiv n SECS_PER_DAY = n div 86400" "cmod n SECS_PER_DAY = n mod 86400"
    unfolding s using assms by (simp_all only: cdiv_nonneg cmod_nonneg zero_less_numeral)
  have c': "cdiv (n mod 86400) SECS_PER_HOUR = n mod 86400 div 3600" "cmod (n mod 86400) SECS_PER_HOUR = n mod 3600"
    unfolding s m(1) [symmetric] by (simp_all only: cdiv_nonneg cmod_nonneg pos_mod_sign zero_less_numeral)
  have c'': "cdiv (n mod 3600) SECS_PER_MIN = n mod 3600 div 60" "cmod (n mod 3600) SECS_PER_MIN = n mod 60"
    unfolding s m(2) [symmetric] by (simp_all only: cdiv_nonneg cmod_nonneg pos_mod_sign zero_less_numeral)
  have w: "cmod (n div 86400 + 4) 7 = (n div 86400 + 4) mod 7"
    using assms by (intro cmod_nonneg) (simp_all add: pos_imp_zdiv_nonneg_iff)
  define mon where "mon = gmtime_mon (is_leapyear year) yday 0"
  have "gmtime_r n = \<lparr>tm_sec = n mod 60, tm_min = n mod 3600 div 60, tm_hour = n mod 86400 div 3600,
      tm_mday = yday - mon_start (is_leapyear year) mon + 1, tm_mon = mon, tm_year = year - 1900,
      tm_wday = (n div 86400 + 4) mod 7\<rparr>"
    unfolding gmtime_r_def Let_def c c' c'' w y prod.case mon_def [symmetric] mon_start_def
    by (simp add: conj_ac)
  with y mon_def show ?thesis
    by (rule that)
qed

lemma gmtime_ok:
  assumes "0 \<le> n"
  shows "tm_ok (gmtime_r n) \<and> mktime (gmtime_r n) = Ok n \<and> tm_wday (gmtime_r n) = (n div 86400 + 4) mod 7"
proof -
  obtain year yday mon where y: "gmtime_year 1970 (n div 86400) = (year, yday)"
    and m: "mon = gmtime_mon (is_leapyear year) yday 0"
    and g: "gmtime_r n = \<lparr>tm_sec = n mod 60, tm_min = n mod 3600 div 60, tm_hour = n mod 86400 div 3600,
      tm_mday = yday - mon_start (is_leapyear year) mon + 1, tm_mon = mon, tm_year = year - 1900,
      tm_wday = (n div 86400 + 4) mod 7\<rparr>"
    using assms by (rule gmtime_split)
  define leap where "leap = is_leapyear year"
  have ys: "1970 \<le> year" "0 \<le> yday" "yday < days_year year" "mktime_years 1970 year 0 + yday = n div 86400"
    using gmtime_year_spec [OF _ _ y] assms by auto
  have ms: "0 \<le> mon" "mon \<le> 11" "mon_start leap mon \<le> yday" "mon < 11 \<longrightarrow> yday < mon_start leap (mon + 1)"
    using gmtime_mon_spec [of 0 leap yday] ys(2) by (auto simp: m leap_def mon_start_def)
  have md: "yday - mon_start leap mon < mon_days leap mon"
    using ms ys(3) mon_start_12 [of leap] by (auto simp: mon_days_def days_year_def leap_def)
  define D H M S where dhms: "D = n div 86400" "H = n mod 86400 div 3600" "M = n mod 3600 div 60" "S = n mod 60"
  have n: "n = D * 86400 + H * 3600 + M * 60 + S"
  proof -
    have "n mod 86400 div 3600 * 3600 + n mod 3600 = n mod 86400" "n mod 3600 div 60 * 60 + n mod 60 = n mod 3600"
      using div_mult_mod_eq [of "n mod 86400" 3600] div_mult_mod_eq [of "n mod 3600" 60]
      by (simp_all add: mod_mod_cancel)
    then show ?thesis
      using div_mult_mod_eq [of n 86400] unfolding dhms by linarith
  qed
  have range: "H < 24" "M < 60" "0 \<le> H" "0 \<le> M" "0 \<le> S" "S < 60"
    unfolding dhms by (simp_all add: int_div_less_iff pos_imp_zdiv_nonneg_iff)
  have days: "mktime_years 1970 year 0 + yday = D" and wday: "(n div 86400 + 4) mod 7 = (D + 4) mod 7"
    using ys(4) by (simp_all only: dhms)
  have "mktime (gmtime_r n) = Ok n"
    unfolding g dhms(1) [symmetric] dhms(2-4) [symmetric] using ms(2) days n
    by (subst mktime_eq) (simp_all flip: leap_def)
  moreover have "tm_ok (gmtime_r n)"
    unfolding g dhms(1) [symmetric] dhms(2-4) [symmetric] tm_ok_def using ys(1) ms md range by (simp flip: leap_def)
  ultimately show ?thesis
    by (simp only: g tm.simps simp_thms)
qed

text \<open>The other direction: the fields of a valid date are recovered from its time.\<close>

lemma mktime_gmtime:
  assumes "tm_ok t" and "mktime t = Ok n"
  shows "0 \<le> n \<and> gmtime_r n = t\<lparr>tm_wday := (n div 86400 + 4) mod 7\<rparr>"
proof -
  define year where "year = 1900 + tm_year t"
  define leap where "leap = is_leapyear year"
  define yday where "yday = mon_start leap (tm_mon t) + tm_mday t - 1"
  define D where "D = mktime_years 1970 year 0 + yday"
  define R where "R = tm_hour t * 3600 + tm_min t * 60 + tm_sec t"
  have ok: "0 \<le> tm_sec t" "tm_sec t < 60" "0 \<le> tm_min t" "tm_min t < 60" "0 \<le> tm_hour t" "tm_hour t < 24"
    "1970 \<le> year" "0 \<le> tm_mon t" "tm_mon t \<le> 11" "1 \<le> tm_mday t" "tm_mday t \<le> mon_days leap (tm_mon t)"
    using assms(1) by (auto simp: tm_ok_def year_def leap_def)
  have n: "n = D * 86400 + R"
    using assms(2) ok(9) by (simp add: mktime_eq D_def R_def yday_def leap_def year_def)
  have R: "0 \<le> R" "R < 86400"
    using ok by (auto simp: R_def)
  have div: "n div 86400 = D" "n mod 86400 = R"
    using R by (simp_all add: n)
  define q where "q = tm_min t * 60 + tm_sec t"
  have q: "0 \<le> q" "q < 3600" "R = tm_hour t * 3600 + q"
    using ok by (auto simp: q_def R_def)
  have m: "n mod 3600 = q" "n mod 60 = tm_sec t"
  proof -
    have "n = (D * 24 + tm_hour t) * 3600 + q" "n = ((D * 24 + tm_hour t) * 60 + tm_min t) * 60 + tm_sec t"
      by (simp_all add: n q(3)) (simp add: q_def)
    then show "n mod 3600 = q" "n mod 60 = tm_sec t"
      using q(1,2) ok(1,2) by (metis mod_mult_self3 mod_pos_pos_trivial)+
  qed
  have h: "R div 3600 = tm_hour t" "q div 60 = tm_min t"
    using q ok by (simp_all add: q_def)
  have D0: "0 \<le> mktime_years 1970 year 0"
    using mktime_years_mono [of 1970 year] ok(7) by simp
  have ms: "0 \<le> mon_start leap (tm_mon t)"
    using mon_start_mono [of 0 "tm_mon t" leap] ok(8,9) by (simp add: mon_start_def)
  have next_mon: "tm_mon t < 11 \<longrightarrow> yday < mon_start leap (tm_mon t + 1)"
    and "tm_mon t = 11 \<longrightarrow> yday < 365 + of_bool leap"
    using ok(11) mon_start_12 [of leap] by (auto simp: yday_def mon_days_def)
  then have "yday < 365 + of_bool leap"
    using ok(8,9) mon_start_mono [of "tm_mon t + 1" 11 leap] mon_start_12 [of leap] by (cases "tm_mon t = 11") auto
  then have yd: "0 \<le> yday" "yday < days_year year"
    using ms ok(10) by (simp_all add: yday_def days_year_def leap_def)
  have y: "gmtime_year 1970 D = (year, yday)"
    using ok(7) yd by (intro gmtime_year_unique) (auto simp: D_def)
  have mon: "gmtime_mon leap yday 0 = tm_mon t"
    using ok(8-10) next_mon by (intro gmtime_mon_unique) (auto simp: yday_def)
  have n0: "0 \<le> n"
    using n R(1) D0 yd(1) by (simp add: D_def)
  obtain year' yday' mon' where g: "gmtime_year 1970 D = (year', yday')"
    "mon' = gmtime_mon (is_leapyear year') yday' 0"
    "gmtime_r n = \<lparr>tm_sec = tm_sec t, tm_min = tm_min t, tm_hour = tm_hour t,
      tm_mday = yday' - mon_start (is_leapyear year') mon' + 1, tm_mon = mon', tm_year = year' - 1900,
      tm_wday = (n div 86400 + 4) mod 7\<rparr>"
    using gmtime_split [OF n0] unfolding div m h by metis
  then have "year' = year" "yday' = yday" "mon' = tm_mon t"
    using y mon by (simp_all add: leap_def)
  with g(3) n0 show ?thesis
    by (simp add: yday_def year_def leap_def)
qed

end
