(* ===== verification/TextBuffer.thy ===== *)
theory TextBuffer
  imports Strings
begin

text \<open>
  The text console of \<open>src/arch/i386/drivers/text_buffer.c\<close>: the cursor, the character cells in video memory
  and the writes to the cursor registers.  Video memory is byte memory at \<open>0xb8000\<close>, two bytes a cell, so the
  scrolling \<open>memmove\<close> is the one of \<open>Strings\<close>.  \<open>outb\<close> appends the pair (value, port) to a trace.

  Shown: the cursor stays on the screen, no access leaves the 4000 bytes of the screen, a printed character is at the
  cursor, and at the bottom the screen scrolls by exactly one line.
\<close>

type_synonym port_trace = "(u8 \<times> u16) list"

definition outb :: "u8 \<Rightarrow> u16 \<Rightarrow> port_trace \<Rightarrow> port_trace" where
  "outb v port tr = tr @ [(v, port)]"

section \<open>Definitions\<close>

abbreviation (input) TEXT_BUFFER_COLS :: int where "TEXT_BUFFER_COLS \<equiv> 80"
abbreviation (input) TEXT_BUFFER_ROWS :: int where "TEXT_BUFFER_ROWS \<equiv> 25"

abbreviation (input) TEXT_BUFFER_BLACK :: u32 where "TEXT_BUFFER_BLACK \<equiv> 0"
abbreviation (input) TEXT_BUFFER_LIGHT_GREY :: u32 where "TEXT_BUFFER_LIGHT_GREY \<equiv> 7"

definition TEXT_BUFFER_SPACE :: u16 where
  "TEXT_BUFFER_SPACE = 0x0720"

definition TEXT_BUFFER_PORT_CMD :: u16 where [simp]: "TEXT_BUFFER_PORT_CMD = 0x3d4"
definition TEXT_BUFFER_PORT_DATA :: u16 where [simp]: "TEXT_BUFFER_PORT_DATA = 0x3d5"
definition TEXT_BUFFER_CMD_MSB :: u8 where [simp]: "TEXT_BUFFER_CMD_MSB = 14"
definition TEXT_BUFFER_CMD_LSB :: u8 where [simp]: "TEXT_BUFFER_CMD_LSB = 15"

definition text_buffer_base_addr :: nat where
  "text_buffer_base_addr = 0xb8000"

record text_buffer =
  tb_row :: int
  tb_col :: int
  tb_mem :: mem
  tb_ports :: port_trace

definition put_cell :: "mem \<Rightarrow> int \<Rightarrow> u16 \<Rightarrow> mem" where
  "put_cell m i v =
     (let a = text_buffer_base_addr + 2 * nat i in m(a := ucast v, a + 1 := ucast (drop_bit 8 v)))"

definition get_cell :: "mem \<Rightarrow> int \<Rightarrow> u8 \<times> u8" where
  "get_cell m i = (let a = text_buffer_base_addr + 2 * nat i in (m a, m (a + 1)))"

definition text_buffer_draw_char_at :: "u8 \<Rightarrow> int \<Rightarrow> int \<Rightarrow> u32 \<Rightarrow> u32 \<Rightarrow> text_buffer \<Rightarrow> text_buffer result" where
  "text_buffer_draw_char_at c row col bg fg s =
     (let v = ucast (push_bit 12 (bg AND 0xf) OR push_bit 8 (fg AND 0xf) OR scast c :: u32);
          row = cmod row TEXT_BUFFER_ROWS;
          col = cmod col TEXT_BUFFER_COLS;
          i = row * TEXT_BUFFER_COLS + col in
      rguard (0 \<le> i) OutOfBounds (Ok (s\<lparr>tb_mem := put_cell (tb_mem s) i v\<rparr>)))"

definition text_buffer_draw_cursor :: "int \<Rightarrow> int \<Rightarrow> text_buffer \<Rightarrow> text_buffer" where
  "text_buffer_draw_cursor row col s =
     (let value = word_of_int (row * TEXT_BUFFER_COLS + col) :: u16 in
      s\<lparr>tb_ports := outb (ucast value) TEXT_BUFFER_PORT_DATA (outb TEXT_BUFFER_CMD_LSB TEXT_BUFFER_PORT_CMD
        (outb (ucast (drop_bit 8 value)) TEXT_BUFFER_PORT_DATA (outb TEXT_BUFFER_CMD_MSB TEXT_BUFFER_PORT_CMD (tb_ports s))))\<rparr>)"

fun fill_cells :: "mem \<Rightarrow> int \<Rightarrow> nat \<Rightarrow> mem" where
  "fill_cells m i 0 = m"
| "fill_cells m i (Suc n) = fill_cells (put_cell m i TEXT_BUFFER_SPACE) (i + 1) n"

definition text_buffer_clear :: "text_buffer \<Rightarrow> text_buffer" where
  "text_buffer_clear s =
     (let s = s\<lparr>tb_row := 0, tb_col := 0, tb_mem := fill_cells (tb_mem s) 0 2000\<rparr> in
      text_buffer_draw_cursor (tb_row s) (tb_col s) s)"

definition scroll :: "text_buffer \<Rightarrow> text_buffer" where
  "scroll s =
     (if tb_row s \<ge> TEXT_BUFFER_ROWS
      then s\<lparr>tb_row := TEXT_BUFFER_ROWS - 1,
        tb_mem := fill_cells
          (memmove (tb_mem s) text_buffer_base_addr (text_buffer_base_addr + 2 * 80) (2 * 80 * 24)) (80 * 24) 80\<rparr>
      else s)"

definition finish_char :: "text_buffer \<Rightarrow> text_buffer" where
  "finish_char s = (let s = scroll s in text_buffer_draw_cursor (tb_row s) (tb_col s) s)"

definition backspace :: "text_buffer \<Rightarrow> text_buffer result" where
  "backspace s =
     (let s = (if tb_col s \<noteq> 0 then s\<lparr>tb_col := tb_col s - 1\<rparr>
               else if tb_row s \<noteq> 0 then s\<lparr>tb_row := tb_row s - 1, tb_col := TEXT_BUFFER_COLS - 1\<rparr>
               else s) in
      text_buffer_draw_char_at 32 (tb_row s) (tb_col s) TEXT_BUFFER_BLACK TEXT_BUFFER_LIGHT_GREY s)"

definition newline :: "text_buffer \<Rightarrow> text_buffer" where
  "newline s = s\<lparr>tb_col := 0, tb_row := tb_row s + 1\<rparr>"

definition advance :: "text_buffer \<Rightarrow> text_buffer" where
  "advance s = (if tb_col s + 1 \<ge> TEXT_BUFFER_COLS then newline s else s\<lparr>tb_col := tb_col s + 1\<rparr>)"

text \<open>Every case of the switch but the tab, which is the only one to call back, with a space.\<close>

definition draw_plain :: "u8 \<Rightarrow> u32 \<Rightarrow> u32 \<Rightarrow> text_buffer \<Rightarrow> text_buffer result" where
  "draw_plain c bg fg s =
     (if c = 0x08 then rbind (backspace s) (\<lambda>s. Ok (finish_char s))
      else if c = 13 then Ok s
      else if c = 10 then Ok (finish_char (newline s))
      else rbind (text_buffer_draw_char_at c (tb_row s) (tb_col s) bg fg s) (\<lambda>s. Ok (finish_char (advance s))))"

fun draw_spaces :: "nat \<Rightarrow> text_buffer \<Rightarrow> text_buffer result" where
  "draw_spaces 0 s = Ok s"
| "draw_spaces (Suc n) s =
     rbind (draw_plain 32 TEXT_BUFFER_BLACK TEXT_BUFFER_LIGHT_GREY s) (draw_spaces n)"

definition text_buffer_draw_char :: "u8 \<Rightarrow> u32 \<Rightarrow> u32 \<Rightarrow> text_buffer \<Rightarrow> text_buffer result" where
  "text_buffer_draw_char c bg fg s =
     (if c = 9 then rbind (draw_spaces (nat (8 - cmod (tb_col s) 8)) s) (\<lambda>s. Ok (finish_char s))
      else draw_plain c bg fg s)"

definition text_buffer_write_char :: "u8 \<Rightarrow> text_buffer \<Rightarrow> text_buffer result" where
  "text_buffer_write_char c s = text_buffer_draw_char c TEXT_BUFFER_BLACK TEXT_BUFFER_LIGHT_GREY s"

definition putchar :: "int \<Rightarrow> text_buffer \<Rightarrow> text_buffer result" where
  "putchar c s = text_buffer_write_char (word_of_int c) s"

fun putchars :: "int list \<Rightarrow> text_buffer \<Rightarrow> text_buffer result" where
  "putchars [] s = Ok s"
| "putchars (c # cs) s = rbind (putchar c s) (putchars cs)"

section \<open>The screen\<close>

definition tb_ok :: "text_buffer \<Rightarrow> bool" where
  "tb_ok s \<longleftrightarrow> 0 \<le> tb_row s \<and> tb_row s < 25 \<and> 0 \<le> tb_col s \<and> tb_col s < 80"

text \<open>Memory outside the 4000 bytes of the screen.\<close>

definition off_screen_eq :: "mem \<Rightarrow> mem \<Rightarrow> bool" where
  "off_screen_eq m m' \<longleftrightarrow> (\<forall>a. a < text_buffer_base_addr \<or> text_buffer_base_addr + 4000 \<le> a \<longrightarrow> m' a = m a)"

lemma off_screen_refl [simp]: "off_screen_eq m m"
  by (simp add: off_screen_eq_def)

lemma off_screen_trans: "off_screen_eq m m' \<Longrightarrow> off_screen_eq m' m'' \<Longrightarrow> off_screen_eq m m''"
  by (simp add: off_screen_eq_def)

lemma get_put_cell:
  "0 \<le> i \<Longrightarrow> 0 \<le> j \<Longrightarrow>
   get_cell (put_cell m i v) j = (if i = j then (ucast v, ucast (drop_bit 8 v)) else get_cell m j)"
  by (auto simp: get_cell_def put_cell_def Let_def)

lemma put_cell_off: "0 \<le> i \<Longrightarrow> i < 2000 \<Longrightarrow> off_screen_eq m (put_cell m i v)"
  by (auto simp: off_screen_eq_def put_cell_def Let_def)

lemma fill_cells_get:
  "0 \<le> i \<Longrightarrow> 0 \<le> j \<Longrightarrow>
   get_cell (fill_cells m i n) j = (if i \<le> j \<and> j < i + int n then (0x20, 0x07) else get_cell m j)"
proof (induction m i n rule: fill_cells.induct)
  case (2 m i n)
  have "get_cell (fill_cells m i (Suc n)) j =
      (if i + 1 \<le> j \<and> j < i + 1 + int n then (0x20, 0x07) else get_cell (put_cell m i TEXT_BUFFER_SPACE) j)"
    using 2 by simp
  then show ?case
    using 2 by (auto simp: get_put_cell TEXT_BUFFER_SPACE_def)
qed auto

lemma fill_cells_off: "0 \<le> i \<Longrightarrow> i + int n \<le> 2000 \<Longrightarrow> off_screen_eq m (fill_cells m i n)"
proof (induction m i n rule: fill_cells.induct)
  case (2 m i n)
  have "off_screen_eq m (put_cell m i TEXT_BUFFER_SPACE)"
    using 2 by (intro put_cell_off) auto
  moreover have "off_screen_eq (put_cell m i TEXT_BUFFER_SPACE) (fill_cells (put_cell m i TEXT_BUFFER_SPACE) (i + 1) n)"
    using 2 by simp
  ultimately show ?case
    by (auto intro: off_screen_trans)
qed simp

text \<open>The scrolled screen: every line holds the next one, the last is blank.\<close>

lemma scroll_get:
  assumes "tb_row s \<ge> 25" and "0 \<le> r" and "r < 25" and "0 \<le> c" and "c < 80"
  shows "get_cell (tb_mem (scroll s)) (r * 80 + c) =
    (if r = 24 then (0x20, 0x07) else get_cell (tb_mem s) ((r + 1) * 80 + c))"
proof -
  define m where "m = memmove (tb_mem s) text_buffer_base_addr (text_buffer_base_addr + 160) 3840"
  have scr: "tb_mem (scroll s) = fill_cells m 1920 80"
    using assms(1) by (simp add: scroll_def m_def)
  have "get_cell m (r * 80 + c) = get_cell (tb_mem s) ((r + 1) * 80 + c)" if "r < 24"
  proof -
    have a: "nat ((r + 1) * 80 + c) = nat (r * 80 + c) + 80" "nat (r * 80 + c) < 1920"
      using that assms by auto
    show ?thesis
      using a unfolding get_cell_def m_def Let_def
      by (simp add: memmove_up_apply add_ac)
  qed
  then show ?thesis
    using assms by (auto simp: scr fill_cells_get)
qed

lemma scroll_off: "off_screen_eq (tb_mem s) (tb_mem (scroll s))"
proof (cases "tb_row s \<ge> 25")
  case True
  define m where "m = memmove (tb_mem s) text_buffer_base_addr (text_buffer_base_addr + 160) 3840"
  have "off_screen_eq (tb_mem s) m"
    by (auto simp: off_screen_eq_def m_def memmove_up_apply)
  moreover have "off_screen_eq m (fill_cells m 1920 80)"
    by (intro fill_cells_off) auto
  ultimately show ?thesis
    using True by (auto simp: scroll_def m_def [symmetric] intro: off_screen_trans)
qed (simp add: scroll_def)

text \<open>The two bytes of a drawn cell: an 8-bit character with its top bit set spills into the attribute.\<close>

lemma less_8_cases: "n < 8 \<Longrightarrow> n = 0 \<or> n = 1 \<or> n = 2 \<or> n = 3 \<or> n = 4 \<or> n = 5 \<or> n = 6 \<or> n = (7 :: nat)"
  by presburger

lemma msb_small: "c < 128 \<longleftrightarrow> \<not> bit c 7" for c :: u8
proof -
  have "bit (unat c) 7 = bit c 7"
    by (simp add: bit_unsigned_iff)
  then have "bit c 7 \<longleftrightarrow> odd (unat c div 128)"
    by (simp add: bit_iff_odd)
  moreover have "unat c < 256"
    using unsigned_less [of c] by simp
  then have "unat c div 128 = 0 \<or> unat c div 128 = 1"
    by auto
  moreover have "unat c div 128 = 0 \<longleftrightarrow> c < 128"
    by (simp add: div_eq_0_iff word_less_nat_alt)
  ultimately show ?thesis
    by auto
qed

definition drawn :: "u8 \<Rightarrow> u16" where
  "drawn c = ucast (push_bit 12 ((0 :: u32) AND 0xf) OR push_bit 8 (7 AND 0xf) OR scast c :: u32)"

definition attribute :: "u8 \<Rightarrow> u8" where
  "attribute c = (if c < 128 then 0x07 else 0xff)"

lemma drawn_bytes: "ucast (drawn c) = c" "ucast (drop_bit 8 (drawn c)) = attribute c"
proof -
  show "ucast (drawn c) = c"
  proof (rule bit_word_eqI)
    fix n assume "n < LENGTH(8)"
    then have "n < 8"
      by simp
    from less_8_cases [OF this] show "bit (ucast (drawn c) :: u8) n = bit c n"
      by (elim disjE) (simp_all add: drawn_def bit_simps)
  qed
  show "ucast (drop_bit 8 (drawn c)) = attribute c"
  proof (rule bit_word_eqI)
    fix n assume "n < LENGTH(8)"
    then have "n < 8"
      by simp
    from less_8_cases [OF this] show "bit (ucast (drop_bit 8 (drawn c)) :: u8) n = bit (attribute c) n"
      by (elim disjE) (simp_all add: drawn_def attribute_def msb_small bit_simps)
  qed
qed

section \<open>What the operations do\<close>

lemma cmod_small: "0 \<le> a \<Longrightarrow> a < b \<Longrightarrow> cmod a b = a"
  by (simp add: cmod_nonneg)

lemma draw_char_at_ok:
  assumes "0 \<le> r" "r < 25" "0 \<le> c" "c < 80"
  shows "text_buffer_draw_char_at ch r c 0 7 s = Ok (s\<lparr>tb_mem := put_cell (tb_mem s) (r * 80 + c) (drawn ch)\<rparr>)"
  using assms by (simp add: text_buffer_draw_char_at_def cmod_small drawn_def)

lemma draw_char_at_total:
  assumes "tb_ok s"
  shows "\<exists>s'. text_buffer_draw_char_at ch (tb_row s) (tb_col s) bg fg s = Ok s' \<and> tb_row s' = tb_row s \<and>
    tb_col s' = tb_col s \<and> off_screen_eq (tb_mem s) (tb_mem s')"
  using assms by (auto simp: text_buffer_draw_char_at_def cmod_small tb_ok_def Let_def rguard_def intro!: put_cell_off)

lemma finish_char_simps [simp]:
  "tb_mem (finish_char s) = tb_mem (scroll s)" "tb_col (finish_char s) = tb_col s"
  "tb_row (finish_char s) = (if tb_row s \<ge> 25 then 24 else tb_row s)"
  by (simp_all add: finish_char_def text_buffer_draw_cursor_def scroll_def Let_def)

text \<open>A character may leave the row one too far; \<open>finish_char\<close> repairs that.\<close>

lemma finish_char_ok:
  assumes "0 \<le> tb_row s" "tb_row s \<le> 25" "0 \<le> tb_col s" "tb_col s < 80"
  shows "tb_ok (finish_char s) \<and> off_screen_eq (tb_mem s) (tb_mem (finish_char s))"
  using assms scroll_off [of s] by (simp add: tb_ok_def)

lemma draw_plain_ok:
  assumes "tb_ok s"
  shows "\<exists>s'. draw_plain ch bg fg s = Ok s' \<and> tb_ok s' \<and> off_screen_eq (tb_mem s) (tb_mem s')"
proof -
  consider "ch = 8" | "ch = 13" | "ch = 10" | "ch \<noteq> 8" "ch \<noteq> 13" "ch \<noteq> 10"
    by blast
  then show ?thesis
  proof cases
    case 1
    define s1 where "s1 = (if tb_col s \<noteq> 0 then s\<lparr>tb_col := tb_col s - 1\<rparr>
       else if tb_row s \<noteq> 0 then s\<lparr>tb_row := tb_row s - 1, tb_col := 79\<rparr> else s)"
    have s1: "tb_ok s1" "tb_mem s1 = tb_mem s"
      using assms by (auto simp: s1_def tb_ok_def)
    obtain s2 where s2: "text_buffer_draw_char_at 32 (tb_row s1) (tb_col s1) 0 7 s1 = Ok s2" "tb_row s2 = tb_row s1"
        "tb_col s2 = tb_col s1" "off_screen_eq (tb_mem s1) (tb_mem s2)"
      using draw_char_at_total [OF s1(1)] by blast
    have "tb_ok (finish_char s2) \<and> off_screen_eq (tb_mem s2) (tb_mem (finish_char s2))"
      using s1(1) s2(2,3) by (intro finish_char_ok) (auto simp: tb_ok_def)
    moreover have "backspace s = text_buffer_draw_char_at 32 (tb_row s1) (tb_col s1) 0 7 s1"
      by (auto simp: backspace_def s1_def Let_def)
    then have "draw_plain ch bg fg s = Ok (finish_char s2)"
      using s2(1) 1 by (simp add: draw_plain_def)
    ultimately show ?thesis
      using s2(4) s1(2) by (auto intro: off_screen_trans)
  next
    case 2
    then show ?thesis
      using assms by (simp add: draw_plain_def)
  next
    case 3
    then show ?thesis
      using assms finish_char_ok [of "newline s"] by (simp add: draw_plain_def newline_def tb_ok_def)
  next
    case 4
    obtain s2 where s2: "text_buffer_draw_char_at ch (tb_row s) (tb_col s) bg fg s = Ok s2" "tb_row s2 = tb_row s"
        "tb_col s2 = tb_col s" "off_screen_eq (tb_mem s) (tb_mem s2)"
      using draw_char_at_total [OF assms] by blast
    have "tb_ok (finish_char (advance s2)) \<and> off_screen_eq (tb_mem (advance s2)) (tb_mem (finish_char (advance s2)))"
      using assms s2(2,3) by (intro finish_char_ok) (auto simp: tb_ok_def advance_def newline_def)
    moreover have "tb_mem (advance s2) = tb_mem s2"
      by (simp add: advance_def newline_def)
    ultimately show ?thesis
      using s2(1,4) 4 by (auto simp: draw_plain_def intro: off_screen_trans)
  qed
qed

lemma draw_spaces_ok:
  "tb_ok s \<Longrightarrow> \<exists>s'. draw_spaces n s = Ok s' \<and> tb_ok s' \<and> off_screen_eq (tb_mem s) (tb_mem s')"
proof (induction n arbitrary: s)
  case (Suc n)
  obtain s1 where "draw_plain 32 0 7 s = Ok s1" "tb_ok s1" "off_screen_eq (tb_mem s) (tb_mem s1)"
    using draw_plain_ok [OF Suc.prems] by blast
  then show ?case
    using Suc.IH [of s1] by (auto intro: off_screen_trans)
qed simp

lemma putchar_ok:
  assumes "tb_ok s"
  shows "\<exists>s'. putchar c s = Ok s' \<and> tb_ok s' \<and> off_screen_eq (tb_mem s) (tb_mem s')"
proof (cases "word_of_int c = (9 :: u8)")
  case True
  obtain s1 where s1: "draw_spaces (nat (8 - cmod (tb_col s) 8)) s = Ok s1" "tb_ok s1" "off_screen_eq (tb_mem s) (tb_mem s1)"
    using draw_spaces_ok [OF assms] by blast
  then have "tb_ok (finish_char s1) \<and> off_screen_eq (tb_mem s1) (tb_mem (finish_char s1))"
    by (intro finish_char_ok) (auto simp: tb_ok_def)
  with s1 True show ?thesis
    by (auto simp: putchar_def text_buffer_write_char_def text_buffer_draw_char_def intro: off_screen_trans)
next
  case False
  then show ?thesis
    using draw_plain_ok [OF assms] by (simp add: putchar_def text_buffer_write_char_def text_buffer_draw_char_def)
qed

lemma putchars_ok:
  "tb_ok s \<Longrightarrow> \<exists>s'. putchars cs s = Ok s' \<and> tb_ok s' \<and> off_screen_eq (tb_mem s) (tb_mem s')"
proof (induction cs arbitrary: s)
  case (Cons c cs)
  obtain s1 where "putchar c s = Ok s1" "tb_ok s1" "off_screen_eq (tb_mem s) (tb_mem s1)"
    using putchar_ok [OF Cons.prems] by blast
  then show ?case
    using Cons.IH [of s1] by (auto intro: off_screen_trans)
qed simp

lemma cell_inj:
  fixes r c r' c' :: int
  assumes "0 \<le> c" "c < 80" "0 \<le> c'" "c' < 80"
  shows "r * 80 + c = r' * 80 + c' \<longleftrightarrow> r = r' \<and> c = c'"
proof -
  have "(r * 80 + c) div 80 = r" "(r' * 80 + c') div 80 = r'"
    using assms by simp_all
  then have "r * 80 + c = r' * 80 + c' \<Longrightarrow> r = r'"
    by metis
  then show ?thesis
    by auto
qed

text \<open>The cell at row \<open>r\<close>, column \<open>c\<close>: character and attribute.\<close>

definition screen :: "text_buffer \<Rightarrow> int \<Rightarrow> int \<Rightarrow> u8 \<times> u8" where
  "screen s r c = get_cell (tb_mem s) (r * 80 + c)"

lemma putchar_printable:
  fixes ch :: u8
  assumes "tb_ok s" and "32 \<le> ch"
  defines "at_end \<equiv> tb_row s = 24 \<and> tb_col s = 79"
    and "drawn_at \<equiv> (\<lambda>r c. if r = tb_row s \<and> c = tb_col s then (ch, attribute ch) else screen s r c)"
  shows "\<exists>s'. putchar (uint ch) s = Ok s' \<and>
    tb_row s' = (if at_end then 24 else if tb_col s = 79 then tb_row s + 1 else tb_row s) \<and>
    tb_col s' = (if tb_col s = 79 then 0 else tb_col s + 1) \<and>
    (\<forall>r c. 0 \<le> r \<and> r < 25 \<and> 0 \<le> c \<and> c < 80 \<longrightarrow>
      screen s' r c = (if at_end then if r = 24 then (0x20, 0x07) else drawn_at (r + 1) c else drawn_at r c))"
proof -
  define s1 where "s1 = s\<lparr>tb_mem := put_cell (tb_mem s) (tb_row s * 80 + tb_col s) (drawn ch)\<rparr>"
  have ch: "ch \<noteq> 8" "ch \<noteq> 9" "ch \<noteq> 10" "ch \<noteq> 13"
    using assms(2) by auto
  have "putchar (uint ch) s = Ok (finish_char (advance s1))"
    using ch assms(1) draw_char_at_ok [of "tb_row s" "tb_col s" ch s]
    by (simp add: putchar_def text_buffer_write_char_def text_buffer_draw_char_def draw_plain_def s1_def tb_ok_def)
  moreover have d: "screen s1 r c = drawn_at r c" if "0 \<le> r" "0 \<le> c" "c < 80" for r c
    using that assms(1) get_put_cell [of "tb_row s * 80 + tb_col s" "r * 80 + c"]
      cell_inj [of "tb_col s" c "tb_row s" r]
    by (auto simp: screen_def s1_def drawn_at_def drawn_bytes tb_ok_def)
  have adv: "tb_mem (advance s1) = tb_mem s1"
    "tb_row (advance s1) = (if tb_col s = 79 then tb_row s + 1 else tb_row s)"
    "tb_col (advance s1) = (if tb_col s = 79 then 0 else tb_col s + 1)"
    using assms(1) by (auto simp: advance_def newline_def s1_def tb_ok_def)
  have "screen (finish_char (advance s1)) r c =
      (if at_end then if r = 24 then (0x20, 0x07) else drawn_at (r + 1) c else drawn_at r c)"
    if "0 \<le> r" "r < 25" "0 \<le> c" "c < 80" for r c
  proof (cases at_end)
    case True
    then have "25 \<le> tb_row (advance s1)"
      by (simp add: adv at_end_def)
    from scroll_get [OF this that] show ?thesis
      using True adv(1) d [of "r + 1" c] that by (simp add: screen_def)
  next
    case False
    then have "\<not> 25 \<le> tb_row (advance s1)"
      using assms(1) by (auto simp: adv at_end_def tb_ok_def)
    then show ?thesis
      using False adv(1) d [of r c] that by (simp add: screen_def scroll_def)
  qed
  ultimately show ?thesis
    using assms(1) adv(2,3) by (auto simp: at_end_def tb_ok_def)
qed

end
