(* ===== verification/LibProps.thy ===== *)
theory LibProps
  imports Tailq TimerHeap CircBuf Stdio TimeLib TextBuffer
begin

text \<open>
  The properties of the containers, the C library and the text console, each stated for the routine itself and
  applied to a concrete input by its witness.
\<close>

section \<open>Containers\<close>

text \<open>
  C11. The pointer macros of \<open>sys/queue.h\<close> implement lists: inserting at either end, removing any entry, and moving the
  first entry behind the others do on the linked cells what the list operations do, and leave every other queue as
  it was.
\<close>

theorem tailq_refines_list:
  assumes "tq_abs st Q"
  shows "((\<forall>k. e \<notin> set (Q k)) \<longrightarrow>
      tq_abs (TAILQ_INSERT_HEAD h e st) (Q(h := e # Q h)) \<and> tq_abs (TAILQ_INSERT_TAIL h e st) (Q(h := Q h @ [e]))) \<and>
    (e \<in> set (Q h) \<longrightarrow> (\<exists>st'. TAILQ_REMOVE h e st = Ok st' \<and> tq_abs st' (Q(h := remove1 e (Q h))))) \<and>
    (Q h = e # es \<longrightarrow> (\<exists>st'. TAILQ_REMOVE h e st = Ok st' \<and> tq_abs (TAILQ_INSERT_TAIL h e st') (Q(h := es @ [e]))))"
  using ptr.holds_insert_head [OF assms, of e h] ptr.holds_insert_tail [OF assms, of e h] ptr.holds_remove [OF assms, of e h]
    ptr.rotate_front [OF assms, of h e es] by blast

definition empty_store :: "(unit, nat) tq_store" where
  "empty_store =
     \<lparr>heads = (\<lambda>h. \<lparr>tq_first = None, tq_ptail = HeadFirst h\<rparr>), links = (\<lambda>_. \<lparr>tq_next = None, tq_pprev = None\<rparr>)\<rparr>"

theorem tailq_refines_list_witness:
  "tq_abs empty_store (\<lambda>_. []) \<and> tq_abs (TAILQ_INSERT_TAIL () 5 empty_store) ((\<lambda>_. [])(() := [5]))"
proof -
  have "tq_abs empty_store (\<lambda>_. [])"
    by (simp add: tq_abs_def tq_list_def empty_store_def)
  with tailq_refines_list [OF this, of 5 "()"] show ?thesis
    by simp
qed

text \<open>
  C10. The timer heap is a priority queue of timers with back pointers: adding a timer keeps the heap in order and adds
  exactly that timer; taking the root out removes a timer that expires first, and only that one.
\<close>

theorem timer_heap_is_queue:
  assumes "timer_ok b h"
  shows "(t \<notin> active h \<and> hn h < CONFIG_TIMER_MAX_NUM \<and> due b (expires (timers h t)) < 2 ^ 31 \<longrightarrow>
      (\<exists>h'. timer_add t h = Ok h' \<and> timer_ok b h' \<and> active h' = insert t (active h) \<and> same_times h h')) \<and>
    (active h \<noteq> {} \<longrightarrow>
      (\<exists>h'. timer_delete_locked (heap h 0) h = Ok h' \<and> timer_ok b h' \<and> active h' = active h - {heap h 0} \<and>
        (\<forall>e \<in> active h. due b (expires (timers h (heap h 0))) \<le> due b (expires (timers h e)))))"
proof (intro conjI impI)
  show "\<exists>h'. timer_add t h = Ok h' \<and> timer_ok b h' \<and> active h' = insert t (active h) \<and> same_times h h'"
    if "t \<notin> active h \<and> hn h < CONFIG_TIMER_MAX_NUM \<and> due b (expires (timers h t)) < 2 ^ 31"
    using timer_add_spec [OF assms, of t] that by blast
  show "\<exists>h'. timer_delete_locked (heap h 0) h = Ok h' \<and> timer_ok b h' \<and> active h' = active h - {heap h 0} \<and>
        (\<forall>e \<in> active h. due b (expires (timers h (heap h 0))) \<le> due b (expires (timers h e)))"
    if "active h \<noteq> {}"
    using tq.pop [OF assms that] tq.first_law [OF assms that] by blast
qed

definition no_timers :: timer_context where
  "no_timers = \<lparr>heap = (\<lambda>_. 0), hn = 0, timers = (\<lambda>t. \<lparr>expires = of_nat t, ti = TIMER_INVALID_INDEX, tm_thread = t\<rparr>)\<rparr>"

theorem timer_heap_is_queue_witness:
  "timer_ok 0 no_timers \<and> (\<exists>h'. timer_add 7 no_timers = Ok h' \<and> active h' = {7})"
proof -
  have "timer_ok 0 no_timers" "active no_timers = {}" "due 0 (expires (timers no_timers 7)) < 2 ^ 31" "hn no_timers < CONFIG_TIMER_MAX_NUM"
    by (simp_all add: timer_ok_def no_timers_def idx_ok_def window_def heap_ordered_def ordered_def active_def due_def
        CONFIG_TIMER_MAX_NUM_def)
  with timer_heap_is_queue [OF this(1), of 7] show ?thesis
    by auto
qed

text \<open>
  C37. The circular buffer is a bounded first-in first-out queue of bytes: a write accepts as many bytes as fit, a read
  returns the oldest ones, and what is read followed by what remains is what was there followed by what was accepted.
\<close>

theorem circular_buffer_fifo:
  assumes "cb_ok cb" and "circular_buffer_write cb xs = (n, cb1)" and "circular_buffer_read cb1 k = (ys, cb2)"
  shows "cb_ok cb1 \<and> cb_ok cb2 \<and> n = min (length xs) (circular_buffer_space cb) \<and>
    ys @ cb_bytes cb2 = cb_bytes cb @ take n xs \<and> length ys = min k (length (cb_bytes cb1))"
  using cbuf.put_law [OF assms(1,2)] cbuf.get_law [OF _ assms(3)] cbuf.put_get [OF assms]
  by (auto simp: circular_buffer_space_def)

theorem circular_buffer_fifo_witness:
  "\<exists>n cb1 ys cb2. circular_buffer_write (circular_buffer_init (\<lambda>_. 0) 4) [1, 2, 3, 4, 5] = (n, cb1) \<and>
    circular_buffer_read cb1 2 = (ys, cb2) \<and> ys @ cb_bytes cb2 = [1, 2, 3, 4]"
proof -
  define cb where "cb = circular_buffer_init (\<lambda>_. 0) 4"
  obtain n cb1 where w: "circular_buffer_write cb [1, 2, 3, 4, 5] = (n, cb1)"
    by fastforce
  obtain ys cb2 where r: "circular_buffer_read cb1 2 = (ys, cb2)"
    by fastforce
  have i: "cb_ok cb" "cb_bytes cb = []" "circular_buffer_space cb = 4"
    using cb_init_ok [of 4 "\<lambda>_. 0"] by (simp_all add: cb_def circular_buffer_space_def circular_buffer_init_def)
  from circular_buffer_fifo [OF i(1) w r] i w r show ?thesis
    unfolding cb_def [symmetric] by auto
qed

section \<open>Memory and strings\<close>

text \<open>
  C39. \<open>memcpy\<close> (blocks that do not overlap in the wrong direction) and \<open>memmove\<close> to a lower address copy the block:
  the destination holds the old source and nothing else changes.  \<open>memmove\<close> to a higher address is off by one: it writes the
  bytes \<open>1\<close> to \<open>n\<close> of the destination instead of \<open>0\<close> to \<open>n - 1\<close>, so the first byte is not copied and the byte after
  the destination is overwritten with the one after the source.
\<close>

theorem memory_copies:
  "(dest < src \<or> src + n \<le> dest \<longrightarrow>
      bytes (memcpy m dest src n) dest n = bytes m src n \<and>
      (\<forall>a. a < dest \<or> dest + n \<le> a \<longrightarrow> memcpy m dest src n a = m a) \<and>
      (dest < src \<longrightarrow> memmove m dest src n = memcpy m dest src n)) \<and>
    (src < dest \<longrightarrow> memmove m dest src n b = (if dest < b \<and> b \<le> dest + n then m (src + (b - dest)) else m b))"
  using memcpy_bytes [of dest src n m] memcpy_apply [of dest src n m] memmove_down_block [of src dest m n b]
  by (auto simp: memmove_def)

theorem memory_copies_witness:
  "bytes (memcpy (\<lambda>a. of_nat a) 10 12 5) 10 5 = [12, 13, 14, 15, 16] \<and> bytes (memmove (\<lambda>a. of_nat a) 12 10 3) 12 4 = [12, 11, 12, 13]"
proof -
  have "bytes (\<lambda>a. of_nat a) 12 5 = [12, 13, 14, 15, 16 :: u8]"
    by (simp add: bytes_def upt_rec)
  with memory_copies [of 10 12 5 "\<lambda>a. of_nat a"] memory_copies [of 12 10 3 "\<lambda>a. of_nat a"] show ?thesis
    by (simp add: bytes_def upt_rec)
qed

text \<open>
  C40. \<open>strlen\<close>, \<open>strcmp\<close> and \<open>memcmp\<close> end on terminated strings and compute the length and the lexicographic order of
  unsigned bytes; in particular \<open>strcmp\<close> answers 0 exactly on equal strings.
\<close>

theorem string_comparison:
  assumes "cstr m p xs" and "cstr m q ys"
  shows "strlen m p = Some (length xs) \<and> strcmp m p q = Some (lex_cmp xs ys) \<and> (strcmp m p q = Some 0 \<longleftrightarrow> xs = ys) \<and>
    memcmp m p q n = lex_cmp (bytes m p n) (bytes m q n)"
  using strlen_cstr [OF assms(1)] strcmp_lex [OF assms] by (simp add: lex_cmp_eq_0 memcmp_lex)

definition two_strings :: mem where
  "two_strings a = (if a = 0 \<or> a = 3 then 97 else if a = 1 then 98 else if a = 4 then 200 else 0)"

theorem string_comparison_witness:
  "strcmp two_strings 0 3 = Some (-1)"
proof -
  have "cstr two_strings 0 [97, 98]" "cstr two_strings 3 [97, 200]"
    by (simp_all add: two_strings_def)
  from string_comparison [OF this] show ?thesis
    by simp
qed

section \<open>Numbers\<close>




text \<open>
  C14. Printing and parsing are inverse: what \<open>%d\<close> prints for any \<open>int\<close> \<open>strtol\<close> reads back, and what \<open>%u\<close>, \<open>%x\<close> and
  \<open>%o\<close> print \<open>strtoul\<close> reads back in the same base; the twelve-byte buffer of \<open>__print_number\<close> always suffices.
\<close>

theorem print_parse_roundtrip:
  assumes "length buf0 = 12"
  shows "(\<exists>cs. print_number buf0 \<lparr>pad = 32, min_width = 0\<rparr> v 10 [] = Ok (map uint cs, length cs) \<and>
      (\<forall>m p. cstr m p cs \<longrightarrow> strtol m (Some p) True 10 = Some (v, Some (Some (p + length cs)), None))) \<and>
    (b = 8 \<or> b = 10 \<or> b = 16 \<longrightarrow>
      (\<exists>cs. print_unsigned buf0 \<lparr>pad = 32, min_width = 0\<rparr> v (of_nat b) [] = Ok (map uint cs, length cs) \<and>
        (\<forall>m p. cstr m p cs \<longrightarrow> strtoul m (Some p) True (int b) = Some (v, Some (Some (p + length cs)), None))))"
proof (intro conjI impI)
  show "\<exists>cs. print_number buf0 \<lparr>pad = 32, min_width = 0\<rparr> v 10 [] = Ok (map uint cs, length cs) \<and>
      (\<forall>m p. cstr m p cs \<longrightarrow> strtol m (Some p) True 10 = Some (v, Some (Some (p + length cs)), None))"
    using print_number_spec [OF assms, of "\<lparr>pad = 32, min_width = 0\<rparr>" v "[]"] strtol_printed [of _ _ v]
    by (intro exI [of _ "dec_chars (sint v)"]) (simp add: print_str_def Let_def)
  show "\<exists>cs. print_unsigned buf0 \<lparr>pad = 32, min_width = 0\<rparr> v (of_nat b) [] = Ok (map uint cs, length cs) \<and>
        (\<forall>m p. cstr m p cs \<longrightarrow> strtoul m (Some p) True (int b) = Some (v, Some (Some (p + length cs)), None))"
    if b: "b = 8 \<or> b = 10 \<or> b = 16"
    using print_unsigned_spec [OF assms b, of number_table "\<lparr>pad = 32, min_width = 0\<rparr>" v "[]"]
      strtoul_printed [of b _ _ v] b
    by (intro exI [of _ "uns_chars number_table b v"]) (auto simp: print_unsigned_def print_str_def Let_def)
qed

theorem print_parse_roundtrip_witness:
  "\<exists>cs :: u8 list. print_number (replicate 12 0) \<lparr>pad = 32, min_width = 0\<rparr> 0x80000000 10 [] = Ok (map uint cs, length cs)"
proof -
  have "length (replicate 12 (0 :: u8)) = 12"
    by simp
  from print_parse_roundtrip [OF this, of "0x80000000"] show ?thesis
    by blast
qed



section \<open>Calendar\<close>

text \<open>
  C12. \<open>gmtime_r\<close> and \<open>mktime\<close> are inverse on the times a 32-bit \<open>time_t\<close> holds from 1970 on: a time breaks down into a valid date of the right weekday that
  maps back to it, and a valid date is recovered from its time.
\<close>

theorem calendar_roundtrip:
  "(0 \<le> n \<and> n < 2 ^ 31 \<longrightarrow> tm_ok (gmtime_r n) \<and> mktime (gmtime_r n) = Ok n \<and> tm_wday (gmtime_r n) = (n div 86400 + 4) mod 7) \<and>
    (tm_ok t \<and> mktime t = Ok n \<and> n < 2 ^ 31 \<longrightarrow> 0 \<le> n \<and> gmtime_r n = t\<lparr>tm_wday := (n div 86400 + 4) mod 7\<rparr>)"
  using gmtime_ok [of n] mktime_gmtime [of t n] by auto

theorem calendar_roundtrip_witness:
  "mktime (gmtime_r 951782400) = Ok 951782400 \<and> tm_wday (gmtime_r 951782400) = 2"
  using calendar_roundtrip [of 951782400] by simp

section \<open>Console\<close>

definition blank_console :: text_buffer where
  "blank_console = text_buffer_clear \<lparr>tb_row = 7, tb_col = 7, tb_mem = (\<lambda>_. 0), tb_ports = []\<rparr>"

lemma blank_console_ok: "tb_ok blank_console" "tb_row blank_console = 0" "tb_col blank_console = 0"
  by (simp_all add: blank_console_def text_buffer_clear_def text_buffer_draw_cursor_def tb_ok_def Let_def)

text \<open>
  C38. The console.  It is safe for any output: whatever characters are written, \<open>putchar\<close> succeeds, the cursor stays inside
  the 25 rows of 80 columns, and no memory outside the screen is written.  A printable character is stored at the cursor and the
  cursor moves on; in the last cell of the screen the lines move up by one, the last becomes blank, and the cursor is at
  its start.  Bytes above 127 lose their attribute.
\<close>

theorem console_output:
  fixes ch :: u8
  assumes "tb_ok s"
  defines "at_end \<equiv> tb_row s = 24 \<and> tb_col s = 79"
    and "drawn_at \<equiv> (\<lambda>r c. if r = tb_row s \<and> c = tb_col s then (ch, if ch < 128 then 0x07 else 0xff) else screen s r c)"
  shows "(\<exists>s'. putchars cs s = Ok s' \<and> tb_ok s' \<and> off_screen_eq (tb_mem s) (tb_mem s')) \<and>
    (32 \<le> ch \<longrightarrow> (\<exists>s'. putchar (uint ch) s = Ok s' \<and>
      tb_row s' = (if at_end then 24 else if tb_col s = 79 then tb_row s + 1 else tb_row s) \<and>
      tb_col s' = (if tb_col s = 79 then 0 else tb_col s + 1) \<and>
      (\<forall>r c. 0 \<le> r \<and> r < 25 \<and> 0 \<le> c \<and> c < 80 \<longrightarrow>
        screen s' r c = (if at_end then if r = 24 then (0x20, 0x07) else drawn_at (r + 1) c else drawn_at r c))))"
  using putchars_ok [OF assms(1), of cs] putchar_printable [OF assms(1), of ch] unfolding at_end_def drawn_at_def attribute_def
  by blast

theorem console_output_witness:
  "(\<exists>s'. putchars [65, 10, 9, 8, 255] blank_console = Ok s' \<and> tb_ok s') \<and>
    (\<exists>s'. putchar 65 blank_console = Ok s' \<and> tb_col s' = 1 \<and> screen s' 0 0 = (65, 7))"
  using console_output [OF blank_console_ok(1), of "[65, 10, 9, 8, 255]" 65] blank_console_ok(2,3) by fastforce

end
