(* ===== verification/Thread.thy ===== *)
theory Thread
  imports Prelude
begin

text \<open>
  The data of \<open>kernel/pthread.c\<close>: the configuration (\<open>Config.mk\<close>), the enums and
  structs of \<open>errno.h\<close>, \<open>sched.h\<close>, \<open>pthread.h\<close> and \<open>sys/time.h\<close>, the
  thread attributes, and the record of the kernel's global variables.

  A thread is named by its slot: \<open>0..31\<close> for \<open>pthreads[]\<close>, \<open>pthread_idle\<close> for the idle
  thread.  A tail queue is the list of its entries (justified by the refinement in \<open>Tailq\<close>);
  \<open>th_link\<close> records whether \<open>link.pprev\<close> is not null, which is what
  \<open>TAILQ_ENTRY_EMPTY\<close> tests.  An entry of a wait queue (\<open>struct wait\<close>) lives on the stack of
  the waiting thread and is named by that thread.
\<close>

type_synonym tid = nat
type_synonym mid = nat
type_synonym cid = nat

definition CONFIG_PTHREAD_MAX_NUM :: nat where "CONFIG_PTHREAD_MAX_NUM = 32"
definition CONFIG_TIMESLICE :: u8 where "CONFIG_TIMESLICE = 10"
definition SCHED_RR_PRIORITY_MIN :: nat where "SCHED_RR_PRIORITY_MIN = 0"
definition SCHED_RR_PRIORITY_IDLE :: nat where "SCHED_RR_PRIORITY_IDLE = SCHED_RR_PRIORITY_MIN"
definition SCHED_RR_PRIORITY_DEFAULT :: nat where "SCHED_RR_PRIORITY_DEFAULT = 16"
definition SCHED_RR_PRIORITY_MAX :: nat where "SCHED_RR_PRIORITY_MAX = 31"

lemmas sched_consts [simp] =
  SCHED_RR_PRIORITY_MIN_def SCHED_RR_PRIORITY_IDLE_def SCHED_RR_PRIORITY_DEFAULT_def SCHED_RR_PRIORITY_MAX_def

definition pthread_idle :: tid where "pthread_idle = CONFIG_PTHREAD_MAX_NUM"

text \<open>The return codes; \<open>E_OK\<close> is the return value \<open>0\<close>.\<close>

datatype pthread_state =
  PTHREAD_STATE_NONE | PTHREAD_STATE_INIT | PTHREAD_STATE_RUNNING | PTHREAD_STATE_SLEEPING | PTHREAD_STATE_EXIT

record timeval =
  tv_sec :: int
  tv_usec :: int

definition PTHREAD_FLAG_DETACH :: u8 where "PTHREAD_FLAG_DETACH = 1"

definition PTHREAD_NAME_SIZE :: nat where "PTHREAD_NAME_SIZE = 16"

record pthread =
  th_state :: pthread_state
  th_retval :: u32
  th_stack_addr :: u32
  th_stack_size :: u32
  th_link :: bool
  effective_priority :: u8
  priority :: u8
  timeslice :: u8
  th_flags :: u8
  th_name :: string
  waiter :: "tid option"
  error_code :: errno
  stime :: timeval
  sleep_on :: "mid option"
  mutex_queue :: "mid list"

record pthread_mutex =
  lock :: int
  wq :: "tid list"
  mtype :: int
  owner :: "tid option"
  recursive_count :: int

definition PTHREAD_MUTEX_FAST_NP :: int where "PTHREAD_MUTEX_FAST_NP = 0"
definition PTHREAD_MUTEX_RECURSIVE_NP :: int where "PTHREAD_MUTEX_RECURSIVE_NP = 1"

record pthread_cond =
  cond_wq :: "tid list"

text \<open>\<open>TAILQ_REMOVE\<close> on the list of a queue.\<close>

definition tq_remove :: "'e \<Rightarrow> 'e list \<Rightarrow> 'e list result" where
  "tq_remove e xs = rguard (e \<in> set xs) Corrupt (Ok (remove1 e xs))"

lemma tq_remove_Ok [result_simps]: "tq_remove e xs = Ok ys \<longleftrightarrow> e \<in> set xs \<and> ys = remove1 e xs"
  by (auto simp: tq_remove_def result_simps)

section \<open>Thread attributes\<close>

record pthread_attr =
  attr_stack_addr :: u32
  attr_stack_size :: u32
  attr_priority :: u8
  attr_flags :: u8

definition pthread_attr_init :: pthread_attr where
  "pthread_attr_init =
     \<lparr>attr_stack_addr = 0, attr_stack_size = 0,
      attr_priority = of_nat SCHED_RR_PRIORITY_DEFAULT, attr_flags = 0\<rparr>"

definition pthread_attr_setstack :: "pthread_attr \<Rightarrow> u32 \<Rightarrow> u32 \<Rightarrow> pthread_attr" where
  "pthread_attr_setstack attr stackaddr stacksize =
     attr\<lparr>attr_stack_addr := stackaddr, attr_stack_size := stacksize\<rparr>"

definition pthread_attr_setschedparam :: "pthread_attr \<Rightarrow> int \<Rightarrow> pthread_attr result" where
  "pthread_attr_setschedparam attr sched_priority =
     rguard (sched_priority \<ge> int SCHED_RR_PRIORITY_MIN) AssertFail
       (rguard (sched_priority \<le> int SCHED_RR_PRIORITY_MAX) AssertFail
         (Ok (attr\<lparr>attr_priority := word_of_int sched_priority\<rparr>)))"

definition PTHREAD_CREATE_JOINABLE :: int where "PTHREAD_CREATE_JOINABLE = 0"
definition PTHREAD_CREATE_DETACHED :: int where "PTHREAD_CREATE_DETACHED = 1"

definition pthread_attr_setdetachstate :: "pthread_attr \<Rightarrow> int \<Rightarrow> pthread_attr \<times> errno" where
  "pthread_attr_setdetachstate attr st =
     (if st = PTHREAD_CREATE_JOINABLE then
        (attr\<lparr>attr_flags := attr_flags attr AND NOT PTHREAD_FLAG_DETACH\<rparr>, E_OK)
      else if st = PTHREAD_CREATE_DETACHED then
        (attr\<lparr>attr_flags := attr_flags attr OR PTHREAD_FLAG_DETACH\<rparr>, E_OK)
      else (attr, EINVAL))"

definition pthread_attr_destroy :: "pthread_attr \<Rightarrow> pthread_attr \<times> errno" where
  "pthread_attr_destroy attr = (attr, E_OK)"

text \<open>
  Attributes of mutexes; those of conditions are an empty structure.  \<open>pthread_mutexattr_gettype\<close> stores nothing when either pointer
  is null: its result is the new value of the variable \<open>kind\<close>.
\<close>

record pthread_mutexattr =
  mattr_type :: int

definition pthread_mutexattr_init :: pthread_mutexattr where
  "pthread_mutexattr_init = \<lparr>mattr_type = PTHREAD_MUTEX_FAST_NP\<rparr>"

definition pthread_mutexattr_destroy :: "pthread_mutexattr \<Rightarrow> pthread_mutexattr \<times> errno" where
  "pthread_mutexattr_destroy attr = (attr, E_OK)"

definition pthread_mutexattr_settype :: "pthread_mutexattr \<Rightarrow> int \<Rightarrow> pthread_mutexattr" where
  "pthread_mutexattr_settype attr kind = attr\<lparr>mattr_type := kind\<rparr>"

definition pthread_mutexattr_gettype :: "pthread_mutexattr option \<Rightarrow> int option \<Rightarrow> int option" where
  "pthread_mutexattr_gettype attr kind =
     (case (attr, kind) of (Some a, Some _) \<Rightarrow> Some (mattr_type a) | _ \<Rightarrow> kind)"

lemma mutexattr_roundtrip: "pthread_mutexattr_gettype (Some (pthread_mutexattr_settype attr k)) (Some x) = Some k"
  by (simp add: pthread_mutexattr_gettype_def pthread_mutexattr_settype_def)

definition pthread_equal :: "tid \<Rightarrow> tid \<Rightarrow> bool" where
  "pthread_equal t1 t2 = (t1 = t2)"

definition SCHED_RR :: int where "SCHED_RR = 0"

text \<open>\<open>sched_get_priority_min/max\<close> return the priority, or set \<open>errno\<close> and return \<open>-1\<close>.\<close>

definition sched_get_priority_min :: "int \<Rightarrow> int \<times> errno option" where
  "sched_get_priority_min policy =
     (if policy \<noteq> SCHED_RR then (-1, Some EINVAL) else (int SCHED_RR_PRIORITY_MIN, None))"

definition sched_get_priority_max :: "int \<Rightarrow> int \<times> errno option" where
  "sched_get_priority_max policy =
     (if policy \<noteq> SCHED_RR then (-1, Some EINVAL) else (int SCHED_RR_PRIORITY_MAX, None))"

section \<open>The kernel's global variables\<close>

record kernel =
  threads :: "tid \<Rightarrow> pthread"
  rq_level :: "nat \<Rightarrow> tid list"
  rq_bitmap :: u32
  pthread_current :: tid
  pthread_next :: "tid option"
  in_irq :: bool
  mutexes :: "mid \<Rightarrow> pthread_mutex"
  conds :: "cid \<Rightarrow> pthread_cond"

definition upd_th :: "tid \<Rightarrow> (pthread \<Rightarrow> pthread) \<Rightarrow> 'a kernel_scheme \<Rightarrow> 'a kernel_scheme" where
  "upd_th t f s = s\<lparr>threads := (threads s)(t := f (threads s t))\<rparr>"

definition upd_mx :: "mid \<Rightarrow> (pthread_mutex \<Rightarrow> pthread_mutex) \<Rightarrow> 'a kernel_scheme \<Rightarrow> 'a kernel_scheme" where
  "upd_mx m f s = s\<lparr>mutexes := (mutexes s)(m := f (mutexes s m))\<rparr>"

definition upd_cv :: "cid \<Rightarrow> (pthread_cond \<Rightarrow> pthread_cond) \<Rightarrow> 'a kernel_scheme \<Rightarrow> 'a kernel_scheme" where
  "upd_cv c f s = s\<lparr>conds := (conds s)(c := f (conds s c))\<rparr>"

lemma upd_th_simps [simp]:
  "threads (upd_th t f s) = (threads s)(t := f (threads s t))"
  "rq_level (upd_th t f s) = rq_level s" "rq_bitmap (upd_th t f s) = rq_bitmap s"
  "pthread_current (upd_th t f s) = pthread_current s" "pthread_next (upd_th t f s) = pthread_next s"
  "in_irq (upd_th t f s) = in_irq s" "mutexes (upd_th t f s) = mutexes s" "conds (upd_th t f s) = conds s"
  "kernel.more (upd_th t f s) = kernel.more s"
  by (simp_all add: upd_th_def)

lemma upd_mx_simps [simp]:
  "mutexes (upd_mx m f s) = (mutexes s)(m := f (mutexes s m))"
  "rq_level (upd_mx m f s) = rq_level s" "rq_bitmap (upd_mx m f s) = rq_bitmap s"
  "pthread_current (upd_mx m f s) = pthread_current s" "pthread_next (upd_mx m f s) = pthread_next s"
  "in_irq (upd_mx m f s) = in_irq s" "threads (upd_mx m f s) = threads s" "conds (upd_mx m f s) = conds s"
  "kernel.more (upd_mx m f s) = kernel.more s"
  by (simp_all add: upd_mx_def)

lemma upd_cv_simps [simp]:
  "conds (upd_cv c f s) = (conds s)(c := f (conds s c))"
  "rq_level (upd_cv c f s) = rq_level s" "rq_bitmap (upd_cv c f s) = rq_bitmap s"
  "pthread_current (upd_cv c f s) = pthread_current s" "pthread_next (upd_cv c f s) = pthread_next s"
  "in_irq (upd_cv c f s) = in_irq s" "threads (upd_cv c f s) = threads s" "mutexes (upd_cv c f s) = mutexes s"
  "kernel.more (upd_cv c f s) = kernel.more s"
  by (simp_all add: upd_cv_def)

end
