(* ===== verification/RunQueue.thy ===== *)
theory RunQueue
  imports Thread
begin

text \<open>
  The run queue of \<open>kernel/pthread.c\<close>: 32 priority levels and a bitmap in which bit
  \<open>31 - p\<close> is set exactly when level \<open>p\<close> is not empty, so that \<open>ffs\<close> finds the
  highest level.  The invariant \<open>rq_wf\<close> is kept by every operation; \<open>run_queue_peek\<close> returns
  the first thread of the highest non-empty level.  The interface the scheduler uses is the locale
  \<open>ready_queue\<close>.
\<close>

section \<open>Operations\<close>

text \<open>\<open>__builtin_ffs\<close>: one plus the position of the least significant bit set, 0 for 0.\<close>

definition ffs :: "u32 \<Rightarrow> nat" where
  "ffs w = (case find (bit w) [0..<32] of None \<Rightarrow> 0 | Some i \<Rightarrow> Suc i)"

definition run_queue_init :: "'a kernel_scheme \<Rightarrow> 'a kernel_scheme" where
  "run_queue_init s = s\<lparr>rq_level := (\<lambda>_. []), rq_bitmap := 0\<rparr>"

definition run_queue_enqueue :: "tid \<Rightarrow> bool \<Rightarrow> 'a kernel_scheme \<Rightarrow> 'a kernel_scheme result" where
  "run_queue_enqueue th at_head s =
     (let p = unat (effective_priority (threads s th)) in
      rguard (p \<le> SCHED_RR_PRIORITY_MAX) OutOfBounds
       (let s = (if rq_level s p = [] then s\<lparr>rq_bitmap := rq_bitmap s OR push_bit (SCHED_RR_PRIORITY_MAX - p) 1\<rparr> else s);
            s = upd_th th (timeslice_update (\<lambda>_. CONFIG_TIMESLICE)) s;
            s = s\<lparr>rq_level := (rq_level s)(p := if at_head then th # rq_level s p else rq_level s p @ [th])\<rparr>
        in Ok (upd_th th (th_link_update (\<lambda>_. True)) s)))"

definition run_queue_peek :: "'a kernel_scheme \<Rightarrow> tid result" where
  "run_queue_peek s =
     (let i = ffs (rq_bitmap s) in
      rguard (i \<noteq> 0) AssertFail
       (case rq_level s (SCHED_RR_PRIORITY_MAX - (i - 1)) of
          [] \<Rightarrow> Fault AssertFail
        | th # _ \<Rightarrow> Ok th))"

definition run_queue_dequeue :: "tid \<Rightarrow> 'a kernel_scheme \<Rightarrow> 'a kernel_scheme result" where
  "run_queue_dequeue th s =
     (if th_link (threads s th) then
        (let p = unat (effective_priority (threads s th)) in
         rguard (p \<le> SCHED_RR_PRIORITY_MAX) OutOfBounds
          (rbind (tq_remove th (rq_level s p)) (\<lambda>q.
            let s = s\<lparr>rq_level := (rq_level s)(p := q)\<rparr>;
                s = upd_th th (th_link_update (\<lambda>_. False)) s
            in Ok (if q = []
                   then s\<lparr>rq_bitmap := rq_bitmap s AND NOT (push_bit (SCHED_RR_PRIORITY_MAX - p) 1)\<rparr>
                   else s))))
      else Ok s)"

section \<open>Invariant and frame\<close>

abbreviation eprio :: "'a kernel_scheme \<Rightarrow> tid \<Rightarrow> nat" where
  "eprio s t \<equiv> unat (effective_priority (threads s t))"

abbreviation linked :: "'a kernel_scheme \<Rightarrow> tid \<Rightarrow> bool" where
  "linked s t \<equiv> th_link (threads s t)"

definition rq_wf :: "'a kernel_scheme \<Rightarrow> bool" where
  "rq_wf s \<longleftrightarrow>
     (\<forall>p\<le>31. bit (rq_bitmap s) (31 - p) \<longleftrightarrow> rq_level s p \<noteq> []) \<and>
     (\<forall>p>31. rq_level s p = []) \<and>
     (\<forall>p. distinct (rq_level s p)) \<and>
     (\<forall>p t. t \<in> set (rq_level s p) \<longleftrightarrow> linked s t \<and> eprio s t = p)"

text \<open>The scheduler changes only a thread's link and time slice, the queue, and the two thread pointers.\<close>

definition th_core :: "pthread \<Rightarrow> pthread" where
  "th_core th = th\<lparr>th_link := False, timeslice := 0\<rparr>"

definition sched_frame :: "'a kernel_scheme \<Rightarrow> 'a kernel_scheme \<Rightarrow> bool" where
  "sched_frame s s' \<longleftrightarrow>
     (\<forall>t. th_core (threads s' t) = th_core (threads s t)) \<and>
     mutexes s' = mutexes s \<and> conds s' = conds s \<and> in_irq s' = in_irq s \<and> kernel.more s' = kernel.more s"

named_theorems frame_simps \<open>what a scheduling operation leaves unchanged\<close>

lemma th_core_fields:
  assumes "th_core a = th_core b"
  shows "th_state a = th_state b" "effective_priority a = effective_priority b" "priority a = priority b"
    "th_flags a = th_flags b" "waiter a = waiter b" "sleep_on a = sleep_on b" "mutex_queue a = mutex_queue b"
    "th_retval a = th_retval b" "th_name a = th_name b" "stime a = stime b"
  using assms by (cases a; cases b; simp add: th_core_def)+

lemma sched_frameD [frame_simps]:
  assumes "sched_frame s s'"
  shows "th_state (threads s' t) = th_state (threads s t)"
    "effective_priority (threads s' t) = effective_priority (threads s t)"
    "priority (threads s' t) = priority (threads s t)"
    "th_flags (threads s' t) = th_flags (threads s t)"
    "waiter (threads s' t) = waiter (threads s t)"
    "sleep_on (threads s' t) = sleep_on (threads s t)"
    "mutex_queue (threads s' t) = mutex_queue (threads s t)"
    "th_retval (threads s' t) = th_retval (threads s t)"
    "th_name (threads s' t) = th_name (threads s t)"
    "stime (threads s' t) = stime (threads s t)"
    "mutexes s' = mutexes s" "conds s' = conds s" "in_irq s' = in_irq s" "kernel.more s' = kernel.more s"
  using assms th_core_fields [of "threads s' t" "threads s t"] by (auto simp: sched_frame_def)

lemma sched_frame_refl [simp]: "sched_frame s s"
  by (simp add: sched_frame_def)

lemma sched_frame_trans [trans]: "sched_frame s t \<Longrightarrow> sched_frame t u \<Longrightarrow> sched_frame s u"
  by (simp add: sched_frame_def)

section \<open>\<open>ffs\<close> finds the highest priority\<close>

lemma ffs_eq_0: "ffs w = 0 \<longleftrightarrow> w = 0"
proof -
  have "find (bit w) [0..<32] = None \<longleftrightarrow> w = 0"
    by (auto simp: find_None_iff bit_eq_iff dest: bit_imp_le_length intro: ccontr)
  then show ?thesis by (auto simp: ffs_def split: option.splits)
qed

lemma ffs_Suc:
  assumes "ffs w = Suc i"
  shows "i < 32" and "bit w i" and "\<And>j. j < i \<Longrightarrow> \<not> bit w j"
  using assms by (auto simp: ffs_def find_Some_iff split: option.splits)


section \<open>The operations keep the invariant\<close>

lemma enqueue_result:
  assumes "run_queue_enqueue th b s = Ok s'"
  shows "eprio s th \<le> 31"
    and "rq_level s' = (rq_level s)(eprio s th := if b then th # rq_level s (eprio s th) else rq_level s (eprio s th) @ [th])"
    and "threads s' = (threads s)(th := (threads s th)\<lparr>timeslice := CONFIG_TIMESLICE, th_link := True\<rparr>)"
    and "rq_bitmap s' = (if rq_level s (eprio s th) = [] then rq_bitmap s OR push_bit (31 - eprio s th) 1 else rq_bitmap s)"
    and "pthread_current s' = pthread_current s" and "pthread_next s' = pthread_next s"
    and "sched_frame s s'"
  using assms
  by (auto simp: run_queue_enqueue_def Let_def result_simps sched_frame_def th_core_def split: if_splits)

lemma enqueue_Ok: "eprio s th \<le> 31 \<Longrightarrow> \<exists>s'. run_queue_enqueue th b s = Ok s'"
  by (simp add: run_queue_enqueue_def Let_def)

lemma enqueue_wf:
  assumes "run_queue_enqueue th b s = Ok s'" and "rq_wf s" and "\<not> linked s th"
  shows "rq_wf s'"
proof -
  note r = enqueue_result [OF assms(1)]
  have out: "th \<notin> set (rq_level s q)" for q
    using assms(2,3) by (auto simp: rq_wf_def)
  have "bit (rq_bitmap s') (31 - q) \<longleftrightarrow> rq_level s' q \<noteq> []" if "q \<le> 31" for q
  proof (cases "q = eprio s th")
    case False
    with that r(1) have "31 - q \<noteq> 31 - eprio s th" by arith
    with False that assms(2) show ?thesis
      by (auto simp: r(2,4) rq_wf_def bit_or_iff bit_push_bit_iff bit_exp_iff)
  next
    case True
    with that assms(2) show ?thesis
      by (auto simp: r(2,4) rq_wf_def bit_or_iff bit_push_bit_iff bit_exp_iff)
  qed
  moreover have "distinct (rq_level s' q)" for q
    using assms(2) out by (auto simp: r(2) rq_wf_def)
  moreover have "t \<in> set (rq_level s' q) \<longleftrightarrow> linked s' t \<and> eprio s' t = q" for t q
    using assms(2) out by (auto simp: r(2,3) rq_wf_def)
  moreover have "rq_level s' q = []" if "q > 31" for q
    using that assms(2) r(1) by (auto simp: r(2) rq_wf_def)
  ultimately show ?thesis by (simp add: rq_wf_def)
qed

lemma dequeue_result:
  assumes "run_queue_dequeue th s = Ok s'"
  shows "linked s th \<Longrightarrow> rq_level s' = (rq_level s)(eprio s th := remove1 th (rq_level s (eprio s th)))"
    and "\<not> linked s th \<Longrightarrow> s' = s"
    and "linked s th \<Longrightarrow> eprio s th \<le> 31"
    and "threads s' = (threads s)(th := (threads s th)\<lparr>th_link := False\<rparr>)"
    and "linked s th \<Longrightarrow> rq_bitmap s' = (if rq_level s' (eprio s th) = []
           then rq_bitmap s AND NOT (push_bit (31 - eprio s th) 1) else rq_bitmap s)"
    and "pthread_current s' = pthread_current s" and "pthread_next s' = pthread_next s"
    and "sched_frame s s'"
  using assms
  by (auto simp: run_queue_dequeue_def Let_def result_simps sched_frame_def th_core_def fun_eq_iff split: if_splits)

lemma linked_level:
  assumes "rq_wf s" and "linked s t"
  shows "t \<in> set (rq_level s (eprio s t))" and "eprio s t \<le> 31"
proof -
  show mem: "t \<in> set (rq_level s (eprio s t))" using assms by (simp add: rq_wf_def)
  have "\<forall>p>31. rq_level s p = []" using assms(1) by (simp add: rq_wf_def)
  with mem show "eprio s t \<le> 31" by (metis empty_iff empty_set not_le)
qed

lemma dequeue_Ok: "rq_wf s \<Longrightarrow> \<exists>s'. run_queue_dequeue th s = Ok s'"
  using linked_level [of s th] by (auto simp: run_queue_dequeue_def Let_def tq_remove_def)

lemma dequeue_wf:
  assumes "run_queue_dequeue th s = Ok s'" and "rq_wf s"
  shows "rq_wf s'"
proof (cases "linked s th")
  case False
  with dequeue_result(2) [OF assms(1)] assms(2) show ?thesis by simp
next
  case True
  note r = dequeue_result [OF assms(1)] note q = r(1,5) [OF True]
  have D: "distinct (rq_level s p)" and M: "x \<in> set (rq_level s p) \<longleftrightarrow> linked s x \<and> eprio s x = p" for x p
    using assms(2) by (simp_all add: rq_wf_def)
  have lev: "set (rq_level s' p) = set (rq_level s p) - {th}" for p
    using D M by (auto simp: q(1))
  have "bit (rq_bitmap s') (31 - p) \<longleftrightarrow> rq_level s' p \<noteq> []" if "p \<le> 31" for p
  proof (cases "p = eprio s th")
    case False
    with that r(3) [OF True] have "31 - p \<noteq> 31 - eprio s th" by arith
    with False that assms(2) show ?thesis
      by (auto simp: q rq_wf_def bit_and_iff bit_not_iff bit_push_bit_iff bit_exp_iff)
  next
    case True
    with that assms(2) show ?thesis
      by (auto simp: q rq_wf_def bit_and_iff bit_not_iff bit_push_bit_iff bit_exp_iff)
  qed
  moreover have "distinct (rq_level s' p)" for p
    using D by (simp add: q(1))
  moreover have "t \<in> set (rq_level s' p) \<longleftrightarrow> linked s' t \<and> eprio s' t = p" for t p
    using M by (auto simp: lev r(4))
  moreover have "rq_level s' p = []" if "p > 31" for p
    using that assms(2) r(3) [OF True] by (auto simp: q(1) rq_wf_def)
  ultimately show ?thesis by (simp add: rq_wf_def)
qed

text \<open>The thread \<open>run_queue_peek\<close> returns is the first of the highest level that is not empty.\<close>

lemma peek_result:
  assumes "rq_wf s" and "linked s t"
  shows "\<exists>th. run_queue_peek s = Ok th \<and> linked s th \<and> (\<forall>x. linked s x \<longrightarrow> eprio s x \<le> eprio s th) \<and>
    (\<exists>rest. rq_level s (eprio s th) = th # rest)"
proof -
  note mem = linked_level(1) [OF assms(1)] and le = linked_level(2) [OF assms(1)]
  have bits: "bit (rq_bitmap s) (31 - eprio s x)" if "linked s x" for x
  proof -
    from mem [OF that] have "rq_level s (eprio s x) \<noteq> []" by force
    with le [OF that] assms(1) show ?thesis unfolding rq_wf_def by blast
  qed
  with assms(2) have "rq_bitmap s \<noteq> 0" by fastforce
  then obtain i where i: "ffs (rq_bitmap s) = Suc i"
    by (metis ffs_eq_0 not0_implies_Suc)
  note f = ffs_Suc [OF i]
  let ?p = "31 - i"
  from f(1) have "31 - ?p = i" by arith
  moreover have "bit (rq_bitmap s) (31 - ?p) \<longleftrightarrow> rq_level s ?p \<noteq> []"
    using assms(1) diff_le_self unfolding rq_wf_def by blast
  ultimately have "rq_level s ?p \<noteq> []"
    using f(2) by simp
  then obtain th rest where lv: "rq_level s ?p = th # rest"
    by (cases "rq_level s ?p") auto
  have "th \<in> set (rq_level s ?p) \<longleftrightarrow> linked s th \<and> eprio s th = ?p"
    using assms(1) unfolding rq_wf_def by blast
  with lv have th: "linked s th" "eprio s th = ?p"
    by simp_all
  have "eprio s x \<le> ?p" if "linked s x" for x
    using f(3) [of "31 - eprio s x"] bits [OF that] le [OF that] f(1) by force
  with th lv i show ?thesis
    by (intro exI [of _ th]) (simp add: run_queue_peek_def Let_def)
qed


section \<open>The interface of the scheduler\<close>

locale ready_queue =
  fixes wf :: "'s \<Rightarrow> bool"
    and ready :: "'s \<Rightarrow> 'e set"
    and prio :: "'s \<Rightarrow> 'e \<Rightarrow> nat"
    and bound :: nat
    and enqueue :: "'e \<Rightarrow> bool \<Rightarrow> 's \<Rightarrow> 's result"
    and dequeue :: "'e \<Rightarrow> 's \<Rightarrow> 's result"
    and peek :: "'s \<Rightarrow> 'e result"
  assumes enqueue_law: "\<lbrakk>wf s; e \<notin> ready s; prio s e \<le> bound\<rbrakk> \<Longrightarrow>
      \<exists>s'. enqueue e b s = Ok s' \<and> wf s' \<and> ready s' = insert e (ready s) \<and> prio s' = prio s"
    and dequeue_law: "\<lbrakk>wf s; prio s e \<le> bound\<rbrakk> \<Longrightarrow>
      \<exists>s'. dequeue e s = Ok s' \<and> wf s' \<and> ready s' = ready s - {e} \<and> prio s' = prio s"
    and peek_law: "\<lbrakk>wf s; x \<in> ready s\<rbrakk> \<Longrightarrow>
      \<exists>e. peek s = Ok e \<and> e \<in> ready s \<and> (\<forall>y\<in>ready s. prio s y \<le> prio s e)"
begin

text \<open>A ready thread that is taken out and put back leaves the same threads ready.\<close>

lemma requeue:
  assumes "wf s" and "e \<in> ready s" and "prio s e \<le> bound"
  shows "\<exists>s' s''. dequeue e s = Ok s' \<and> enqueue e b s' = Ok s'' \<and> wf s'' \<and> ready s'' = ready s \<and> prio s'' = prio s"
proof -
  from dequeue_law [OF assms(1,3)] obtain s' where s': "dequeue e s = Ok s'" "wf s'"
    "ready s' = ready s - {e}" "prio s' = prio s"
    by blast
  with assms(3) obtain s'' where "enqueue e b s' = Ok s''" "wf s''" "ready s'' = insert e (ready s')" "prio s'' = prio s'"
    using enqueue_law [of s' e b] by auto
  with s' assms(2) show ?thesis by (auto simp: insert_absorb)
qed

text \<open>A thread that becomes ready above all others is the one to run next.\<close>

lemma preempt:
  assumes "wf s" and "e \<notin> ready s" and "prio s e \<le> bound" and "\<And>x. x \<in> ready s \<Longrightarrow> prio s x < prio s e"
  shows "\<exists>s'. enqueue e b s = Ok s' \<and> peek s' = Ok e"
proof -
  from enqueue_law [OF assms(1-3), of b] obtain s' where s': "enqueue e b s = Ok s'" "wf s'"
    "ready s' = insert e (ready s)" "prio s' = prio s"
    by blast
  with peek_law [of s' e] obtain x where x: "peek s' = Ok x" "x \<in> insert e (ready s)" "prio s e \<le> prio s x"
    by auto
  with assms(4) have "x = e" by (metis insertE not_le)
  with s' x show ?thesis by blast
qed

text \<open>As long as another thread (the idle thread) is ready, a thread that blocks hands over to one that is ready.\<close>

lemma block_hands_over:
  assumes "wf s" and "i \<in> ready s" and "i \<noteq> e" and "prio s e \<le> bound"
  shows "\<exists>s' n. dequeue e s = Ok s' \<and> peek s' = Ok n \<and> n \<noteq> e \<and> n \<in> ready s \<and>
    (\<forall>y\<in>ready s - {e}. prio s y \<le> prio s n)"
proof -
  from dequeue_law [OF assms(1,4)] obtain s' where s': "dequeue e s = Ok s'" "wf s'"
    "ready s' = ready s - {e}" "prio s' = prio s"
    by blast
  with assms(2,3) peek_law [of s' i] show ?thesis by auto
qed

end

lemma fun_upd_eprio:
  "threads s' = (threads s)(th := (threads s th)\<lparr>timeslice := a, th_link := b\<rparr>) \<Longrightarrow> eprio s' x = eprio s x"
  "threads s' = (threads s)(th := (threads s th)\<lparr>th_link := b\<rparr>) \<Longrightarrow> eprio s' x = eprio s x"
  by simp_all

interpretation rq: ready_queue rq_wf "\<lambda>s. {t. linked s t}" eprio 31 run_queue_enqueue run_queue_dequeue run_queue_peek
proof unfold_locales
  fix s :: "'a kernel_scheme" and e b
  assume a: "rq_wf s" "e \<notin> {t. linked s t}" "eprio s e \<le> 31"
  then obtain s' where s': "run_queue_enqueue e b s = Ok s'"
    using enqueue_Ok by blast
  note r = enqueue_result [OF s']
  from a enqueue_wf [OF s'] have "rq_wf s'" by simp
  with s' ext [OF fun_upd_eprio(1) [OF r(3)]]
  show "\<exists>s'. run_queue_enqueue e b s = Ok s' \<and> rq_wf s' \<and>
      {t. linked s' t} = insert e {t. linked s t} \<and> eprio s' = eprio s"
    by (intro exI [of _ s']) (auto simp: r(3))
next
  fix s :: "'a kernel_scheme" and e
  assume a: "rq_wf s" "eprio s e \<le> 31"
  from dequeue_Ok [OF a(1)] obtain s' where s': "run_queue_dequeue e s = Ok s'"
    by blast
  note r = dequeue_result [OF s']
  from a dequeue_wf [OF s'] have "rq_wf s'" by simp
  with s' ext [OF fun_upd_eprio(2) [OF r(4)]]
  show "\<exists>s'. run_queue_dequeue e s = Ok s' \<and> rq_wf s' \<and>
      {t. linked s' t} = {t. linked s t} - {e} \<and> eprio s' = eprio s"
    by (intro exI [of _ s']) (auto simp: r(4))
next
  fix s :: "'a kernel_scheme" and x
  assume "rq_wf s" and "x \<in> {t. linked s t}"
  with peek_result [of s x]
  show "\<exists>e. run_queue_peek s = Ok e \<and> e \<in> {t. linked s t} \<and> (\<forall>y\<in>{t. linked s t}. eprio s y \<le> eprio s e)"
    by auto
qed

end
