(* ===== verification/Sched.thy ===== *)
theory Sched
  imports RunQueue
begin

text \<open>
  The scheduler of \<open>kernel/pthread.c\<close> and the exit path of \<open>isr.S\<close>: picking the next
  thread, switching to it, waking a thread up.  \<open>schedule_locked\<close> is \<open>__schedule\<close>,
  \<open>pthread_set_running\<close> is \<open>__pthread_set_running\<close>.  A context switch saves the stack pointer of
  the current thread and makes \<open>pthread_next\<close> current; what a thread does after a call of
  \<open>schedule\<close> that switched away is the continuation recorded in theory \<open>Kernel\<close>.
  \<open>interrupt_disable\<close> and \<open>interrupt_enable\<close> bracket every operation: each is one atomic step.
\<close>

section \<open>Operations\<close>

abbreviation thstate :: "'a kernel_scheme \<Rightarrow> tid \<Rightarrow> pthread_state" where
  "thstate s t \<equiv> th_state (threads s t)"

definition schedule_locked :: "'a kernel_scheme \<Rightarrow> 'a kernel_scheme result" where
  "schedule_locked s =
     (let cur = pthread_current s in
      rbind
        (if thstate s cur \<noteq> PTHREAD_STATE_RUNNING then run_queue_dequeue cur s
         else if timeslice (threads s cur) = 0 then
           rbind (run_queue_dequeue cur s) (run_queue_enqueue cur False)
         else Ok s)
        (\<lambda>s. rbind (run_queue_peek s) (\<lambda>th. Ok (s\<lparr>pthread_next := Some th\<rparr>))))"

definition arch_context_switch :: "'a kernel_scheme \<Rightarrow> 'a kernel_scheme result" where
  "arch_context_switch s =
     (case pthread_next s of None \<Rightarrow> Fault NullDeref | Some n \<Rightarrow> Ok (s\<lparr>pthread_current := n\<rparr>))"

definition schedule :: "'a kernel_scheme \<Rightarrow> 'a kernel_scheme result" where
  "schedule s =
     (if in_irq s then Ok (s\<lparr>pthread_next := None\<rparr>)
      else rbind (schedule_locked s)
        (\<lambda>s. if pthread_next s \<noteq> Some (pthread_current s) then arch_context_switch s else Ok s))"

text \<open>The end of \<open>isr_comm\<close>: reschedule when the handler asked for it by clearing \<open>pthread_next\<close>.\<close>

definition isr_exit :: "'a kernel_scheme \<Rightarrow> 'a kernel_scheme result" where
  "isr_exit s =
     rbind (if pthread_next s = None then schedule_locked s else Ok s)
       (\<lambda>s. if pthread_next s = Some (pthread_current s) then Ok s else arch_context_switch s)"

definition pthread_set_running :: "tid \<Rightarrow> 'a kernel_scheme \<Rightarrow> 'a kernel_scheme result" where
  "pthread_set_running th s =
     (let s = upd_th th (th_state_update (\<lambda>_. PTHREAD_STATE_RUNNING)) s in
      if \<not> th_link (threads s th) then run_queue_enqueue th False s else Ok s)"

definition wake_up :: "tid \<Rightarrow> 'a kernel_scheme \<Rightarrow> 'a kernel_scheme result" where
  "wake_up th s = rbind (pthread_set_running th s) schedule"

definition pthread_yield :: "'a kernel_scheme \<Rightarrow> 'a kernel_scheme result" where
  "pthread_yield s = schedule s"

section \<open>Invariants\<close>

text \<open>
  \<open>sched_wf\<close> holds throughout: the queue is well formed, priorities are in range and the idle
  thread is ready.  \<open>sched_pre\<close> is what holds when \<open>schedule\<close> is called: only the current thread
  may be on the queue without being runnable.  \<open>sched_inv\<close> holds whenever a thread runs ordinary
  code: exactly the runnable threads are queued.
\<close>

definition sched_wf :: "'a kernel_scheme \<Rightarrow> bool" where
  "sched_wf s \<longleftrightarrow> rq_wf s \<and> (\<forall>t. eprio s t \<le> 31) \<and> linked s pthread_idle \<and>
     thstate s pthread_idle = PTHREAD_STATE_RUNNING"

definition sched_pre :: "'a kernel_scheme \<Rightarrow> bool" where
  "sched_pre s \<longleftrightarrow> sched_wf s \<and>
     (\<forall>t. t \<noteq> pthread_current s \<longrightarrow> (linked s t \<longleftrightarrow> thstate s t = PTHREAD_STATE_RUNNING)) \<and>
     (thstate s (pthread_current s) = PTHREAD_STATE_RUNNING \<longrightarrow> linked s (pthread_current s))"

definition sched_inv :: "'a kernel_scheme \<Rightarrow> bool" where
  "sched_inv s \<longleftrightarrow> sched_wf s \<and> (\<forall>t. linked s t \<longleftrightarrow> thstate s t = PTHREAD_STATE_RUNNING)"

definition top_prio :: "'a kernel_scheme \<Rightarrow> tid \<Rightarrow> bool" where
  "top_prio s t \<longleftrightarrow> linked s t \<and> (\<forall>x. linked s x \<longrightarrow> eprio s x \<le> eprio s t)"

lemma sched_inv_pre: "sched_inv s \<Longrightarrow> sched_pre s"
  by (simp add: sched_inv_def sched_pre_def)

lemma sched_cong:
  assumes "rq_level s' = rq_level s" "rq_bitmap s' = rq_bitmap s" "pthread_current s' = pthread_current s"
    and "\<And>t. thstate s' t = thstate s t"
    and "\<And>t. effective_priority (threads s' t) = effective_priority (threads s t)"
    and "\<And>t. linked s' t = linked s t"
  shows "sched_inv s' = sched_inv s" and "sched_pre s' = sched_pre s"
  by (simp_all add: sched_inv_def sched_pre_def sched_wf_def rq_wf_def assms)

text \<open>\<open>__schedule\<close> succeeds, leaves exactly the runnable threads queued and picks one of the highest priority.\<close>

lemma schedule_locked_spec:
  assumes "sched_pre s"
  shows "\<exists>s' n. schedule_locked s = Ok s' \<and> sched_inv s' \<and> sched_frame s s' \<and>
    pthread_current s' = pthread_current s \<and> pthread_next s' = Some n \<and> top_prio s' n \<and>
    thstate s n = PTHREAD_STATE_RUNNING"
proof -
  let ?c = "pthread_current s"
  let ?r = "if thstate s ?c \<noteq> PTHREAD_STATE_RUNNING then run_queue_dequeue ?c s
         else if timeslice (threads s ?c) = 0 then rbind (run_queue_dequeue ?c s) (run_queue_enqueue ?c False)
         else Ok s"
  from assms have wf: "rq_wf s" and b: "\<And>t. eprio s t \<le> 31" and idle: "linked s pthread_idle"
    "thstate s pthread_idle = PTHREAD_STATE_RUNNING"
    and oth: "\<And>t. t \<noteq> ?c \<Longrightarrow> linked s t \<longleftrightarrow> thstate s t = PTHREAD_STATE_RUNNING"
    and cur: "thstate s ?c = PTHREAD_STATE_RUNNING \<Longrightarrow> linked s ?c"
    by (auto simp: sched_pre_def sched_wf_def)
  have all: "linked s t \<longleftrightarrow> thstate s t = PTHREAD_STATE_RUNNING" if "thstate s ?c = PTHREAD_STATE_RUNNING" for t
    using that oth cur by (cases "t = ?c") auto
  have "\<exists>s1. ?r = Ok s1 \<and> rq_wf s1 \<and> sched_frame s s1 \<and> pthread_current s1 = ?c \<and>
    (\<forall>t. linked s1 t \<longleftrightarrow> thstate s t = PTHREAD_STATE_RUNNING)"
  proof -
    obtain d where d: "run_queue_dequeue ?c s = Ok d" using dequeue_Ok [OF wf] by blast
    note dr = dequeue_result [OF d] and dw = dequeue_wf [OF d wf]
    have "eprio d ?c \<le> 31" using b by (simp add: dr(4))
    then obtain e where e: "run_queue_enqueue ?c False d = Ok e" using enqueue_Ok by blast
    note er = enqueue_result [OF e]
    have "rq_wf e" by (rule enqueue_wf [OF e dw]) (simp add: dr(4))
    moreover have "sched_frame s e" using sched_frame_trans [OF dr(8) er(7)] .
    ultimately show ?thesis
      using wf d e dr(4,6,8) er(3,5) dw oth all by auto
  qed
  then obtain s1 where s1: "?r = Ok s1" "rq_wf s1" "sched_frame s s1" "pthread_current s1 = ?c"
    and L: "\<And>t. linked s1 t \<longleftrightarrow> thstate s t = PTHREAD_STATE_RUNNING"
    by blast
  from peek_result [of s1 pthread_idle] s1(2) L idle(2) obtain n where n: "run_queue_peek s1 = Ok n" "linked s1 n"
    "\<And>x. linked s1 x \<Longrightarrow> eprio s1 x \<le> eprio s1 n"
    by auto
  let ?s' = "s1\<lparr>pthread_next := Some n\<rparr>"
  have "sched_frame s ?s'" using s1(3) by (simp add: sched_frame_def)
  moreover have "sched_inv ?s'"
    using s1(2) L b idle(2) sched_frameD [OF s1(3)] by (simp add: sched_inv_def sched_wf_def rq_wf_def)
  ultimately show ?thesis
    using s1 n L by (intro exI [of _ ?s'] exI [of _ n]) (simp add: schedule_locked_def Let_def top_prio_def)
qed

text \<open>
  Outside an interrupt \<open>schedule\<close> always succeeds and hands the processor to a runnable thread of
  the highest priority.
\<close>

definition sched_done :: "'a kernel_scheme \<Rightarrow> bool" where
  "sched_done s \<longleftrightarrow> sched_inv s \<and> pthread_next s = Some (pthread_current s) \<and> top_prio s (pthread_current s)"

lemma schedule_spec:
  assumes "sched_pre s" and "\<not> in_irq s"
  shows "\<exists>s'. schedule s = Ok s' \<and> sched_done s' \<and> sched_frame s s' \<and>
    thstate s (pthread_current s') = PTHREAD_STATE_RUNNING"
proof -
  from schedule_locked_spec [OF assms(1)] obtain s1 n where s1: "schedule_locked s = Ok s1" "sched_inv s1" "sched_frame s s1"
    "pthread_next s1 = Some n" "top_prio s1 n" "thstate s n = PTHREAD_STATE_RUNNING"
    by blast
  define s' where "s' = s1\<lparr>pthread_current := n\<rparr>"
  have "schedule s = Ok s'"
    using s1(1,4) assms(2) by (auto simp: schedule_def arch_context_switch_def s'_def)
  moreover have "sched_frame s s'" using s1(3) by (simp add: sched_frame_def s'_def)
  moreover have "sched_done s'"
    using s1 by (simp add: sched_done_def s'_def sched_inv_def sched_wf_def rq_wf_def top_prio_def)
  moreover have "pthread_current s' = n" by (simp add: s'_def)
  ultimately show ?thesis using s1(6) by auto
qed

section \<open>Waking a thread up\<close>

abbreviation set_state :: "tid \<Rightarrow> pthread_state \<Rightarrow> 'a kernel_scheme \<Rightarrow> 'a kernel_scheme" where
  "set_state t st s \<equiv> upd_th t (th_state_update (\<lambda>_. st)) s"

lemma set_running_spec:
  assumes "sched_pre s"
  shows "\<exists>s'. pthread_set_running th s = Ok s' \<and> sched_pre s' \<and>
    sched_frame (set_state th PTHREAD_STATE_RUNNING s) s' \<and>
    pthread_current s' = pthread_current s \<and> pthread_next s' = pthread_next s \<and> linked s' th \<and>
    (\<forall>t. linked s t \<longrightarrow> linked s' t)"
proof -
  let ?s = "set_state th PTHREAD_STATE_RUNNING s"
  from assms have wf: "rq_wf ?s" and b: "eprio ?s th \<le> 31"
    by (auto simp: sched_pre_def sched_wf_def rq_wf_def)
  show ?thesis
  proof (cases "linked s th")
    case True
    with assms have "sched_pre ?s"
      by (auto simp: sched_pre_def sched_wf_def rq_wf_def)
    with True show ?thesis by (intro exI [of _ ?s]) (simp add: pthread_set_running_def)
  next
    case False
    from enqueue_Ok [OF b] obtain s' where s': "run_queue_enqueue th False ?s = Ok s'" by blast
    note r = enqueue_result [OF s']
    from enqueue_wf [OF s' wf] False have "rq_wf s'" by simp
    with assms have "sched_pre s'"
      by (auto simp: sched_pre_def sched_wf_def r(3,5))
    with s' False r(3,5,6,7) show ?thesis
      by (intro exI [of _ s']) (simp add: pthread_set_running_def Let_def)
  qed
qed

lemma wake_up_spec:
  assumes "sched_pre s" and "\<not> in_irq s"
  shows "\<exists>s'. wake_up th s = Ok s' \<and> sched_done s' \<and>
    sched_frame (set_state th PTHREAD_STATE_RUNNING s) s'"
proof -
  from set_running_spec [OF assms(1), of th] obtain s1 where s1: "pthread_set_running th s = Ok s1" "sched_pre s1"
    "sched_frame (set_state th PTHREAD_STATE_RUNNING s) s1"
    by blast
  from sched_frameD(13) [OF s1(3)] assms(2) have "\<not> in_irq s1" by simp
  from schedule_spec [OF s1(2) this] obtain s' where "schedule s1 = Ok s'" "sched_done s'" "sched_frame s1 s'"
    by blast
  with s1 sched_frame_trans [OF s1(3)] show ?thesis by (auto simp: wake_up_def)
qed

text \<open>
  Inside an interrupt handler \<open>wake_up\<close> only queues the thread and clears \<open>pthread_next\<close>; the
  exit path of the interrupt then reschedules.
\<close>

lemma wake_up_irq:
  assumes "sched_pre s" and "in_irq s"
  shows "\<exists>s'. wake_up th s = Ok s' \<and> sched_pre s' \<and> pthread_next s' = None \<and>
    pthread_current s' = pthread_current s \<and> sched_frame (set_state th PTHREAD_STATE_RUNNING s) s'"
proof -
  from set_running_spec [OF assms(1), of th] obtain s1 where s1: "pthread_set_running th s = Ok s1" "sched_pre s1"
    "sched_frame (set_state th PTHREAD_STATE_RUNNING s) s1" "pthread_current s1 = pthread_current s"
    by blast
  from sched_frameD(13) [OF s1(3)] assms(2) have "in_irq s1" by simp
  with s1 show ?thesis
    by (intro exI [of _ "s1\<lparr>pthread_next := None\<rparr>"])
      (auto simp: wake_up_def schedule_def sched_pre_def sched_wf_def rq_wf_def sched_frame_def)
qed

text \<open>The interrupt exit path: no request leaves the current thread running; a request reschedules.\<close>

lemma isr_exit_spec:
  assumes "sched_pre s" and "pthread_next s \<noteq> None \<Longrightarrow> sched_done s"
  shows "\<exists>s'. isr_exit s = Ok s' \<and> sched_done s' \<and> sched_frame s s'"
proof (cases "pthread_next s")
  case (Some n)
  with assms(2) show ?thesis by (auto simp: isr_exit_def sched_done_def)
next
  case None
  from schedule_locked_spec [OF assms(1)] obtain s1 n where s1: "schedule_locked s = Ok s1" "sched_inv s1" "sched_frame s s1"
    "pthread_next s1 = Some n" "top_prio s1 n"
    by blast
  define s' where "s' = s1\<lparr>pthread_current := n\<rparr>"
  have "isr_exit s = Ok s'"
    using s1(1,4) None by (auto simp: isr_exit_def arch_context_switch_def s'_def)
  moreover have "sched_frame s s'" using s1(3) by (simp add: sched_frame_def s'_def)
  moreover have "sched_done s'"
    using s1 by (simp add: sched_done_def s'_def sched_inv_def sched_wf_def rq_wf_def top_prio_def)
  ultimately show ?thesis by blast
qed

text \<open>
  Round robin: a runnable thread whose time slice is used up goes behind the other threads of its level,
  with a new time slice, and the next thread of the level runs.
\<close>

lemma schedule_rotates:
  assumes "sched_inv s" and "pthread_current s = c" and "top_prio s c" and "timeslice (threads s c) = 0"
    and "rq_level s (eprio s c) = c # t # ts" and "\<not> in_irq s"
  shows "\<exists>s'. schedule s = Ok s' \<and> pthread_current s' = t \<and>
    rq_level s' (eprio s c) = t # ts @ [c] \<and> timeslice (threads s' c) = CONFIG_TIMESLICE"
proof -
  let ?p = "eprio s c"
  from assms have wf: "rq_wf s" and run: "thstate s c = PTHREAD_STATE_RUNNING" and b: "?p \<le> 31"
    and lc: "linked s c"
    by (auto simp: sched_inv_def sched_wf_def top_prio_def)
  from dequeue_Ok [OF wf] obtain d where d: "run_queue_dequeue c s = Ok d" by blast
  note dr = dequeue_result [OF d] note dl = dr(1) [OF lc]
  have epd: "eprio d x = eprio s x" for x using fun_upd_eprio(2) [OF dr(4)] .
  with b have "eprio d c \<le> 31" by simp
  from enqueue_Ok [OF this] obtain e where e: "run_queue_enqueue c False d = Ok e" by blast
  note er = enqueue_result [OF e]
  have epe: "eprio e x = eprio s x" for x using fun_upd_eprio(1) [OF er(3)] by (simp add: epd)
  have lev: "rq_level e ?p = t # ts @ [c]"
    using assms(5) by (simp add: er(2) epd dl)
  have wfe: "rq_wf e" by (rule enqueue_wf [OF e dequeue_wf [OF d wf]]) (simp add: dr(4))
  have le: "linked e x \<longleftrightarrow> linked s x" for x
    using lc by (simp add: er(3) dr(4))
  from peek_result [OF wfe, of c] le lc obtain n rest where n: "run_queue_peek e = Ok n" "linked s n"
    "eprio s c \<le> eprio s n" "rq_level e (eprio s n) = n # rest"
    by (auto simp: epe)
  with assms(3) have "eprio s n = ?p" by (auto simp: top_prio_def intro: le_antisym)
  with n(4) lev have nt: "n = t" by simp
  have "distinct (rq_level s ?p)" using wf by (simp add: rq_wf_def)
  with assms(5) have ct: "t \<noteq> c" by auto
  have "schedule_locked s = Ok (e\<lparr>pthread_next := Some t\<rparr>)"
    using run assms(2,4) d e n(1) nt by (simp add: schedule_locked_def)
  with ct er(5) dr(6) assms(2,6) lev show ?thesis
    by (simp add: schedule_def arch_context_switch_def er(3))
qed

end
