(* ===== verification/PrioInherit.thy ===== *)
theory PrioInherit
  imports Sched
begin

text \<open>
  Priority inheritance in \<open>kernel/pthread.c\<close>: \<open>pthread_setschedprio_locked\<close> is
  \<open>__pthread_setschedprio\<close> and \<open>pthread_spread\<close> is \<open>__pthread_spread\<close>.  The two call
  each other: a thread's effective priority is the maximum of its own priority and those of the threads
  waiting for the mutexes it owns, and a change is passed on along the chain of blocked owners.

  The source loops over that chain without a bound, so the model takes fuel.  The lemmas show that a
  finite chain of length \<open>k\<close> needs at most \<open>2 * k + 1\<close> units, that more fuel never changes a result, that
  on an endless chain (a deadlock) no amount of fuel is enough, and that a chain which ends at a mutex without an owner makes it
  follow a null pointer.
\<close>

section \<open>Operations\<close>

definition inherited :: "'a kernel_scheme \<Rightarrow> tid \<Rightarrow> u8" where
  "inherited s th =
     fold (\<lambda>m prio.
         fold (\<lambda>w prio. if effective_priority (threads s w) > prio then effective_priority (threads s w) else prio)
           (wq (mutexes s m)) prio)
       (mutex_queue (threads s th)) (priority (threads s th))"

fun pthread_spread :: "nat \<Rightarrow> tid \<Rightarrow> 'a kernel_scheme \<Rightarrow> 'a kernel_scheme result"
and pthread_setschedprio_locked :: "nat \<Rightarrow> tid \<Rightarrow> 'a kernel_scheme \<Rightarrow> 'a kernel_scheme result" where
  "pthread_spread 0 th s = Fault Diverge"
| "pthread_spread (Suc n) th s =
     (case sleep_on (threads s th) of
        None \<Rightarrow> Ok s
      | Some m \<Rightarrow>
         (case owner (mutexes s m) of
            None \<Rightarrow> Fault NullDeref
          | Some th' \<Rightarrow> rbind (pthread_setschedprio_locked n th' s) (pthread_spread n th')))"
| "pthread_setschedprio_locked 0 th s = Fault Diverge"
| "pthread_setschedprio_locked (Suc n) th s =
     (let prio = inherited s th in
      if effective_priority (threads s th) \<noteq> prio then
        (if th_link (threads s th) then
           rbind (run_queue_dequeue th s)
             (\<lambda>s. run_queue_enqueue th True (upd_th th (effective_priority_update (\<lambda>_. prio)) s))
         else pthread_spread n th (upd_th th (effective_priority_update (\<lambda>_. prio)) s))
      else Ok s)"

text \<open>At most 33 threads exist, so no finite chain is longer.\<close>

definition SPREAD_FUEL :: nat where
  "SPREAD_FUEL = 2 * (CONFIG_PTHREAD_MAX_NUM + 1) + 2"

definition pthread_setschedprio :: "tid \<Rightarrow> int \<Rightarrow> 'a kernel_scheme \<Rightarrow> 'a kernel_scheme result" where
  "pthread_setschedprio th prio s =
     (if uint (priority (threads s th)) \<noteq> prio then
        (let s = upd_th th (priority_update (\<lambda>_. word_of_int prio)) s in
         if uint (effective_priority (threads s th)) \<noteq> prio then
           rbind (pthread_setschedprio_locked SPREAD_FUEL th s) schedule
         else Ok s)
      else Ok s)"

section \<open>Frame\<close>

definition th_base :: "pthread \<Rightarrow> pthread" where
  "th_base th = th\<lparr>th_link := False, timeslice := 0, effective_priority := 0\<rparr>"

definition prio_frame :: "'a kernel_scheme \<Rightarrow> 'a kernel_scheme \<Rightarrow> bool" where
  "prio_frame s s' \<longleftrightarrow>
     (\<forall>t. th_base (threads s' t) = th_base (threads s t)) \<and>
     mutexes s' = mutexes s \<and> conds s' = conds s \<and> in_irq s' = in_irq s \<and> kernel.more s' = kernel.more s \<and>
     pthread_current s' = pthread_current s \<and> pthread_next s' = pthread_next s"

lemma th_base_fields:
  assumes "th_base a = th_base b"
  shows "th_state a = th_state b" "priority a = priority b" "th_flags a = th_flags b" "waiter a = waiter b"
    "sleep_on a = sleep_on b" "mutex_queue a = mutex_queue b"
    "th_retval a = th_retval b" "th_name a = th_name b" "stime a = stime b"
  using assms by (cases a; cases b; simp add: th_base_def)+

lemma prio_frameD [frame_simps]:
  assumes "prio_frame s s'"
  shows "th_state (threads s' t) = th_state (threads s t)"
    "priority (threads s' t) = priority (threads s t)"
    "th_flags (threads s' t) = th_flags (threads s t)"
    "waiter (threads s' t) = waiter (threads s t)"
    "sleep_on (threads s' t) = sleep_on (threads s t)"
    "mutex_queue (threads s' t) = mutex_queue (threads s t)"
    "th_retval (threads s' t) = th_retval (threads s t)"
    "th_name (threads s' t) = th_name (threads s t)"
    "stime (threads s' t) = stime (threads s t)"
    "mutexes s' = mutexes s" "conds s' = conds s" "in_irq s' = in_irq s" "kernel.more s' = kernel.more s"
    "pthread_current s' = pthread_current s" "pthread_next s' = pthread_next s"
  using assms th_base_fields [of "threads s' t" "threads s t"] by (auto simp: prio_frame_def)

lemma prio_frame_refl [simp]: "prio_frame s s"
  by (simp add: prio_frame_def)

lemma prio_frame_trans [trans]: "prio_frame s t \<Longrightarrow> prio_frame t u \<Longrightarrow> prio_frame s u"
  by (simp add: prio_frame_def)

section \<open>The inherited priority is a maximum\<close>

text \<open>The threads waiting for a mutex on the owner list of \<open>th\<close>.\<close>

definition waiters_of :: "'a kernel_scheme \<Rightarrow> tid \<Rightarrow> tid set" where
  "waiters_of s th = (\<Union>m\<in>set (mutex_queue (threads s th)). set (wq (mutexes s m)))"

lemma fold_max_word:
  fixes f :: "'b \<Rightarrow> 'a::len word"
  shows "fold (\<lambda>w p. if f w > p then f w else p) ws p = fold max (map f ws) p"
  by (induction ws arbitrary: p) (auto simp: max_def)

lemma fold_max_ge:
  fixes p :: "'a::linorder"
  shows "p \<le> fold max xs p" and "x \<in> set xs \<Longrightarrow> x \<le> fold max xs p"
    and "fold max xs p \<in> insert p (set xs)"
proof -
  have "p \<le> fold max xs p \<and> (\<forall>x\<in>set xs. x \<le> fold max xs p) \<and> fold max xs p \<in> insert p (set xs)"
  proof (induction xs arbitrary: p)
    case (Cons a xs)
    from Cons [of "max a p"] show ?case by (auto simp: max_def split: if_splits)
  qed simp
  then show "p \<le> fold max xs p" and "x \<in> set xs \<Longrightarrow> x \<le> fold max xs p" and "fold max xs p \<in> insert p (set xs)"
    by blast+
qed

lemma inherited_eq:
  "inherited s th = fold max (map (\<lambda>w. effective_priority (threads s w))
     (concat (map (\<lambda>m. wq (mutexes s m)) (mutex_queue (threads s th))))) (priority (threads s th))"
proof -
  have "fold (\<lambda>m. fold max (map f (g m))) ms p = fold max (map f (concat (map g ms))) p"
    for f :: "tid \<Rightarrow> u8" and g :: "mid \<Rightarrow> tid list" and ms p
    by (induction ms arbitrary: p) auto
  then show ?thesis by (simp add: inherited_def fold_max_word)
qed

lemma inherited_ge_own: "priority (threads s th) \<le> inherited s th"
  by (simp add: inherited_eq fold_max_ge(1))

lemma inherited_ge_waiter: "w \<in> waiters_of s th \<Longrightarrow> effective_priority (threads s w) \<le> inherited s th"
  unfolding inherited_eq by (rule fold_max_ge(2)) (auto simp: waiters_of_def)

lemma inherited_attained:
  "inherited s th = priority (threads s th) \<or>
   (\<exists>w\<in>waiters_of s th. inherited s th = effective_priority (threads s w))"
  using fold_max_ge(3) [of "map (\<lambda>w. effective_priority (threads s w))
      (concat (map (\<lambda>m. wq (mutexes s m)) (mutex_queue (threads s th))))" "priority (threads s th)"]
  by (auto simp: inherited_eq waiters_of_def)

lemma inherited_cong:
  assumes "priority (threads s' th) = priority (threads s th)"
    and "mutex_queue (threads s' th) = mutex_queue (threads s th)" and "mutexes s' = mutexes s"
    and "\<And>w. w \<in> waiters_of s th \<Longrightarrow> effective_priority (threads s' w) = effective_priority (threads s w)"
  shows "inherited s' th = inherited s th"
proof -
  have "map (\<lambda>w. effective_priority (threads s' w)) (concat (map (\<lambda>m. wq (mutexes s m)) (mutex_queue (threads s th)))) =
        map (\<lambda>w. effective_priority (threads s w)) (concat (map (\<lambda>m. wq (mutexes s m)) (mutex_queue (threads s th))))"
    using assms(4) by (auto simp: waiters_of_def)
  with assms(1-3) show ?thesis by (simp only: inherited_eq)
qed


section \<open>What the two operations keep\<close>

definition prio_wf :: "'a kernel_scheme \<Rightarrow> bool" where
  "prio_wf s \<longleftrightarrow> rq_wf s \<and> (\<forall>t. eprio s t \<le> 31) \<and> (\<forall>t. unat (priority (threads s t)) \<le> 31)"

definition prio_step :: "'a kernel_scheme \<Rightarrow> 'a kernel_scheme \<Rightarrow> bool" where
  "prio_step s s' \<longleftrightarrow> prio_wf s' \<and> prio_frame s s' \<and> (\<forall>t. linked s' t = linked s t)"

lemma prio_step_refl: "prio_wf s \<Longrightarrow> prio_step s s"
  by (simp add: prio_step_def)

lemma prio_step_trans: "prio_step s t \<Longrightarrow> prio_step t u \<Longrightarrow> prio_step s u"
  unfolding prio_step_def using prio_frame_trans by fastforce

lemma inherited_le: "prio_wf s \<Longrightarrow> unat (inherited s th) \<le> 31"
  using inherited_attained [of s th] by (auto simp: prio_wf_def)

text \<open>Setting the effective priority of a queued thread moves it to the head of its new level.\<close>

lemma requeue_spec:
  assumes "prio_wf s" and "linked s th" and "unat p \<le> 31"
  shows "\<exists>s'. rbind (run_queue_dequeue th s)
      (\<lambda>s. run_queue_enqueue th True (upd_th th (effective_priority_update (\<lambda>_. p)) s)) = Ok s' \<and>
    prio_step s s' \<and>
    (\<forall>t. effective_priority (threads s' t) = (if t = th then p else effective_priority (threads s t)))"
proof -
  from assms(1) have wf: "rq_wf s" by (simp add: prio_wf_def)
  then obtain d where d: "run_queue_dequeue th s = Ok d" using dequeue_Ok by blast
  note dr = dequeue_result [OF d]
  let ?d = "upd_th th (effective_priority_update (\<lambda>_. p)) d"
  from dequeue_wf [OF d wf] have wfd: "rq_wf ?d"
    by (auto simp: rq_wf_def dr(4))
  have "eprio ?d th \<le> 31" using assms(3) by simp
  from enqueue_Ok [OF this] obtain s' where e: "run_queue_enqueue th True ?d = Ok s'" by blast
  note er = enqueue_result [OF e]
  have "rq_wf s'" by (rule enqueue_wf [OF e wfd]) (simp add: dr(4))
  moreover have "prio_frame s s'"
    using sched_frameD(11-14) [OF er(7)] sched_frameD(11-14) [OF dr(8)] er(5,6) dr(6,7)
    by (simp add: prio_frame_def er(3) dr(4) th_base_def)
  ultimately have "prio_step s s'"
    using assms by (simp add: prio_step_def prio_wf_def er(3) dr(4))
  with d e show ?thesis by (simp add: er(3) dr(4))
qed

lemma set_eprio_unlinked:
  assumes "prio_wf s" and "\<not> linked s th" and "unat p \<le> 31"
  shows "prio_step s (upd_th th (effective_priority_update (\<lambda>_. p)) s)"
  using assms by (auto simp: prio_step_def prio_wf_def rq_wf_def prio_frame_def th_base_def)

lemma spread_step_both:
  "(\<forall>th (s :: 'a kernel_scheme) s'. prio_wf s \<longrightarrow> pthread_spread n th s = Ok s' \<longrightarrow> prio_step s s') \<and>
   (\<forall>th (s :: 'a kernel_scheme) s'. prio_wf s \<longrightarrow> pthread_setschedprio_locked n th s = Ok s' \<longrightarrow> prio_step s s')"
proof (induction n)
  case (Suc n)
  have "prio_step s s'" if "prio_wf s" "pthread_spread (Suc n) th s = Ok s'" for th and s s' :: "'a kernel_scheme"
  proof (cases "sleep_on (threads s th)")
    case None
    with that show ?thesis by (auto intro: prio_step_refl)
  next
    case (Some m)
    with that(2) obtain x s1 where "pthread_setschedprio_locked n x s = Ok s1" "pthread_spread n x s1 = Ok s'"
      by (auto simp: result_simps split: option.splits)
    with Suc that(1) have "prio_step s s1" "prio_step s1 s'"
      unfolding prio_step_def by blast+
    then show ?thesis by (rule prio_step_trans)
  qed
  moreover have "prio_step s s'" if "prio_wf s" "pthread_setschedprio_locked (Suc n) th s = Ok s'" for th and s s' :: "'a kernel_scheme"
  proof (cases "effective_priority (threads s th) = inherited s th")
    case True
    with that show ?thesis by (auto intro: prio_step_refl)
  next
    case False
    note le = inherited_le [OF that(1), of th]
    show ?thesis
    proof (cases "linked s th")
      case True
      with requeue_spec [OF that(1) True le] that(2) False show ?thesis by (auto simp: Let_def)
    next
      case unl: False
      let ?s = "upd_th th (effective_priority_update (\<lambda>_. inherited s th)) s"
      from set_eprio_unlinked [OF that(1) unl le] have st: "prio_step s ?s" .
      then have "prio_wf ?s" by (simp add: prio_step_def)
      with that(2) False unl Suc have "prio_step ?s s'" by (auto simp: Let_def)
      with st show ?thesis by (rule prio_step_trans)
    qed
  qed
  ultimately show ?case by blast
qed simp

lemma spread_step: "prio_wf s \<Longrightarrow> pthread_spread n th s = Ok s' \<Longrightarrow> prio_step s s'"
  using spread_step_both by blast

lemma setschedprio_step: "prio_wf s \<Longrightarrow> pthread_setschedprio_locked n th s = Ok s' \<Longrightarrow> prio_step s s'"
  using spread_step_both by blast

section \<open>Chains of owners\<close>

text \<open>\<open>blocker s t\<close>: the owner of the mutex on which \<open>t\<close> sleeps.\<close>

definition blocker :: "'a kernel_scheme \<Rightarrow> tid \<Rightarrow> tid option" where
  "blocker s t = Option.bind (sleep_on (threads s t)) (\<lambda>m. owner (mutexes s m))"

text \<open>\<open>chain s t os\<close>: the threads \<open>os\<close> block \<open>t\<close> one after the other, the last of them does not sleep on a mutex.\<close>

fun chain :: "'a kernel_scheme \<Rightarrow> tid \<Rightarrow> tid list \<Rightarrow> bool" where
  "chain s t [] = (sleep_on (threads s t) = None)"
| "chain s t (x # xs) = (blocker s t = Some x \<and> chain s x xs)"

lemma blocker_frame: "prio_frame s s' \<Longrightarrow> blocker s' t = blocker s t"
  by (simp add: blocker_def frame_simps)

lemma chain_frame: "prio_frame s s' \<Longrightarrow> chain s' t xs = chain s t xs"
  by (induction xs arbitrary: t) (simp_all add: blocker_frame frame_simps)

lemma spread_terminates_both:
  "(\<forall>th (s :: 'a kernel_scheme) xs. prio_wf s \<longrightarrow> chain s th xs \<longrightarrow> 2 * length xs + 1 \<le> n \<longrightarrow> is_Ok (pthread_spread n th s)) \<and>
   (\<forall>th (s :: 'a kernel_scheme) xs. prio_wf s \<longrightarrow> chain s th xs \<longrightarrow> 2 * length xs + 2 \<le> n \<longrightarrow> is_Ok (pthread_setschedprio_locked n th s))"
proof (induction n)
  case (Suc n)
  have "is_Ok (pthread_spread (Suc n) th s)"
    if a: "prio_wf s" "chain s th xs" "2 * length xs + 1 \<le> Suc n" for th xs and s :: "'a kernel_scheme"
  proof (cases xs)
    case Nil
    with a show ?thesis by simp
  next
    case (Cons x ys)
    with a obtain m where m: "sleep_on (threads s th) = Some m" "owner (mutexes s m) = Some x"
      and c: "chain s x ys" and n: "2 * length ys + 2 \<le> n"
      by (auto simp: blocker_def bind_eq_Some_conv)
    from Suc a(1) c n obtain s1 where s1: "pthread_setschedprio_locked n x s = Ok s1"
      unfolding is_Ok_iff by blast
    from setschedprio_step [OF a(1) s1] have "prio_wf s1" "prio_frame s s1" by (auto simp: prio_step_def)
    moreover from this(2) c have "chain s1 x ys" by (simp add: chain_frame)
    moreover have "2 * length ys + 1 \<le> n" using n by simp
    ultimately have "is_Ok (pthread_spread n x s1)" using Suc by blast
    with m s1 show ?thesis by simp
  qed
  moreover have "is_Ok (pthread_setschedprio_locked (Suc n) th s)"
    if a: "prio_wf s" "chain s th xs" "2 * length xs + 2 \<le> Suc n" for th xs and s :: "'a kernel_scheme"
  proof -
    note le = inherited_le [OF a(1), of th]
    show ?thesis
    proof (cases "linked s th")
      case True
      with requeue_spec [OF a(1) True le] show ?thesis by (auto simp: Let_def is_Ok_iff)
    next
      case unl: False
      let ?s = "upd_th th (effective_priority_update (\<lambda>_. inherited s th)) s"
      from set_eprio_unlinked [OF a(1) unl le] have "prio_wf ?s" "prio_frame s ?s"
        by (auto simp: prio_step_def)
      moreover from this(2) a(2) have "chain ?s th xs" by (simp add: chain_frame)
      moreover have "2 * length xs + 1 \<le> n" using a(3) by simp
      ultimately have "is_Ok (pthread_spread n th ?s)" using Suc by blast
      with unl show ?thesis by (simp add: Let_def)
    qed
  qed
  ultimately show ?case by blast
qed simp

lemma spread_terminates:
  "\<lbrakk>prio_wf s; chain s th xs; 2 * length xs + 1 \<le> n\<rbrakk> \<Longrightarrow> \<exists>s'. pthread_spread n th s = Ok s'"
  using spread_terminates_both [of n] unfolding is_Ok_iff by blast

lemma setschedprio_terminates:
  "\<lbrakk>prio_wf s; chain s th xs; 2 * length xs + 2 \<le> n\<rbrakk> \<Longrightarrow> \<exists>s'. pthread_setschedprio_locked n th s = Ok s'"
  using spread_terminates_both [of n] unfolding is_Ok_iff by blast

text \<open>A chain is determined by its first thread and has no repetition, so it is no longer than the number of threads.\<close>

lemma chain_unique: "chain s t xs \<Longrightarrow> chain s t ys \<Longrightarrow> xs = ys"
proof (induction xs arbitrary: t ys)
  case Nil
  then show ?case by (cases ys) (auto simp: blocker_def)
next
  case (Cons x xs)
  then show ?case by (cases ys) (auto simp: blocker_def)
qed

lemma chain_suffix: "chain s t (as @ x # bs) \<Longrightarrow> chain s x bs"
  by (induction as arbitrary: t) auto

lemma chain_distinct: "chain s t xs \<Longrightarrow> distinct (t # xs)"
proof (induction xs arbitrary: t)
  case (Cons x xs)
  have "t \<notin> set (x # xs)"
  proof
    assume "t \<in> set (x # xs)"
    then obtain as bs where "x # xs = as @ t # bs" by (meson split_list)
    with Cons.prems chain_suffix [of s t as t bs] chain_unique [of s t "x # xs" bs] show False by simp
  qed
  with Cons show ?case by auto
qed simp

lemma chain_no_self: "chain s t xs \<Longrightarrow> blocker s t \<noteq> Some t"
  using chain_distinct [of s t xs] by (cases xs) (auto simp: blocker_def)

lemma chain_fuel:
  assumes "chain s t xs" and "set xs \<subseteq> {..pthread_idle}"
  shows "2 * length xs + 2 \<le> SPREAD_FUEL"
proof -
  from chain_distinct [OF assms(1)] have "length xs = card (set xs)" by (simp add: distinct_card)
  also have "\<dots> \<le> card {..pthread_idle}" by (rule card_mono) (use assms(2) in simp_all)
  finally show ?thesis by (simp add: SPREAD_FUEL_def pthread_idle_def)
qed

text \<open>More fuel does not change a result.\<close>

lemma spread_mono_both:
  "(\<forall>th (s :: 'a kernel_scheme) s'. pthread_spread n th s = Ok s' \<longrightarrow> pthread_spread (Suc n) th s = Ok s') \<and>
   (\<forall>th (s :: 'a kernel_scheme) s'. pthread_setschedprio_locked n th s = Ok s' \<longrightarrow>
      pthread_setschedprio_locked (Suc n) th s = Ok s')"
proof (induction n)
  case (Suc n)
  note IH = Suc
  have "pthread_spread (Suc (Suc n)) th s = Ok s'" if "pthread_spread (Suc n) th s = Ok s'" for th and s s' :: "'a kernel_scheme"
  proof (cases "sleep_on (threads s th)")
    case (Some m)
    with that obtain x s1 where m: "owner (mutexes s m) = Some x"
      and a: "pthread_setschedprio_locked n x s = Ok s1" and b: "pthread_spread n x s1 = Ok s'"
      by (auto simp: result_simps split: option.splits)
    from IH a b have "pthread_setschedprio_locked (Suc n) x s = Ok s1" "pthread_spread (Suc n) x s1 = Ok s'"
      by blast+
    then have "rbind (pthread_setschedprio_locked (Suc n) x s) (pthread_spread (Suc n) x) = Ok s'"
      by (simp del: pthread_spread.simps pthread_setschedprio_locked.simps)
    with Some m show ?thesis by (subst pthread_spread.simps(2)) simp
  qed (use that in simp)
  moreover have "pthread_setschedprio_locked (Suc (Suc n)) th s = Ok s'"
    if "pthread_setschedprio_locked (Suc n) th s = Ok s'" for th and s s' :: "'a kernel_scheme"
    using that IH by (subst pthread_setschedprio_locked.simps(2))
      (auto simp: Let_def simp del: pthread_spread.simps(2) split: if_splits)
  ultimately show ?case by blast
qed simp

text \<open>A deadlock: the chain of blocked owners never ends, and neither does the loop.\<close>

definition endless :: "'a kernel_scheme \<Rightarrow> tid \<Rightarrow> bool" where
  "endless s t \<longleftrightarrow> (\<exists>f. f (0::nat) = t \<and> (\<forall>i. blocker s (f i) = Some (f (Suc i))))"

lemma endless_next:
  assumes "endless s t"
  obtains x where "blocker s t = Some x" and "endless s x"
proof -
  from assms obtain f where f: "f 0 = t" "\<And>i. blocker s (f i) = Some (f (Suc i))"
    by (auto simp: endless_def)
  have "endless s (f 1)"
    unfolding endless_def by (rule exI [of _ "\<lambda>i. f (Suc i)"]) (simp add: f(2))
  with f that [of "f 1"] show thesis by (metis One_nat_def)
qed

lemma endless_frame: "prio_frame s s' \<Longrightarrow> endless s' t = endless s t"
  by (simp add: endless_def blocker_frame)

section \<open>How the propagation ends\<close>

text \<open>
  The threads that block a thread one after the other end at one that does not sleep (\<open>chain\<close>), end at one that sleeps on a
  mutex between two owners (\<open>broken\<close>), or never end (\<open>endless\<close>).
\<close>

fun broken :: "'a kernel_scheme \<Rightarrow> tid \<Rightarrow> tid list \<Rightarrow> bool" where
  "broken s t [] = (case sleep_on (threads s t) of None \<Rightarrow> False | Some m \<Rightarrow> owner (mutexes s m) = None)"
| "broken s t (x # xs) = (blocker s t = Some x \<and> broken s x xs)"

lemma broken_frame: "prio_frame s s' \<Longrightarrow> broken s' t xs = broken s t xs"
  by (induction xs arbitrary: t) (simp_all add: blocker_frame frame_simps split: option.splits)

lemma chain_cases:
  obtains (chain) xs where "chain s t xs" | (broken) xs where "broken s t xs" | (endless) "endless s t"
proof (cases "(\<exists>xs. chain s t xs) \<or> (\<exists>xs. broken s t xs)")
  case False
  let ?R = "\<lambda>x. (\<exists>xs. chain s x xs) \<or> (\<exists>xs. broken s x xs)"
  let ?f = "\<lambda>i. ((\<lambda>x. the (blocker s x)) ^^ i) t"
  have next_ok: "blocker s x = Some (the (blocker s x)) \<and> \<not> ?R (the (blocker s x))" if "\<not> ?R x" for x
  proof (cases "blocker s x")
    case None
    then have "chain s x [] \<or> broken s x []" by (auto simp: blocker_def bind_eq_None_conv split: option.splits)
    with that show ?thesis by blast
  next
    case (Some y)
    then have "chain s y xs \<Longrightarrow> chain s x (y # xs)" "broken s y xs \<Longrightarrow> broken s x (y # xs)" for xs by simp_all
    with that Some show ?thesis by (metis option.sel)
  qed
  have "\<not> ?R (?f i)" for i using False next_ok by (induction i) auto
  then have "blocker s (?f i) = Some (?f (Suc i))" for i using next_ok by simp
  then have "endless s t" unfolding endless_def by (intro exI [of _ ?f]) simp
  then show thesis by (rule endless)
qed (use chain broken in blast)

text \<open>A broken chain has no repetition either: forget that its last thread sleeps.\<close>

lemma broken_distinct:
  assumes "broken s t xs"
  shows "distinct (t # xs)"
proof -
  let ?s = "s\<lparr>threads := \<lambda>t. if blocker s t = None then (threads s t)\<lparr>sleep_on := None\<rparr> else threads s t\<rparr>"
  have b: "blocker ?s x = blocker s x" for x by (auto simp: blocker_def)
  have "chain ?s t xs"
    using assms by (induction xs arbitrary: t) (auto simp: b, auto simp: blocker_def split: option.splits)
  then show ?thesis by (rule chain_distinct)
qed

text \<open>\<open>__pthread_setschedprio\<close> on its own returns, or goes on along the chain.\<close>

lemma setprio_locked_cases:
  assumes "prio_wf s"
  shows "is_Ok (pthread_setschedprio_locked (Suc n) th s) \<or>
    (\<exists>z. prio_wf z \<and> prio_frame s z \<and> pthread_setschedprio_locked (Suc n) th s = pthread_spread n th z)"
proof (cases "linked s th")
  case True
  with requeue_spec [OF assms True inherited_le [OF assms, of th]] show ?thesis by (auto simp: Let_def is_Ok_iff)
next
  case False
  from set_eprio_unlinked [OF assms False inherited_le [OF assms, of th]] False show ?thesis
    by (auto simp: prio_step_def Let_def intro!: exI [of _ "upd_th th (effective_priority_update (\<lambda>_. inherited s th)) s"])
qed

lemma broken_faults_both:
  "(\<forall>th (s :: 'a kernel_scheme) xs. prio_wf s \<longrightarrow> broken s th xs \<longrightarrow> 2 * length xs + 1 \<le> n \<longrightarrow>
      pthread_spread n th s = Fault NullDeref) \<and>
   (\<forall>th (s :: 'a kernel_scheme) xs. prio_wf s \<longrightarrow> broken s th xs \<longrightarrow> 2 * length xs + 2 \<le> n \<longrightarrow>
      is_Ok (pthread_setschedprio_locked n th s) \<or> pthread_setschedprio_locked n th s = Fault NullDeref)"
proof (induction n)
  case (Suc n)
  have "pthread_spread (Suc n) th s = Fault NullDeref"
    if a: "prio_wf s" "broken s th xs" "2 * length xs + 1 \<le> Suc n" for th xs and s :: "'a kernel_scheme"
  proof (cases xs)
    case Nil
    with a show ?thesis by (simp split: option.splits)
  next
    case (Cons x ys)
    with a obtain m where m: "sleep_on (threads s th) = Some m" "owner (mutexes s m) = Some x"
      and c: "broken s x ys" and n: "2 * length ys + 2 \<le> n"
      by (auto simp: blocker_def bind_eq_Some_conv)
    have "pthread_spread n x s1 = Fault NullDeref" if s1: "pthread_setschedprio_locked n x s = Ok s1" for s1
      using setschedprio_step [OF a(1) s1] Suc c n by (auto simp: prio_step_def broken_frame)
    moreover from Suc a(1) c n have "is_Ok (pthread_setschedprio_locked n x s) \<or> pthread_setschedprio_locked n x s = Fault NullDeref"
      by blast
    ultimately show ?thesis using m by (auto simp: is_Ok_iff)
  qed
  moreover have "is_Ok (pthread_setschedprio_locked (Suc n) th s) \<or> pthread_setschedprio_locked (Suc n) th s = Fault NullDeref"
    if a: "prio_wf s" "broken s th xs" "2 * length xs + 2 \<le> Suc n" for th xs and s :: "'a kernel_scheme"
    using setprio_locked_cases [OF a(1), of n th] a Suc by (auto simp: broken_frame)
  ultimately show ?case by blast
qed simp

lemma endless_faults_both:
  "(\<forall>th (s :: 'a kernel_scheme). prio_wf s \<longrightarrow> endless s th \<longrightarrow> pthread_spread n th s = Fault Diverge) \<and>
   (\<forall>th (s :: 'a kernel_scheme). prio_wf s \<longrightarrow> endless s th \<longrightarrow>
      is_Ok (pthread_setschedprio_locked n th s) \<or> pthread_setschedprio_locked n th s = Fault Diverge)"
proof (induction n)
  case (Suc n)
  have "pthread_spread (Suc n) th s = Fault Diverge" if a: "prio_wf s" "endless s th" for th and s :: "'a kernel_scheme"
  proof -
    from a(2) obtain x where x: "blocker s th = Some x" "endless s x" by (rule endless_next)
    then obtain m where m: "sleep_on (threads s th) = Some m" "owner (mutexes s m) = Some x"
      by (auto simp: blocker_def bind_eq_Some_conv)
    have "pthread_spread n x s1 = Fault Diverge" if s1: "pthread_setschedprio_locked n x s = Ok s1" for s1
      using setschedprio_step [OF a(1) s1] Suc x(2) by (auto simp: prio_step_def endless_frame)
    moreover from Suc a(1) x(2) have "is_Ok (pthread_setschedprio_locked n x s) \<or> pthread_setschedprio_locked n x s = Fault Diverge"
      by blast
    ultimately show ?thesis using m by (auto simp: is_Ok_iff)
  qed
  moreover have "is_Ok (pthread_setschedprio_locked (Suc n) th s) \<or> pthread_setschedprio_locked (Suc n) th s = Fault Diverge"
    if a: "prio_wf s" "endless s th" for th and s :: "'a kernel_scheme"
    using setprio_locked_cases [OF a(1), of n th] a Suc by (auto simp: endless_frame)
  ultimately show ?case by blast
qed simp

text \<open>How the propagation ends is decided by the chain it follows.\<close>

definition decided :: "tid \<Rightarrow> 'a kernel_scheme \<Rightarrow> 'b result \<Rightarrow> bool" where
  "decided t z r \<longleftrightarrow>
     (\<exists>xs. chain z t xs) \<and> is_Ok r \<or> (\<exists>xs. broken z t xs) \<and> r = Fault NullDeref \<or> endless z t \<and> r = Fault Diverge"

definition owners_ok :: "'a kernel_scheme \<Rightarrow> bool" where
  "owners_ok s \<longleftrightarrow> (\<forall>m x. owner (mutexes s m) = Some x \<longrightarrow> x \<le> pthread_idle)"

lemma chain_owners:
  "owners_ok s \<Longrightarrow> chain s t xs \<Longrightarrow> set xs \<subseteq> {..pthread_idle}" "owners_ok s \<Longrightarrow> broken s t xs \<Longrightarrow> set xs \<subseteq> {..pthread_idle}"
  by (induction xs arbitrary: t) (auto simp: blocker_def bind_eq_Some_conv owners_ok_def)

lemma spread_decided:
  assumes "prio_wf s" and "owners_ok s" and "SPREAD_FUEL \<le> Suc n"
  shows "decided t s (pthread_spread n t s)"
proof (rule chain_cases [of s t])
  fix xs assume c: "chain s t xs"
  have "2 * length xs + 1 \<le> n" using chain_fuel [OF c chain_owners(1) [OF assms(2) c]] assms(3) by simp
  from spread_terminates [OF assms(1) c this] c show ?thesis by (auto simp: decided_def)
next
  fix xs assume b: "broken s t xs"
  have "length xs = card (set xs)" using broken_distinct [OF b] by (simp add: distinct_card)
  also have "\<dots> \<le> card {..pthread_idle}" by (rule card_mono) (use chain_owners(2) [OF assms(2) b] in simp_all)
  finally have "2 * length xs + 1 \<le> n" using assms(3) by (simp add: SPREAD_FUEL_def pthread_idle_def)
  with broken_faults_both [of n] assms(1) b show ?thesis by (auto simp: decided_def)
next
  assume "endless s t"
  with endless_faults_both [of n] assms(1) show ?thesis by (auto simp: decided_def)
qed

lemma decided_bind: "decided t z r \<Longrightarrow> (\<And>x. r = Ok x \<Longrightarrow> is_Ok (f x)) \<Longrightarrow> decided t z (rbind r f)"
  by (auto simp: decided_def is_Ok_iff)

lemma decided_cong:
  assumes "\<And>x. sleep_on (threads z' x) = sleep_on (threads z x)" and "mutexes z' = mutexes z"
  shows "decided t z' r = decided t z r"
proof -
  have b: "blocker z' x = blocker z x" for x by (simp add: blocker_def assms)
  have "chain z' x xs = chain z x xs" "broken z' x xs = broken z x xs" for x xs
    by (induction xs arbitrary: x) (simp_all add: b assms split: option.splits)
  then show ?thesis by (simp add: decided_def endless_def b)
qed

text \<open>The three cases exclude each other.\<close>

lemma ends_next: "chain s t xs \<or> broken s t xs \<Longrightarrow> blocker s t = Some x \<Longrightarrow> \<exists>ys. (chain s x ys \<or> broken s x ys) \<and> length ys < length xs"
  by (cases xs) (auto simp: blocker_def split: option.splits)

lemma endless_not_ends: "endless s t \<Longrightarrow> \<not> chain s t xs \<and> \<not> broken s t xs"
proof (induction "length xs" arbitrary: t xs rule: less_induct)
  case less
  from less.prems obtain x where x: "blocker s t = Some x" "endless s x" by (rule endless_next)
  show ?case using ends_next [of s t xs x] x less.hyps [OF _ x(2)] by blast
qed

lemma broken_ends: "broken s t xs \<Longrightarrow> \<not> chain s t ys \<and> \<not> endless s t"
proof (induction xs arbitrary: t ys)
  case Nil
  then show ?case using endless_not_ends [of s t "[]"] by (cases ys) (auto simp: blocker_def split: option.splits)
next
  case (Cons x xs)
  then have "\<not> chain s t ys" by (cases ys) (auto simp: blocker_def bind_eq_Some_conv)
  with Cons.prems endless_not_ends [of s t "x # xs"] show ?case by blast
qed

section \<open>Priority inheritance is established\<close>

definition pi_ok :: "'a kernel_scheme \<Rightarrow> tid \<Rightarrow> bool" where
  "pi_ok s t \<longleftrightarrow> effective_priority (threads s t) = inherited s t"

text \<open>The two ways to read who waits for whom agree.\<close>

definition mx_links :: "'a kernel_scheme \<Rightarrow> bool" where
  "mx_links s \<longleftrightarrow>
     (\<forall>m. \<forall>t\<in>set (wq (mutexes s m)). sleep_on (threads s t) = Some m) \<and>
     (\<forall>t. \<forall>m\<in>set (mutex_queue (threads s t)). owner (mutexes s m) = Some t)"

lemma mx_links_frame: "prio_frame s s' \<Longrightarrow> mx_links s' = mx_links s"
  by (simp add: mx_links_def frame_simps)

lemma waiters_blocked: "mx_links s \<Longrightarrow> w \<in> waiters_of s t \<Longrightarrow> blocker s w = Some t"
  by (auto simp: mx_links_def waiters_of_def blocker_def)

text \<open>A change of one thread's effective priority affects only the inherited priority of its blocker.\<close>

lemma inherited_other:
  assumes "mx_links s" and "prio_frame s s'" and "blocker s x \<noteq> Some y"
    and "\<And>t. t \<noteq> x \<Longrightarrow> effective_priority (threads s' t) = effective_priority (threads s t)"
  shows "inherited s' y = inherited s y"
proof (rule inherited_cong)
  fix w assume "w \<in> waiters_of s y"
  with waiters_blocked [OF assms(1)] assms(3,4) show "effective_priority (threads s' w) = effective_priority (threads s w)"
    by metis
qed (use assms(2) in \<open>simp_all add: frame_simps\<close>)

lemma pi_ok_after_change:
  assumes "mx_links s" and "chain s th xs" and "prio_frame s s'" and "\<And>x. x \<noteq> th \<Longrightarrow> pi_ok s x"
    and "\<And>t. effective_priority (threads s' t) = (if t = th then inherited s th else effective_priority (threads s t))"
    and "blocker s th \<noteq> Some y"
  shows "pi_ok s' y"
proof -
  have "inherited s' y = inherited s y"
    by (rule inherited_other [OF assms(1,3,6)]) (simp add: assms(5))
  with assms(4) [of y] show ?thesis
    using assms(5) by (cases "y = th") (auto simp: pi_ok_def)
qed

lemma spread_pi_both:
  "(\<forall>th (s :: 'a kernel_scheme) s' xs. prio_wf s \<longrightarrow> mx_links s \<longrightarrow> chain s th xs \<longrightarrow>
      (\<forall>x. blocker s th \<noteq> Some x \<longrightarrow> pi_ok s x) \<longrightarrow> pthread_spread n th s = Ok s' \<longrightarrow> (\<forall>x. pi_ok s' x)) \<and>
   (\<forall>th (s :: 'a kernel_scheme) s' xs. prio_wf s \<longrightarrow> mx_links s \<longrightarrow> chain s th xs \<longrightarrow>
      (\<forall>x. x \<noteq> th \<longrightarrow> pi_ok s x) \<longrightarrow> pthread_setschedprio_locked n th s = Ok s' \<longrightarrow>
      (\<forall>x. blocker s th \<noteq> Some x \<longrightarrow> pi_ok s' x))"
proof (induction n)
  case (Suc n)
  have "pi_ok s' x"
    if a: "prio_wf s" "mx_links s" "chain s th xs" "\<And>x. blocker s th \<noteq> Some x \<Longrightarrow> pi_ok s x"
      "pthread_spread (Suc n) th s = Ok s'" for th xs x and s s' :: "'a kernel_scheme"
  proof (cases "sleep_on (threads s th)")
    case None
    with a(4,5) show ?thesis by (simp add: blocker_def)
  next
    case (Some m)
    with a(5) obtain y s1 where y: "blocker s th = Some y"
      and s1: "pthread_setschedprio_locked n y s = Ok s1" and s': "pthread_spread n y s1 = Ok s'"
      by (auto simp: result_simps blocker_def split: option.splits)
    from y a(3) Some obtain ys where ys: "chain s y ys" by (cases xs) auto
    from setschedprio_step [OF a(1) s1] have f: "prio_wf s1" "prio_frame s s1" by (auto simp: prio_step_def)
    from a(4) y have "\<And>x. x \<noteq> y \<Longrightarrow> pi_ok s x" by simp
    with Suc a(1,2) ys s1 have "\<And>x. blocker s y \<noteq> Some x \<Longrightarrow> pi_ok s1 x" by blast
    with f ys a(2) have "\<And>x. blocker s1 y \<noteq> Some x \<Longrightarrow> pi_ok s1 x" "mx_links s1" "chain s1 y ys"
      by (simp_all add: blocker_frame mx_links_frame chain_frame)
    with Suc f(1) s' show ?thesis by blast
  qed
  moreover have "pi_ok s' x"
    if a: "prio_wf s" "mx_links s" "chain s th xs" "\<And>x. x \<noteq> th \<Longrightarrow> pi_ok s x" "blocker s th \<noteq> Some x"
      "pthread_setschedprio_locked (Suc n) th s = Ok s'" for th xs x and s s' :: "'a kernel_scheme"
  proof (cases "effective_priority (threads s th) = inherited s th")
    case True
    with a(4,6) show ?thesis by (cases "x = th") (auto simp: pi_ok_def)
  next
    case False
    note le = inherited_le [OF a(1), of th]
    show ?thesis
    proof (cases "linked s th")
      case True
      with requeue_spec [OF a(1) True le] a(6) False have "prio_step s s'"
        "\<And>t. effective_priority (threads s' t) = (if t = th then inherited s th else effective_priority (threads s t))"
        by (auto simp: Let_def)
      with pi_ok_after_change [OF a(2,3) _ a(4) _ a(5)] show ?thesis by (simp add: prio_step_def)
    next
      case unl: False
      let ?s = "upd_th th (effective_priority_update (\<lambda>_. inherited s th)) s"
      from set_eprio_unlinked [OF a(1) unl le] have f: "prio_wf ?s" "prio_frame s ?s"
        by (auto simp: prio_step_def)
      from pi_ok_after_change [OF a(2,3) f(2) a(4)] have "\<And>x. blocker s th \<noteq> Some x \<Longrightarrow> pi_ok ?s x" by simp
      moreover from f(2) a(2,3) have "mx_links ?s" "chain ?s th xs" "\<And>x. blocker ?s x = blocker s x"
        by (simp_all add: blocker_frame mx_links_frame chain_frame)
      moreover have "pthread_spread n th ?s = Ok s'" using a(6) False unl by (simp add: Let_def)
      ultimately show ?thesis using Suc f(1) by metis
    qed
  qed
  ultimately show ?case by blast
qed simp

lemma spread_pi:
  assumes "prio_wf s" and "mx_links s" and "chain s th xs" and "pthread_spread n th s = Ok s'"
    and "\<And>x. blocker s th \<noteq> Some x \<Longrightarrow> pi_ok s x"
  shows "pi_ok s' x"
  using spread_pi_both [of n] assms by blast

lemma setschedprio_pi:
  assumes "prio_wf s" and "mx_links s" and "chain s th xs" and "pthread_setschedprio_locked n th s = Ok s'"
    and "\<And>x. x \<noteq> th \<Longrightarrow> pi_ok s x" and "blocker s th \<noteq> Some x"
  shows "pi_ok s' x"
  using spread_pi_both [of n] assms by blast

text \<open>Hence every thread of the chain runs at least at the priority of the thread it blocks.\<close>

lemma pi_ok_chain:
  assumes "\<And>x. pi_ok s x" and "chain s t xs" and "x \<in> set xs"
    and "\<And>w m y. sleep_on (threads s w) = Some m \<Longrightarrow> owner (mutexes s m) = Some y \<Longrightarrow> w \<in> waiters_of s y"
  shows "effective_priority (threads s t) \<le> effective_priority (threads s x)"
  using assms(2,3)
proof (induction xs arbitrary: t)
  case (Cons y ys)
  then have "t \<in> waiters_of s y" using assms(4) by (auto simp: blocker_def bind_eq_Some_conv)
  then have le: "effective_priority (threads s t) \<le> effective_priority (threads s y)"
    using inherited_ge_waiter assms(1) by (fastforce simp: pi_ok_def)
  with Cons show ?case by (cases "x = y") (auto intro: order_trans)
qed simp

end
