(* ===== verification/Mutex.thy ===== *)
theory Mutex
  imports PrioInherit
begin

text \<open>
  The mutexes of \<open>kernel/pthread.c\<close>.  \<open>pthread_mutex_lock\<close> can block: its loop calls
  \<open>schedule\<close> and goes on when the thread runs again.  It is cut there: \<open>pthread_mutex_lock\<close>
  is the part up to the first pass of the loop, \<open>pthread_mutex_lock_loop\<close> one pass, run again by
  theory \<open>Kernel\<close> when the thread is resumed; both return whether the mutex has been acquired.

  The invariant \<open>mx_inv\<close> ties together the lock word (1 free, 0 held with nobody registered as
  sleeping, -1 held with sleepers), the owner, the owner's list of mutexes and the waiters; its last
  clause rules out a lost wake-up.
\<close>

section \<open>Operations\<close>

text \<open>\<open>attr\<close> is \<open>None\<close> for a null pointer, which the code dereferences.\<close>

definition pthread_mutex_init :: "mid \<Rightarrow> pthread_mutexattr option \<Rightarrow> 'a kernel_scheme \<Rightarrow> 'a kernel_scheme result" where
  "pthread_mutex_init m attr s =
     (let s = upd_mx m (lock_update (\<lambda>_. 1)) s;
          s = upd_mx m (wq_update (\<lambda>_. [])) s
      in case attr of
           None \<Rightarrow> Fault NullDeref
         | Some a \<Rightarrow>
            (let s = upd_mx m (mtype_update (\<lambda>_. mattr_type a)) s;
                 s = upd_mx m (owner_update (\<lambda>_. None)) s
             in Ok (upd_mx m (recursive_count_update (\<lambda>_. 0)) s)))"

definition pthread_mutex_destroy :: "mid \<Rightarrow> 'a kernel_scheme \<Rightarrow> 'a kernel_scheme result" where
  "pthread_mutex_destroy m s = rguard (wq (mutexes s m) = []) AssertFail (Ok s)"

text \<open>The three statements every acquisition ends with: onto the owner's list, owner, count.\<close>

definition mutex_own :: "mid \<Rightarrow> 'a kernel_scheme \<Rightarrow> 'a kernel_scheme" where
  "mutex_own m s =
     (let cur = pthread_current s;
          s = upd_th cur (mutex_queue_update (\<lambda>q. q @ [m])) s;
          s = upd_mx m (owner_update (\<lambda>_. Some cur)) s
      in upd_mx m (recursive_count_update (\<lambda>_. 1)) s)"

definition pthread_mutex_lock_finish :: "mid \<Rightarrow> 'a kernel_scheme \<Rightarrow> 'a kernel_scheme result" where
  "pthread_mutex_lock_finish m s =
     (let cur = pthread_current s;
          s = upd_th cur (sleep_on_update (\<lambda>_. None)) s
      in rbind (tq_remove cur (wq (mutexes s m))) (\<lambda>q.
           let s = upd_mx m (wq_update (\<lambda>_. q)) s;
               s = (if q = [] then upd_mx m (lock_update (\<lambda>_. 0)) s else s)
           in pthread_setschedprio_locked SPREAD_FUEL cur (mutex_own m s)))"

definition pthread_mutex_lock_loop :: "mid \<Rightarrow> 'a kernel_scheme \<Rightarrow> (bool \<times> 'a kernel_scheme) result" where
  "pthread_mutex_lock_loop m s =
     (if lock (mutexes s m) = 1 then
        rbind (pthread_mutex_lock_finish m (upd_mx m (lock_update (\<lambda>_. -1)) s)) (\<lambda>s. Ok (True, s))
      else
        (let s = upd_mx m (lock_update (\<lambda>_. -1)) s;
             s = set_state (pthread_current s) PTHREAD_STATE_SLEEPING s
         in rbind (schedule s) (\<lambda>s. Ok (False, s))))"

definition pthread_mutex_lock :: "mid \<Rightarrow> 'a kernel_scheme \<Rightarrow> (bool \<times> 'a kernel_scheme) result" where
  "pthread_mutex_lock m s =
     rguard (\<not> in_irq s) AssertFail
      (let cur = pthread_current s in
       if lock (mutexes s m) = 1 then
         Ok (True, mutex_own m (upd_mx m (lock_update (\<lambda>_. 0)) s))
       else if mtype (mutexes s m) = PTHREAD_MUTEX_RECURSIVE_NP \<and> owner (mutexes s m) = Some cur then
         Ok (True, upd_mx m (recursive_count_update (\<lambda>c. c + 1)) s)
       else
         (let s = upd_mx m (wq_update (\<lambda>q. q @ [cur])) s;
              s = upd_th cur (sleep_on_update (\<lambda>_. Some m)) s
          in rbind (pthread_spread SPREAD_FUEL cur s) (pthread_mutex_lock_loop m)))"

definition pthread_mutex_trylock :: "mid \<Rightarrow> 'a kernel_scheme \<Rightarrow> errno \<times> 'a kernel_scheme" where
  "pthread_mutex_trylock m s =
     (let cur = pthread_current s in
      if lock (mutexes s m) = 1 then
        (E_OK, mutex_own m (upd_mx m (lock_update (\<lambda>_. 0)) s))
      else if mtype (mutexes s m) = PTHREAD_MUTEX_RECURSIVE_NP \<and> owner (mutexes s m) = Some cur then
        (E_OK, upd_mx m (recursive_count_update (\<lambda>c. c + 1)) s)
      else (EBUSY, s))"

text \<open>The loop that picks whom to wake: the first waiter of the highest effective priority.\<close>

definition wake_target :: "'a kernel_scheme \<Rightarrow> tid list \<Rightarrow> tid option" where
  "wake_target s ws =
     fold (\<lambda>w target.
        case target of
          None \<Rightarrow> Some w
        | Some x \<Rightarrow> if effective_priority (threads s x) < effective_priority (threads s w) then Some w else target)
       ws None"

definition pthread_mutex_unlock :: "mid \<Rightarrow> 'a kernel_scheme \<Rightarrow> 'a kernel_scheme result" where
  "pthread_mutex_unlock m s =
     (let cur = pthread_current s;
          s = upd_mx m (recursive_count_update (\<lambda>c. c - 1)) s
      in if recursive_count (mutexes s m) = 0 then
           rbind (tq_remove m (mutex_queue (threads s cur))) (\<lambda>q.
             let s = upd_th cur (mutex_queue_update (\<lambda>_. q)) s;
                 s = upd_mx m (owner_update (\<lambda>_. None)) s;
                 target = (if lock (mutexes s m) \<noteq> 0 then wake_target s (wq (mutexes s m)) else None);
                 s = upd_mx m (lock_update (\<lambda>_. 1)) s
             in rbind (pthread_setschedprio_locked SPREAD_FUEL cur s) (\<lambda>s.
                  rbind (case target of None \<Rightarrow> Ok s | Some t \<Rightarrow> pthread_set_running t s) schedule))
         else Ok s)"

section \<open>Whom \<open>pthread_mutex_unlock\<close> wakes\<close>

lemma wake_target_Nil [simp]: "wake_target s [] = None"
  by (simp add: wake_target_def)

lemma wake_target_cong:
  "(\<And>t. effective_priority (threads s' t) = effective_priority (threads s t)) \<Longrightarrow> wake_target s' ws = wake_target s ws"
  by (simp add: wake_target_def cong: option.case_cong)

lemma wake_target_upd [simp]:
  "wake_target (upd_mx m f s) ws = wake_target s ws"
  "wake_target (upd_th t (mutex_queue_update g) s) ws = wake_target s ws"
  by (rule wake_target_cong; simp)+

lemma wake_target_snoc:
  "wake_target s (ws @ [w]) =
     (case wake_target s ws of
        None \<Rightarrow> Some w
      | Some x \<Rightarrow> if effective_priority (threads s x) < effective_priority (threads s w) then Some w else Some x)"
  by (simp add: wake_target_def split: option.splits)

lemma wake_target_None: "wake_target s ws = None \<longleftrightarrow> ws = []"
  by (induction ws rule: rev_induct) (auto simp: wake_target_snoc split: option.splits)

text \<open>The highest priority wins, and of several waiters with it the one that waits longest.\<close>

lemma wake_target_split:
  "wake_target s ws = Some t \<Longrightarrow> \<exists>as bs. ws = as @ t # bs \<and>
     (\<forall>w\<in>set as. effective_priority (threads s w) < effective_priority (threads s t)) \<and>
     (\<forall>w\<in>set bs. effective_priority (threads s w) \<le> effective_priority (threads s t))"
proof (induction ws arbitrary: t rule: rev_induct)
  case (snoc w ws)
  show ?case
  proof (cases "wake_target s ws")
    case None
    with snoc.prems show ?thesis
      by (intro exI [of _ "[]"]) (auto simp: wake_target_snoc wake_target_None)
  next
    case (Some x)
    with snoc.IH obtain as bs where IH: "ws = as @ x # bs"
      "\<forall>v\<in>set as. effective_priority (threads s v) < effective_priority (threads s x)"
      "\<forall>v\<in>set bs. effective_priority (threads s v) \<le> effective_priority (threads s x)"
      by blast
    show ?thesis
    proof (cases "effective_priority (threads s x) < effective_priority (threads s w)")
      case True
      with IH have "\<forall>v\<in>set ws. effective_priority (threads s v) < effective_priority (threads s w)"
        by (auto intro: less_trans le_less_trans)
      with True Some snoc.prems show ?thesis
        by (intro exI [of _ ws] exI [of _ "[]"]) (auto simp: wake_target_snoc)
    next
      case False
      with Some snoc.prems have "t = x" by (simp add: wake_target_snoc)
      with IH False show ?thesis
        by (intro exI [of _ as] exI [of _ "bs @ [w]"]) auto
    qed
  qed
qed simp

lemma wake_targetD:
  assumes "wake_target s ws = Some t"
  shows "t \<in> set ws"
  using wake_target_split [OF assms] by auto

section \<open>Invariant\<close>

text \<open>One mutex: the lock word, the owner and the count agree.\<close>

definition mutex_ok :: "pthread_mutex \<Rightarrow> bool" where
  "mutex_ok mx \<longleftrightarrow>
     (case owner mx of
        None \<Rightarrow> lock mx = 1 \<and> recursive_count mx = 0
      | Some _ \<Rightarrow> (lock mx = 0 \<or> lock mx = -1) \<and> 1 \<le> recursive_count mx)"

text \<open>Ownership: a thread's list holds exactly the mutexes it owns.\<close>

definition mx_owned :: "'a kernel_scheme \<Rightarrow> bool" where
  "mx_owned s \<longleftrightarrow>
     (\<forall>m t. owner (mutexes s m) = Some t \<longleftrightarrow> m \<in> set (mutex_queue (threads s t))) \<and>
     (\<forall>t. distinct (mutex_queue (threads s t))) \<and>
     (\<forall>m. mutex_ok (mutexes s m))"

text \<open>Waiting: a thread is on the wait queue of exactly the mutex it sleeps on.\<close>

definition mx_waits :: "'a kernel_scheme \<Rightarrow> bool" where
  "mx_waits s \<longleftrightarrow>
     (\<forall>m t. t \<in> set (wq (mutexes s m)) \<longleftrightarrow> sleep_on (threads s t) = Some m) \<and>
     (\<forall>m. distinct (wq (mutexes s m)))"

text \<open>
  No lost wake-up: the lock word is \<open>-1\<close> only with waiters, and a mutex that has waiters without being
  marked so has one that is already runnable.
\<close>

definition wake_ok :: "'a kernel_scheme \<Rightarrow> mid \<Rightarrow> bool" where
  "wake_ok s m \<longleftrightarrow>
     (if lock (mutexes s m) = -1 then wq (mutexes s m) \<noteq> []
      else wq (mutexes s m) = [] \<or> (\<exists>t\<in>set (wq (mutexes s m)). thstate s t = PTHREAD_STATE_RUNNING))"

definition mx_inv :: "'a kernel_scheme \<Rightarrow> bool" where
  "mx_inv s \<longleftrightarrow> mx_owned s \<and> mx_waits s \<and> (\<forall>m. wake_ok s m)"

lemma mx_invI: "\<lbrakk>mx_owned s; mx_waits s; \<And>m. wake_ok s m\<rbrakk> \<Longrightarrow> mx_inv s"
  by (simp add: mx_inv_def)

lemma mx_invD:
  assumes "mx_inv s"
  shows "owner (mutexes s m) = Some t \<longleftrightarrow> m \<in> set (mutex_queue (threads s t))"
    and "distinct (mutex_queue (threads s t))" and "mutex_ok (mutexes s m)"
    and "t \<in> set (wq (mutexes s m)) \<longleftrightarrow> sleep_on (threads s t) = Some m"
    and "distinct (wq (mutexes s m))" and "wake_ok s m"
  using assms by (auto simp: mx_inv_def mx_owned_def mx_waits_def)

lemma mutex_ok_upd [simp]:
  "mutex_ok (wq_update f mx) = mutex_ok mx"
  "mutex_ok (recursive_count_update (\<lambda>_. 1) (owner_update (\<lambda>_. Some c) mx)) \<longleftrightarrow> lock mx = 0 \<or> lock mx = -1"
  "mutex_ok (lock_update (\<lambda>_. 1) (owner_update (\<lambda>_. None) mx)) \<longleftrightarrow> recursive_count mx = 0"
  "mutex_ok mx \<Longrightarrow> owner mx \<noteq> None \<Longrightarrow> mutex_ok (lock_update (\<lambda>_. -1) mx)"
  "mutex_ok mx \<Longrightarrow> owner mx \<noteq> None \<Longrightarrow> 1 \<le> g (recursive_count mx) \<Longrightarrow> mutex_ok (recursive_count_update g mx)"
  by (auto simp: mutex_ok_def split: option.splits)

lemma mutex_free: "mutex_ok mx \<Longrightarrow> lock mx = 1 \<longleftrightarrow> owner mx = None"
  by (auto simp: mutex_ok_def split: option.splits)

lemma mx_inv_free:
  assumes "mx_inv s" and "lock (mutexes s m) = 1"
  shows "owner (mutexes s m) = None" and "m \<notin> set (mutex_queue (threads s t))"
  using mutex_free [OF mx_invD(3) [OF assms(1)]] assms mx_invD(1) [OF assms(1), of m t] by auto

lemma mx_inv_links: "mx_inv s \<Longrightarrow> mx_links s"
  by (auto simp: mx_inv_def mx_owned_def mx_waits_def mx_links_def)

text \<open>The invariant does not see priorities, links and time slices, and waking a thread keeps it.\<close>

lemma mx_inv_mono:
  assumes "mx_inv s" and "mutexes s' = mutexes s"
    and "\<And>t. sleep_on (threads s' t) = sleep_on (threads s t)"
    and "\<And>t. mutex_queue (threads s' t) = mutex_queue (threads s t)"
    and "\<And>t. sleep_on (threads s t) \<noteq> None \<Longrightarrow> thstate s t = PTHREAD_STATE_RUNNING \<Longrightarrow> thstate s' t = PTHREAD_STATE_RUNNING"
  shows "mx_inv s'"
proof (rule mx_invI)
  fix m
  have "t \<in> set (wq (mutexes s m)) \<Longrightarrow> thstate s t = PTHREAD_STATE_RUNNING \<Longrightarrow> thstate s' t = PTHREAD_STATE_RUNNING" for t
    using mx_invD(4) [OF assms(1), of t m] assms(5) [of t] by simp
  with mx_invD(6) [OF assms(1), of m] show "wake_ok s' m"
    by (auto simp: wake_ok_def assms(2) split: if_splits)
qed (use assms(1) in \<open>simp_all add: mx_inv_def mx_owned_def mx_waits_def assms(2-4)\<close>)

lemma mx_inv_sched: "sched_frame s s' \<Longrightarrow> mx_inv s \<Longrightarrow> mx_inv s'"
  by (rule mx_inv_mono) (simp_all add: frame_simps)

lemma mx_inv_prio: "prio_frame s s' \<Longrightarrow> mx_inv s \<Longrightarrow> mx_inv s'"
  by (rule mx_inv_mono) (simp_all add: frame_simps)

lemma mx_inv_wake: "mx_inv s \<Longrightarrow> mx_inv (set_state t PTHREAD_STATE_RUNNING s)"
  by (rule mx_inv_mono) auto


section \<open>The operations keep the invariants\<close>

definition prios_ok :: "'a kernel_scheme \<Rightarrow> bool" where
  "prios_ok s \<longleftrightarrow> (\<forall>t. unat (priority (threads s t)) \<le> 31)"

definition ksched :: "'a kernel_scheme \<Rightarrow> bool" where
  "ksched s \<longleftrightarrow> sched_pre s \<and> prios_ok s \<and> linked s (pthread_current s) \<and> \<not> in_irq s"

text \<open>\<open>kpre\<close>: a thread is inside a kernel operation; \<open>kinv\<close>: a thread runs ordinary code.\<close>

definition kpre :: "'a kernel_scheme \<Rightarrow> bool" where
  "kpre s \<longleftrightarrow> ksched s \<and> mx_inv s"

definition kinv :: "'a kernel_scheme \<Rightarrow> bool" where
  "kinv s \<longleftrightarrow> kpre s \<and> thstate s (pthread_current s) = PTHREAD_STATE_RUNNING \<and> pthread_next s = Some (pthread_current s)"

lemma kinvD:
  assumes "kinv s"
  shows "kpre s" "ksched s" "sched_inv s" "mx_inv s" "\<not> in_irq s" "linked s (pthread_current s)"
    "thstate s (pthread_current s) = PTHREAD_STATE_RUNNING" "prios_ok s" "pthread_next s = Some (pthread_current s)"
proof -
  show k: "kpre s" "ksched s" "mx_inv s" "\<not> in_irq s" "linked s (pthread_current s)"
    and run: "thstate s (pthread_current s) = PTHREAD_STATE_RUNNING" and "prios_ok s"
    and "pthread_next s = Some (pthread_current s)"
    using assms by (auto simp: kinv_def kpre_def ksched_def)
  then show "sched_inv s"
    unfolding ksched_def sched_pre_def sched_inv_def by metis
qed

lemma ksched_prio_wf: "ksched s \<Longrightarrow> prio_wf s"
  by (simp add: ksched_def sched_pre_def sched_wf_def prio_wf_def prios_ok_def)

lemma ksched_prio_step:
  assumes "ksched s" and "prio_step s s'"
  shows "ksched s'"
proof -
  from assms(2) have w: "prio_wf s'" and f: "prio_frame s s'" and l: "\<And>t. linked s' t = linked s t"
    by (auto simp: prio_step_def)
  then show ?thesis
    using assms(1) by (simp add: ksched_def sched_pre_def sched_wf_def prio_wf_def prios_ok_def prio_frameD [OF f])
qed

lemma kpre_prio_step: "kpre s \<Longrightarrow> prio_step s s' \<Longrightarrow> kpre s'"
  using ksched_prio_step mx_inv_prio by (auto simp: kpre_def prio_step_def)

lemma kinv_prio_step: "kinv s \<Longrightarrow> prio_step s s' \<Longrightarrow> kinv s'"
  using kpre_prio_step by (auto simp: kinv_def prio_step_def prio_frameD)

text \<open>What the end of every blocking or waking operation does.\<close>

lemma kinv_schedule:
  assumes "kpre s"
  shows "\<exists>s'. schedule s = Ok s' \<and> kinv s' \<and> sched_done s' \<and> sched_frame s s'"
proof -
  from assms schedule_spec [of s] obtain s' where s': "schedule s = Ok s'" "sched_done s'" "sched_frame s s'"
    by (auto simp: kpre_def ksched_def)
  then have "sched_inv s'" "top_prio s' (pthread_current s')" "pthread_next s' = Some (pthread_current s')"
    by (auto simp: sched_done_def)
  with assms mx_inv_sched [OF s'(3)] s'(3) have "kinv s'"
    by (auto simp: kinv_def kpre_def ksched_def sched_inv_def sched_pre_def top_prio_def prios_ok_def sched_frameD)
  with s' show ?thesis by blast
qed

lemma ksched_set_running:
  assumes "ksched s"
  shows "\<exists>s'. pthread_set_running t s = Ok s' \<and> ksched s' \<and> sched_frame (set_state t PTHREAD_STATE_RUNNING s) s' \<and>
    pthread_current s' = pthread_current s"
proof -
  from assms set_running_spec [of s t] obtain s' where s': "pthread_set_running t s = Ok s'" "sched_pre s'"
    "sched_frame (set_state t PTHREAD_STATE_RUNNING s) s'" "pthread_current s' = pthread_current s"
    "linked s' (pthread_current s)"
    by (auto simp: ksched_def)
  with assms sched_frameD(3,13) [OF s'(3)] have "ksched s'"
    by (auto simp: ksched_def prios_ok_def)
  with s' show ?thesis by blast
qed

text \<open>Fields of a mutex and of a thread that the scheduler does not read.\<close>

lemma sched_inv_mx [simp]: "sched_inv (upd_mx m f s) = sched_inv s" "sched_pre (upd_mx m f s) = sched_pre s"
  "prios_ok (upd_mx m f s) = prios_ok s"
  by (rule sched_cong; simp)+ (simp add: prios_ok_def)

lemma sched_keeps:
  assumes "\<And>th. th_state (f th) = th_state th" "\<And>th. effective_priority (f th) = effective_priority th"
    "\<And>th. th_link (f th) = th_link th" "\<And>th. priority (f th) = priority th"
  shows "sched_inv (upd_th t f s) = sched_inv s" "sched_pre (upd_th t f s) = sched_pre s"
    "prios_ok (upd_th t f s) = prios_ok s"
proof -
  show "sched_inv (upd_th t f s) = sched_inv s" "sched_pre (upd_th t f s) = sched_pre s"
    by (rule sched_cong; simp add: assms)+
  show "prios_ok (upd_th t f s) = prios_ok s" by (auto simp: prios_ok_def assms)
qed

lemma sched_keeps_fields [simp]:
  "sched_inv (upd_th t (sleep_on_update g) s) = sched_inv s" "sched_pre (upd_th t (sleep_on_update g) s) = sched_pre s"
  "prios_ok (upd_th t (sleep_on_update g) s) = prios_ok s"
  "sched_inv (upd_th t (mutex_queue_update h) s) = sched_inv s" "sched_pre (upd_th t (mutex_queue_update h) s) = sched_pre s"
  "prios_ok (upd_th t (mutex_queue_update h) s) = prios_ok s"
  "sched_inv (upd_th t (waiter_update w) s) = sched_inv s" "sched_pre (upd_th t (waiter_update w) s) = sched_pre s"
  "prios_ok (upd_th t (waiter_update w) s) = prios_ok s"
  "sched_inv (upd_th t (th_flags_update fl) s) = sched_inv s" "sched_pre (upd_th t (th_flags_update fl) s) = sched_pre s"
  "prios_ok (upd_th t (th_flags_update fl) s) = prios_ok s"
  "sched_inv (upd_th t (th_retval_update r) s) = sched_inv s" "sched_pre (upd_th t (th_retval_update r) s) = sched_pre s"
  "prios_ok (upd_th t (th_retval_update r) s) = prios_ok s"
  "sched_inv (upd_th t (th_name_update n) s) = sched_inv s" "sched_pre (upd_th t (th_name_update n) s) = sched_pre s"
  "prios_ok (upd_th t (th_name_update n) s) = prios_ok s"
  by (rule sched_keeps; simp)+


text \<open>Taking a free mutex, with or without waiters.\<close>

lemma mx_inv_take:
  assumes "mx_inv s" and "lock (mutexes s m) = 1"
  shows "mx_inv (mutex_own m (upd_mx m (lock_update (\<lambda>_. 0)) s))" (is "mx_inv ?s")
proof (rule mx_invI)
  note I = mx_invD [OF assms(1)] and free = mx_inv_free [OF assms]
  show "mx_owned ?s"
    using I(1-3) free by (auto simp: mx_owned_def mutex_own_def Let_def)
  show "mx_waits ?s"
    using I(4,5) by (auto simp: mx_waits_def mutex_own_def Let_def)
  show "wake_ok ?s k" for k
    using I(6) [of k] assms(2) by (auto simp: wake_ok_def mutex_own_def Let_def split: if_splits)
qed

lemma kinv_take:
  assumes "kinv s" and "lock (mutexes s m) = 1"
  shows "kinv (mutex_own m (upd_mx m (lock_update (\<lambda>_. 0)) s))"
proof -
  have "mx_inv (mutex_own m (upd_mx m (lock_update (\<lambda>_. 0)) s))"
    using assms by (auto dest: kinvD intro: mx_inv_take)
  with assms show ?thesis
    by (simp add: kinv_def kpre_def ksched_def) (simp add: mutex_own_def Let_def)
qed

lemma mx_inv_count:
  assumes "mx_inv s" and "owner (mutexes s m) \<noteq> None" and "1 \<le> f (recursive_count (mutexes s m))"
  shows "mx_inv (upd_mx m (recursive_count_update f) s)" (is "mx_inv ?s")
proof (rule mx_invI)
  note I = mx_invD [OF assms(1)]
  show "mx_owned ?s"
    using I(1-3) assms(2,3) by (auto simp: mx_owned_def)
  show "mx_waits ?s" using I(4,5) by (auto simp: mx_waits_def)
  show "wake_ok ?s k" for k using I(6) [of k] by (auto simp: wake_ok_def)
qed

text \<open>Joining the wait queue of a held mutex and marking it.\<close>

definition lock_waiting :: "tid \<Rightarrow> mid \<Rightarrow> 'a kernel_scheme \<Rightarrow> 'a kernel_scheme" where
  "lock_waiting c m s = upd_th c (sleep_on_update (\<lambda>_. Some m)) (upd_mx m (wq_update (\<lambda>q. q @ [c])) s)"

lemma mx_inv_enqueue:
  assumes "mx_inv s" and "sleep_on (threads s c) = None" and "thstate s c = PTHREAD_STATE_RUNNING"
  shows "mx_inv (lock_waiting c m s)"
proof (rule mx_invI)
  note I = mx_invD [OF assms(1)]
  have out: "c \<notin> set (wq (mutexes s k))" for k
    using I(4) [of c k] assms(2) by simp
  show "mx_owned (lock_waiting c m s)"
    using I(1-3) by (auto simp: lock_waiting_def mx_owned_def)
  show "mx_waits (lock_waiting c m s)"
    using I(4,5) out assms(2) by (auto simp: lock_waiting_def mx_waits_def)
  show "wake_ok (lock_waiting c m s) k" for k
    using I(6) [of k] assms(3) by (auto simp: lock_waiting_def wake_ok_def split: if_splits)
qed

text \<open>A waiter that finds the mutex still held marks it and sleeps.\<close>

lemma mx_inv_resleep:
  assumes "mx_inv s" and "sleep_on (threads s c) = Some m" and "lock (mutexes s m) \<noteq> 1"
  shows "mx_inv (set_state c st (upd_mx m (lock_update (\<lambda>_. -1)) s))" (is "mx_inv ?s")
proof (rule mx_invI)
  note I = mx_invD [OF assms(1)]
  have "owner (mutexes s m) \<noteq> None" using mutex_free [OF I(3)] assms(3) by blast
  with I(1-3) show "mx_owned ?s" by (auto simp: mx_owned_def)
  show "mx_waits ?s" using I(4,5) by (auto simp: mx_waits_def)
  have "wq (mutexes s m) \<noteq> []" using I(4) [of c m] assms(2) by force
  moreover have "c \<notin> set (wq (mutexes s k))" if "k \<noteq> m" for k using I(4) [of c k] that assms(2) by simp
  ultimately show "wake_ok ?s k" for k
    using I(6) [of k] by (fastforce simp: wake_ok_def split: if_splits)
qed

text \<open>A waiter that finds the mutex free takes it over.\<close>

definition lock_taken :: "mid \<Rightarrow> 'a kernel_scheme \<Rightarrow> 'a kernel_scheme" where
  "lock_taken m s =
     (let c = pthread_current s; q = remove1 c (wq (mutexes s m));
          s = upd_th c (sleep_on_update (\<lambda>_. None)) (upd_mx m (lock_update (\<lambda>_. -1)) s);
          s = upd_mx m (wq_update (\<lambda>_. q)) s
      in mutex_own m (if q = [] then upd_mx m (lock_update (\<lambda>_. 0)) s else s))"

lemma mx_inv_lock_taken:
  assumes "mx_inv s" and "sleep_on (threads s (pthread_current s)) = Some m" and "lock (mutexes s m) = 1"
  shows "mx_inv (lock_taken m s)"
proof (rule mx_invI)
  let ?c = "pthread_current s"
  note I = mx_invD [OF assms(1)] and free = mx_inv_free [OF assms(1,3)]
  have cq: "?c \<in> set (wq (mutexes s k)) \<longleftrightarrow> k = m" for k using I(4) assms(2) by auto
  show "mx_owned (lock_taken m s)"
    using I(1-3) free by (auto simp: mx_owned_def lock_taken_def mutex_own_def Let_def)
  have "remove1 ?c (wq (mutexes s m)) = [] \<Longrightarrow> t \<in> set (wq (mutexes s m)) \<Longrightarrow> t = ?c" for t
    by (metis in_set_remove1 list.set(1) empty_iff)
  then show "mx_waits (lock_taken m s)"
    using I(4,5) cq by (auto simp: mx_waits_def lock_taken_def mutex_own_def Let_def)
  show "wake_ok (lock_taken m s) k" for k
    using I(6) [of k] by (auto simp: wake_ok_def lock_taken_def mutex_own_def Let_def split: if_splits)
qed

text \<open>Releasing a mutex: it becomes free, and the chosen waiter, if there is one, is woken.\<close>

definition lock_released :: "mid \<Rightarrow> 'a kernel_scheme \<Rightarrow> 'a kernel_scheme" where
  "lock_released m s =
     upd_mx m (lock_update (\<lambda>_. 1)) (upd_mx m (owner_update (\<lambda>_. None))
       (upd_th (pthread_current s) (mutex_queue_update (\<lambda>_. remove1 m (mutex_queue (threads s (pthread_current s)))))
         (upd_mx m (recursive_count_update (\<lambda>c. c - 1)) s)))"

definition wake_chosen :: "mid \<Rightarrow> 'a kernel_scheme \<Rightarrow> tid option" where
  "wake_chosen m s = (if lock (mutexes s m) \<noteq> 0 then wake_target s (wq (mutexes s m)) else None)"

lemma mx_inv_lock_released:
  assumes "mx_inv s" and "m \<in> set (mutex_queue (threads s (pthread_current s)))" and "recursive_count (mutexes s m) = 1"
  shows "mx_owned (lock_released m s)" and "mx_waits (lock_released m s)"
    and "k \<noteq> m \<or> wake_chosen m s = None \<Longrightarrow> wake_ok (lock_released m s) k"
proof -
  note I = mx_invD [OF assms(1)]
  have own: "k \<in> set (mutex_queue (threads s t)) \<longleftrightarrow> owner (mutexes s k) = Some t" for k t
    using I(1) by simp
  show "mx_owned (lock_released m s)"
    using assms(2,3) I(2,3) by (auto simp: own mx_owned_def lock_released_def)
  show "mx_waits (lock_released m s)"
    using I(4,5) by (auto simp: mx_waits_def lock_released_def)
  show "k \<noteq> m \<or> wake_chosen m s = None \<Longrightarrow> wake_ok (lock_released m s) k"
    using I(6) [of k] by (auto simp: wake_ok_def lock_released_def wake_chosen_def wake_target_None split: if_splits)
qed

section \<open>Locking\<close>

lemma setschedprio_linked:
  assumes "prio_wf s" and "linked s th"
  shows "\<exists>s'. pthread_setschedprio_locked SPREAD_FUEL th s = Ok s' \<and> prio_step s s'"
proof -
  obtain n where n: "SPREAD_FUEL = Suc n" by (simp add: SPREAD_FUEL_def)
  from requeue_spec [OF assms inherited_le [OF assms(1)]]
  have "\<exists>s'. pthread_setschedprio_locked SPREAD_FUEL th s = Ok s'"
    using assms(2) by (auto simp: n Let_def)
  then show ?thesis using setschedprio_step [OF assms(1)] by blast
qed

text \<open>
  A pass of the waiting loop by a thread that is on the wait queue.  It never fails: it either takes the
  mutex, or leaves the thread asleep on a mutex marked as having sleepers, with the processor handed over.
\<close>

lemma lock_loop_spec:
  assumes "kinv s" and "pthread_current s = c" and "c \<noteq> pthread_idle" and "sleep_on (threads s c) = Some m"
  shows "\<exists>b s'. pthread_mutex_lock_loop m s = Ok (b, s') \<and> kinv s' \<and>
    (if b then pthread_current s' = c \<and> owner (mutexes s' m) = Some c \<and> recursive_count (mutexes s' m) = 1 \<and>
       sleep_on (threads s' c) = None
     else sched_done s' \<and> thstate s' c = PTHREAD_STATE_SLEEPING \<and> sleep_on (threads s' c) = Some m \<and>
       mutexes s' = (mutexes s)(m := (mutexes s m)\<lparr>lock := -1\<rparr>))"
proof (cases "lock (mutexes s m) = 1")
  case True
  note k = kinvD [OF assms(1)] and inv = mx_invD [OF kinvD(4) [OF assms(1)]]
  let ?s = "lock_taken m s"
  have "c \<in> set (wq (mutexes s m))" using inv(4) assms(4) by blast
  then have eq: "pthread_mutex_lock_finish m (upd_mx m (lock_update (\<lambda>_. -1)) s) =
      pthread_setschedprio_locked SPREAD_FUEL c ?s"
    using assms(2) by (simp add: pthread_mutex_lock_finish_def lock_taken_def Let_def tq_remove_def)
  have f: "pthread_current ?s = c" "owner (mutexes ?s m) = Some c" "recursive_count (mutexes ?s m) = 1"
    "sleep_on (threads ?s c) = None" "linked ?s c" "thstate ?s c = PTHREAD_STATE_RUNNING"
    using k(6,7) assms(2) by (auto simp: lock_taken_def mutex_own_def Let_def)
  have "sched_pre ?s = sched_pre s" "prios_ok ?s = prios_ok s"
    by (simp_all add: lock_taken_def mutex_own_def Let_def)
  then have kv: "kinv ?s"
    using k f mx_inv_lock_taken [OF k(4) _ True] assms(2,4)
    by (simp add: kinv_def kpre_def ksched_def) (simp add: lock_taken_def mutex_own_def Let_def)
  from setschedprio_linked [OF ksched_prio_wf [OF kinvD(2) [OF kv]] f(5)] obtain s' where
    s': "pthread_setschedprio_locked SPREAD_FUEL c ?s = Ok s'" "prio_step ?s s'"
    by blast
  then have "prio_frame ?s s'" by (simp add: prio_step_def)
  with True eq s' f kinv_prio_step [OF kv s'(2)] show ?thesis
    by (intro exI [of _ True] exI [of _ s']) (simp add: pthread_mutex_lock_loop_def prio_frameD)
next
  case False
  note k = kinvD [OF assms(1)]
  let ?s = "set_state c PTHREAD_STATE_SLEEPING (upd_mx m (lock_update (\<lambda>_. -1)) s)"
  from mx_inv_resleep [OF k(4) assms(4) False] have "mx_inv ?s" .
  moreover have "sched_pre ?s"
    using k(3) assms(2,3) by (auto simp: sched_pre_def sched_inv_def sched_wf_def rq_wf_def)
  moreover have "prios_ok ?s" using k(8) by (auto simp: prios_ok_def)
  ultimately have "kpre ?s" using k(5,6) assms(2) by (simp add: kpre_def ksched_def)
  from kinv_schedule [OF this] obtain s' where s': "schedule ?s = Ok s'" "kinv s'" "sched_done s'" "sched_frame ?s s'"
    by blast
  from sched_frameD(1,6,11) [OF s'(4)] assms(4) have "thstate s' c = PTHREAD_STATE_SLEEPING"
    "sleep_on (threads s' c) = Some m" "mutexes s' = (mutexes s)(m := (mutexes s m)\<lparr>lock := -1\<rparr>)"
    by simp_all
  with False s' assms(2) show ?thesis
    by (intro exI [of _ False] exI [of _ s']) (simp add: pthread_mutex_lock_loop_def Let_def)
qed

lemma kinv_lock_waiting:
  assumes "kinv s" and "pthread_current s = c" and "sleep_on (threads s c) = None"
  shows "kinv (lock_waiting c m s)"
proof -
  note k = kinvD [OF assms(1)]
  have "mx_inv (lock_waiting c m s)" using mx_inv_enqueue [OF k(4) assms(3)] k(7) assms(2) by simp
  with k assms(2) show ?thesis
    by (simp add: kinv_def kpre_def ksched_def) (simp add: lock_waiting_def)
qed

text \<open>
  \<open>pthread_mutex_lock\<close> outside interrupts, for a thread other than the idle thread: it acquires a free
  mutex, counts a recursive acquisition, or sleeps.  It needs that no deadlock is closed: the chain of
  owners that the caller is to wait for is finite.
\<close>

definition lock_chain :: "mid \<Rightarrow> 'a kernel_scheme \<Rightarrow> tid list \<Rightarrow> bool" where
  "lock_chain m s xs \<longleftrightarrow>
     chain (lock_waiting (pthread_current s) m s) (pthread_current s) xs \<and> set xs \<subseteq> {..pthread_idle}"

lemma mutex_lock_free:
  assumes "kinv s" and "lock (mutexes s m) = 1"
  shows "\<exists>s'. pthread_mutex_lock m s = Ok (True, s') \<and> kinv s' \<and> owner (mutexes s' m) = Some (pthread_current s) \<and>
    pthread_current s' = pthread_current s"
  using kinv_take [OF assms] kinvD(5) [OF assms(1)] assms(2)
  by (simp add: pthread_mutex_lock_def Let_def mutex_own_def)

lemma mutex_lock_recursive:
  assumes "kinv s" and "mtype (mutexes s m) = PTHREAD_MUTEX_RECURSIVE_NP" and "owner (mutexes s m) = Some (pthread_current s)"
  shows "\<exists>s'. pthread_mutex_lock m s = Ok (True, s') \<and> kinv s' \<and> owner (mutexes s' m) = Some (pthread_current s) \<and>
    recursive_count (mutexes s' m) = recursive_count (mutexes s m) + 1"
proof -
  note k = kinvD [OF assms(1)] and inv = mx_invD [OF kinvD(4) [OF assms(1)]]
  have "lock (mutexes s m) \<noteq> 1" using mutex_free [OF inv(3)] assms(3) by simp
  moreover have "1 \<le> recursive_count (mutexes s m)" using inv(3) [of m] assms(3) by (simp add: mutex_ok_def)
  then have "mx_inv (upd_mx m (recursive_count_update (\<lambda>c. c + 1)) s)" using mx_inv_count [OF k(4)] assms(3) by simp
  then have "kinv (upd_mx m (recursive_count_update (\<lambda>c. c + 1)) s)"
    using assms(1) by (simp add: kinv_def kpre_def ksched_def)
  ultimately show ?thesis using k(5) assms by (simp add: pthread_mutex_lock_def Let_def)
qed

lemma mutex_lock_blocks:
  assumes "kinv s" and "pthread_current s = c" and "c \<noteq> pthread_idle" and "sleep_on (threads s c) = None"
    and "owner (mutexes s m) = Some x" and "\<not> (mtype (mutexes s m) = PTHREAD_MUTEX_RECURSIVE_NP \<and> x = c)"
    and "lock_chain m s xs"
  shows "\<exists>s'. pthread_mutex_lock m s = Ok (False, s') \<and> kinv s' \<and> sched_done s' \<and>
    thstate s' c = PTHREAD_STATE_SLEEPING \<and> sleep_on (threads s' c) = Some m \<and> lock (mutexes s' m) = -1 \<and>
    owner (mutexes s' m) = Some x"
proof -
  note k = kinvD [OF assms(1)] and inv = mx_invD [OF kinvD(4) [OF assms(1)]]
  let ?s = "lock_waiting c m s"
  have held: "lock (mutexes s m) \<noteq> 1" using mutex_free [OF inv(3)] assms(5) by simp
  have kw: "kinv ?s" by (rule kinv_lock_waiting [OF assms(1,2,4)])
  have "2 * length xs + 1 \<le> SPREAD_FUEL"
    using chain_fuel [of ?s c xs] assms(2,7) by (simp add: lock_chain_def)
  then obtain s1 where s1: "pthread_spread SPREAD_FUEL c ?s = Ok s1"
    using spread_terminates [OF ksched_prio_wf [OF kinvD(2) [OF kw]], of c xs SPREAD_FUEL] assms(2,7)
    by (auto simp: lock_chain_def)
  have st: "prio_step ?s s1" by (rule spread_step [OF ksched_prio_wf [OF kinvD(2) [OF kw]] s1])
  then have fr: "prio_frame ?s s1" by (simp add: prio_step_def)
  from prio_frameD(5,10,14) [OF fr] held assms(2,5)
  have f: "pthread_current s1 = c" "sleep_on (threads s1 c) = Some m" "lock (mutexes s1 m) \<noteq> 1" "owner (mutexes s1 m) = Some x"
    by (auto simp: lock_waiting_def)
  have eq: "pthread_mutex_lock m s = pthread_mutex_lock_loop m s1"
    using k(5) held assms(2,5,6) s1 by (auto simp: pthread_mutex_lock_def Let_def lock_waiting_def)
  have noacq: "pthread_mutex_lock_loop m s1 \<noteq> Ok (True, s')" for s'
    using f(3) by (auto simp: pthread_mutex_lock_loop_def Let_def result_simps)
  from lock_loop_spec [OF kinv_prio_step [OF kw st] f(1) assms(3) f(2)] noacq obtain s' where
    s': "pthread_mutex_lock_loop m s1 = Ok (False, s')" "kinv s'" "sched_done s'" "thstate s' c = PTHREAD_STATE_SLEEPING"
    "sleep_on (threads s' c) = Some m" "mutexes s' = (mutexes s1)(m := (mutexes s1 m)\<lparr>lock := -1\<rparr>)"
    by (metis (full_types))
  with eq f(4) show ?thesis by auto
qed

text \<open>Mutual exclusion: while a thread owns the mutex, no other thread acquires it.\<close>

lemma mutex_lock_excluded:
  assumes "kinv s" and "owner (mutexes s m) = Some t" and "t \<noteq> pthread_current s"
  shows "pthread_mutex_lock m s \<noteq> Ok (True, s')" and "pthread_mutex_lock_loop m s \<noteq> Ok (True, s')"
    and "pthread_mutex_trylock m s = (EBUSY, s)"
proof -
  have held: "lock (mutexes s m) \<noteq> 1"
    using mutex_free [OF mx_invD(3) [OF kinvD(4) [OF assms(1)]]] assms(2) by simp
  then show "pthread_mutex_lock_loop m s \<noteq> Ok (True, s')"
    by (auto simp: pthread_mutex_lock_loop_def Let_def result_simps)
  show "pthread_mutex_trylock m s = (EBUSY, s)"
    using held assms(2,3) by (simp add: pthread_mutex_trylock_def Let_def)
  show "pthread_mutex_lock m s \<noteq> Ok (True, s')"
  proof
    assume "pthread_mutex_lock m s = Ok (True, s')"
    then obtain s1 where s1: "pthread_spread SPREAD_FUEL (pthread_current s) (lock_waiting (pthread_current s) m s) = Ok s1"
      and l: "pthread_mutex_lock_loop m s1 = Ok (True, s')"
      using held assms(2,3) by (auto simp: pthread_mutex_lock_def Let_def result_simps lock_waiting_def)
    have "prio_wf (lock_waiting (pthread_current s) m s)"
      using ksched_prio_wf [OF kinvD(2) [OF assms(1)]]
      by (simp add: lock_waiting_def prio_wf_def rq_wf_def fun_upd_def)
    from spread_step [OF this s1] have "mutexes s1 = mutexes (lock_waiting (pthread_current s) m s)"
      by (auto simp: prio_step_def prio_frame_def)
    with held have "lock (mutexes s1 m) \<noteq> 1" by (simp add: lock_waiting_def)
    with l show False by (auto simp: pthread_mutex_lock_loop_def Let_def result_simps)
  qed
qed

section \<open>Unlocking\<close>

text \<open>Releasing the last acquisition: the mutex is free and the chosen waiter has been made runnable.\<close>

lemma mutex_unlock_spec:
  assumes "kpre s" and "m \<in> set (mutex_queue (threads s (pthread_current s)))" and "recursive_count (mutexes s m) = 1"
  shows "\<exists>s'. pthread_mutex_unlock m s = Ok s' \<and> kinv s' \<and> sched_done s' \<and>
    owner (mutexes s' m) = None \<and> wq (mutexes s' m) = wq (mutexes s m) \<and>
    (\<forall>t. thstate s' t = (if wake_chosen m s = Some t then PTHREAD_STATE_RUNNING else thstate s t)) \<and>
    (\<forall>t. sleep_on (threads s' t) = sleep_on (threads s t)) \<and> conds s' = conds s"
proof -
  let ?c = "pthread_current s" and ?s = "lock_released m s"
  have ks: "ksched s" and mx: "mx_inv s" using assms(1) by (auto simp: kpre_def)
  have "ksched ?s" using ks by (simp add: ksched_def lock_released_def)
  note rel = mx_inv_lock_released [OF mx assms(2,3)]
  have cur: "pthread_current ?s = ?c" "linked ?s ?c"
    using ks by (simp_all add: lock_released_def ksched_def)
  from setschedprio_linked [OF ksched_prio_wf [OF \<open>ksched ?s\<close>] cur(2)] obtain s1 where
    s1: "pthread_setschedprio_locked SPREAD_FUEL ?c ?s = Ok s1" "prio_step ?s s1"
    by blast
  have f1: "prio_frame ?s s1" using s1(2) by (simp add: prio_step_def)
  note k1 = ksched_prio_step [OF \<open>ksched ?s\<close> s1(2)]
  let ?w = "case wake_chosen m s of None \<Rightarrow> ?s | Some t \<Rightarrow> set_state t PTHREAD_STATE_RUNNING ?s"
  have "\<exists>s2. (case wake_chosen m s of None \<Rightarrow> Ok s1 | Some t \<Rightarrow> pthread_set_running t s1) = Ok s2 \<and> ksched s2 \<and>
    mutexes s2 = mutexes ?w \<and> conds s2 = conds s \<and>
    (\<forall>t. thstate s2 t = thstate ?w t \<and> sleep_on (threads s2 t) = sleep_on (threads ?w t) \<and>
      mutex_queue (threads s2 t) = mutex_queue (threads ?w t))"
  proof (cases "wake_chosen m s")
    case None
    with k1 prio_frameD [OF f1] show ?thesis by (simp add: lock_released_def)
  next
    case (Some t)
    from ksched_set_running [OF k1, of t] obtain s2 where s2: "pthread_set_running t s1 = Ok s2" "ksched s2"
      "sched_frame (set_state t PTHREAD_STATE_RUNNING s1) s2"
      by blast
    from sched_frameD [OF s2(3)] prio_frameD [OF f1] have "mutexes s2 = mutexes ?s" "conds s2 = conds s"
      "\<And>x. thstate s2 x = (if x = t then PTHREAD_STATE_RUNNING else thstate ?s x)"
      "\<And>x. sleep_on (threads s2 x) = sleep_on (threads ?s x)" "\<And>x. mutex_queue (threads s2 x) = mutex_queue (threads ?s x)"
      by (simp_all add: lock_released_def)
    with Some s2 show ?thesis by (intro exI [of _ s2]) auto
  qed
  then obtain s2 where s2: "(case wake_chosen m s of None \<Rightarrow> Ok s1 | Some t \<Rightarrow> pthread_set_running t s1) = Ok s2" "ksched s2"
    and f2: "mutexes s2 = mutexes ?w" "conds s2 = conds s" "\<And>t. thstate s2 t = thstate ?w t"
    "\<And>t. sleep_on (threads s2 t) = sleep_on (threads ?w t)" "\<And>t. mutex_queue (threads s2 t) = mutex_queue (threads ?w t)"
    by blast
  have "mx_inv ?w"
  proof (rule mx_invI)
    show "mx_owned ?w" "mx_waits ?w" using rel(1,2) by (auto simp: mx_owned_def mx_waits_def split: option.splits)
    fix k
    show "wake_ok ?w k"
    proof (cases "wake_chosen m s")
      case (Some t)
      then have "t \<in> set (wq (mutexes s m))" by (auto simp: wake_chosen_def wake_targetD split: if_splits)
      with Some rel(3) [of k] show ?thesis
        by (cases "k = m") (auto simp: wake_ok_def lock_released_def split: if_splits)
    qed (use rel(3) in simp)
  qed
  then have "mx_inv s2" using f2 by (rule_tac mx_inv_mono [of ?w]) auto
  with s2(2) have "kpre s2" by (simp add: kpre_def)
  from kinv_schedule [OF this] obtain s' where s': "schedule s2 = Ok s'" "kinv s'" "sched_done s'" "sched_frame s2 s'"
    by blast
  have "pthread_mutex_unlock m s = Ok s'"
    using assms(2,3) s1(1) s2(1) s'(1)
    by (auto simp: pthread_mutex_unlock_def Let_def tq_remove_def lock_released_def wake_chosen_def split: if_splits)
  with s' f2 show ?thesis
    by (intro exI [of _ s']) (auto simp: sched_frameD lock_released_def split: option.splits)
qed

lemma mutex_unlock_nested:
  assumes "kpre s" and "m \<in> set (mutex_queue (threads s (pthread_current s)))" and "recursive_count (mutexes s m) \<noteq> 1"
  shows "\<exists>s'. pthread_mutex_unlock m s = Ok s' \<and> kpre s' \<and> threads s' = threads s \<and> conds s' = conds s \<and>
    pthread_current s' = pthread_current s \<and>
    mutexes s' = (mutexes s)(m := recursive_count_update (\<lambda>c. c - 1) (mutexes s m))"
proof -
  have mx: "mx_inv s" using assms(1) by (simp add: kpre_def)
  note inv = mx_invD [OF mx]
  have own: "owner (mutexes s m) = Some (pthread_current s)" using inv(1) assms(2) by simp
  then have "2 \<le> recursive_count (mutexes s m)" using inv(3) [of m] assms(3) by (simp add: mutex_ok_def)
  then have "mx_inv (upd_mx m (recursive_count_update (\<lambda>c. c - 1)) s)" using mx_inv_count [OF mx] own by simp
  with assms show ?thesis by (simp add: pthread_mutex_unlock_def Let_def kpre_def ksched_def)
qed

text \<open>Unlocking a mutex of which somebody else, or nobody, is the owner corrupts the owner's list.\<close>

lemma mutex_unlock_foreign:
  assumes "recursive_count (mutexes s m) = 1" and "m \<notin> set (mutex_queue (threads s (pthread_current s)))"
  shows "pthread_mutex_unlock m s = Fault Corrupt"
  using assms by (simp add: pthread_mutex_unlock_def Let_def tq_remove_def)

text \<open>\<open>pthread_mutex_trylock\<close> never blocks and keeps the invariant.\<close>

lemma mutex_trylock_spec:
  assumes "kinv s" and "pthread_mutex_trylock m s = (e, s')"
  shows "kinv s'" and "pthread_current s' = pthread_current s"
    and "e = E_OK \<longleftrightarrow> owner (mutexes s' m) = Some (pthread_current s) \<and>
      (owner (mutexes s m) = None \<or> mtype (mutexes s m) = PTHREAD_MUTEX_RECURSIVE_NP)"
    and "e = EBUSY \<Longrightarrow> s' = s"
proof -
  have eq: "pthread_mutex_trylock m s = (EBUSY, s) \<or> pthread_mutex_lock m s = Ok (True, s') \<and> e = E_OK"
    using assms(2) kinvD(5) [OF assms(1)]
    by (auto simp: pthread_mutex_trylock_def pthread_mutex_lock_def Let_def split: if_splits)
  note free = mutex_free [OF mx_invD(3) [OF kinvD(4) [OF assms(1)]], of m]
  show "kinv s'"
    using eq assms free mutex_lock_free [OF assms(1), of m] mutex_lock_recursive [OF assms(1), of m]
    by (auto simp: pthread_mutex_trylock_def Let_def split: if_splits)
  show "pthread_current s' = pthread_current s"
    using assms(2) by (auto simp: pthread_mutex_trylock_def mutex_own_def Let_def split: if_splits)
  show "e = E_OK \<longleftrightarrow> owner (mutexes s' m) = Some (pthread_current s) \<and>
      (owner (mutexes s m) = None \<or> mtype (mutexes s m) = PTHREAD_MUTEX_RECURSIVE_NP)"
    using assms(2) free by (auto simp: pthread_mutex_trylock_def mutex_own_def Let_def split: if_splits)
  show "e = EBUSY \<Longrightarrow> s' = s"
    using assms(2) by (auto simp: pthread_mutex_trylock_def Let_def split: if_splits)
qed

end
