(* ===== verification/Lifecycle.thy ===== *)
theory Lifecycle
  imports Mutex
begin

text \<open>
  Thread life cycle of \<open>kernel/pthread.c\<close>: start-up, creation, exit, detaching, joining, names, and the
  iteration over all threads.

  Like \<open>pthread_mutex_lock\<close>, \<open>pthread_join\<close> is cut at its call of \<open>schedule\<close>:
  \<open>pthread_join_pass\<close> is one pass of its loop and \<open>pthread_join_resume\<close> what happens when the
  joining thread runs again.  The chain that \<open>has_loop\<close> follows has no bound in the source, so the model takes
  fuel; the chain is injective, and the lemmas show that one unit per thread is always enough.
\<close>

section \<open>Start-up\<close>

definition idle_init :: "u32 \<Rightarrow> u32 \<Rightarrow> pthread \<Rightarrow> pthread" where
  "idle_init stack_bottom stack_size th =
     th\<lparr>th_state := PTHREAD_STATE_RUNNING, th_stack_addr := stack_bottom, th_stack_size := stack_size, th_link := False,
        priority := of_nat SCHED_RR_PRIORITY_IDLE, effective_priority := of_nat SCHED_RR_PRIORITY_IDLE,
        timeslice := CONFIG_TIMESLICE, th_flags := PTHREAD_FLAG_DETACH, th_name := ''idle'', waiter := None,
        error_code := E_OK, stime := \<lparr>tv_sec = 0, tv_usec = 0\<rparr>\<rparr>"

definition pthread_init :: "u32 \<Rightarrow> u32 \<Rightarrow> 'a kernel_scheme \<Rightarrow> 'a kernel_scheme result" where
  "pthread_init stack_bottom stack_size s =
     (let s = s\<lparr>pthread_current := pthread_idle, pthread_next := Some pthread_idle\<rparr>;
          s = run_queue_init s;
          s = upd_th pthread_idle (idle_init stack_bottom stack_size) s
      in rbind (run_queue_enqueue pthread_idle False s) (\<lambda>s.
           let s = upd_th pthread_idle (sleep_on_update (\<lambda>_. None)) s
           in Ok (upd_th pthread_idle (mutex_queue_update (\<lambda>_. [])) s)))"

section \<open>Creation\<close>

definition free_slot :: "'a kernel_scheme \<Rightarrow> tid option" where
  "free_slot s = find (\<lambda>i. thstate s i = PTHREAD_STATE_NONE) [0..<CONFIG_PTHREAD_MAX_NUM]"

definition create_init :: "pthread_attr \<Rightarrow> pthread \<Rightarrow> pthread" where
  "create_init attr th =
     th\<lparr>th_retval := 0, th_stack_addr := attr_stack_addr attr, th_stack_size := attr_stack_size attr,
        th_link := False, priority := attr_priority attr, effective_priority := attr_priority attr,
        timeslice := CONFIG_TIMESLICE, sleep_on := None, mutex_queue := [], th_flags := attr_flags attr,
        th_name := ''unnamed'', waiter := None, error_code := E_OK, stime := \<lparr>tv_sec = 0, tv_usec = 0\<rparr>\<rparr>"

definition pthread_create :: "pthread_attr \<Rightarrow> 'a kernel_scheme \<Rightarrow> (errno \<times> tid option \<times> 'a kernel_scheme) result" where
  "pthread_create attr s =
     (case free_slot s of
        None \<Rightarrow> Ok (EAGAIN, None, s)
      | Some th \<Rightarrow>
         (let s = set_state th PTHREAD_STATE_INIT s;
              s = upd_th th (create_init attr) s
          in rbind (wake_up th s) (\<lambda>s. Ok (E_OK, Some th, s))))"

section \<open>Exit, detach, join\<close>

text \<open>The final \<open>schedule\<close> is reached only if \<open>wake_up\<close> has not already switched away.\<close>

definition pthread_exit_locked :: "'a kernel_scheme \<Rightarrow> 'a kernel_scheme result" where
  "pthread_exit_locked s =
     (let cur = pthread_current s in
      if th_flags (threads s cur) AND PTHREAD_FLAG_DETACH \<noteq> 0 then
        schedule (set_state cur PTHREAD_STATE_NONE s)
      else
        (let s = set_state cur PTHREAD_STATE_EXIT s in
         rbind (case waiter (threads s cur) of None \<Rightarrow> Ok s | Some w \<Rightarrow> wake_up w s)
           (\<lambda>s. if pthread_current s = cur then schedule s else Ok s)))"

definition pthread_exit :: "u32 \<Rightarrow> 'a kernel_scheme \<Rightarrow> 'a kernel_scheme result" where
  "pthread_exit retval s =
     pthread_exit_locked (upd_th (pthread_current s) (th_retval_update (\<lambda>_. retval)) s)"

definition pthread_detach :: "tid \<Rightarrow> 'a kernel_scheme \<Rightarrow> (errno \<times> 'a kernel_scheme) result" where
  "pthread_detach th s =
     (case thstate s th of
        PTHREAD_STATE_NONE \<Rightarrow> Ok (ESRCH, s)
      | PTHREAD_STATE_INIT \<Rightarrow> Ok (ESRCH, s)
      | PTHREAD_STATE_EXIT \<Rightarrow> Ok (E_OK, set_state th PTHREAD_STATE_NONE s)
      | _ \<Rightarrow>
         (if th_flags (threads s th) AND PTHREAD_FLAG_DETACH \<noteq> 0 then Ok (EINVAL, s)
          else
            (let s = upd_th th (th_flags_update (\<lambda>f. f OR PTHREAD_FLAG_DETACH)) s in
             case waiter (threads s th) of
               None \<Rightarrow> Ok (E_OK, s)
             | Some w \<Rightarrow> rbind (wake_up w s) (\<lambda>s. Ok (E_OK, s)))))"

fun waiter_walk :: "nat \<Rightarrow> 'a kernel_scheme \<Rightarrow> tid \<Rightarrow> tid option \<Rightarrow> bool result" where
  "waiter_walk n s th None = Ok False"
| "waiter_walk 0 s th (Some i) = Fault Diverge"
| "waiter_walk (Suc n) s th (Some i) = (if i = th then Ok True else waiter_walk n s th (waiter (threads s i)))"

definition WALK_FUEL :: nat where "WALK_FUEL = CONFIG_PTHREAD_MAX_NUM + 2"

definition has_loop :: "'a kernel_scheme \<Rightarrow> tid \<Rightarrow> bool result" where
  "has_loop s th = waiter_walk WALK_FUEL s th (waiter (threads s th))"

text \<open>The outcome of a pass: the call returns, with the exit value on success, or the caller sleeps.\<close>

datatype join_outcome = Joined errno "u32 option" | JoinBlocked

definition pthread_join_pass :: "tid \<Rightarrow> 'a kernel_scheme \<Rightarrow> (join_outcome \<times> 'a kernel_scheme) result" where
  "pthread_join_pass th s =
     (if thstate s th = PTHREAD_STATE_EXIT then
        Ok (Joined E_OK (Some (th_retval (threads s th))), set_state th PTHREAD_STATE_NONE s)
      else if thstate s th = PTHREAD_STATE_NONE then Ok (Joined ESRCH None, s)
      else if th_flags (threads s th) AND PTHREAD_FLAG_DETACH \<noteq> 0 \<or> waiter (threads s th) \<noteq> None then
        Ok (Joined EINVAL None, s)
      else
        (let cur = pthread_current s;
             s = upd_th th (waiter_update (\<lambda>_. Some cur)) s
         in rbind (has_loop s th) (\<lambda>loop.
              if loop then Ok (Joined EDEADLK None, upd_th th (waiter_update (\<lambda>_. None)) s)
              else rbind (schedule (set_state cur PTHREAD_STATE_SLEEPING s)) (\<lambda>s. Ok (JoinBlocked, s)))))"

definition pthread_join :: "tid \<Rightarrow> 'a kernel_scheme \<Rightarrow> (join_outcome \<times> 'a kernel_scheme) result" where
  "pthread_join th s = pthread_join_pass th s"

definition pthread_join_resume :: "tid \<Rightarrow> 'a kernel_scheme \<Rightarrow> (join_outcome \<times> 'a kernel_scheme) result" where
  "pthread_join_resume th s = pthread_join_pass th (upd_th th (waiter_update (\<lambda>_. None)) s)"

section \<open>Names\<close>

definition pthread_getname_np :: "tid \<Rightarrow> nat \<Rightarrow> 'a kernel_scheme \<Rightarrow> errno \<times> string option" where
  "pthread_getname_np th sz s =
     (if length (th_name (threads s th)) \<ge> sz then (ERANGE, None) else (E_OK, Some (th_name (threads s th))))"

definition pthread_setname_np :: "tid \<Rightarrow> string \<Rightarrow> 'a kernel_scheme \<Rightarrow> errno \<times> 'a kernel_scheme" where
  "pthread_setname_np th name s =
     (if length name \<ge> PTHREAD_NAME_SIZE then (ERANGE, s)
      else (E_OK, upd_th th (th_name_update (\<lambda>_. name)) s))"

text \<open>The threads \<open>pthread_foreach\<close> calls back, in order.\<close>

definition pthread_foreach :: "'a kernel_scheme \<Rightarrow> tid list" where
  "pthread_foreach s =
     filter (\<lambda>i. thstate s i \<noteq> PTHREAD_STATE_NONE \<and> thstate s i \<noteq> PTHREAD_STATE_INIT) [0..<CONFIG_PTHREAD_MAX_NUM] @
     [pthread_idle]"

section \<open>Stack usage\<close>

text \<open>A stack as the list of its words, lowest address first; the size is in bytes.\<close>

definition STACK_FILL :: u32 where "STACK_FILL = 0x5a00ffa5"

definition stack_check_init :: "u32 list \<Rightarrow> nat \<Rightarrow> u32 list" where
  "stack_check_init mem sz = replicate (sz div 4) STACK_FILL @ drop (sz div 4) mem"

definition stack_check_size :: "u32 list \<Rightarrow> nat" where
  "stack_check_size stack = 4 * length (dropWhile (\<lambda>w. w = STACK_FILL) stack)"

section \<open>Waiting for a thread to end\<close>

text \<open>\<open>(t, w)\<close>: thread \<open>w\<close> waits for thread \<open>t\<close> to end.\<close>

definition waits_for :: "'a kernel_scheme \<Rightarrow> (tid \<times> tid) set" where
  "waits_for s = {(t, w). waiter (threads s t) = Some w}"

text \<open>No thread waits for two threads, only threads of the table wait, and nobody waits for itself in the end.\<close>

definition join_inv :: "'a kernel_scheme \<Rightarrow> bool" where
  "join_inv s \<longleftrightarrow>
     (\<forall>t t' w. waiter (threads s t) = Some w \<longrightarrow> waiter (threads s t') = Some w \<longrightarrow> t = t') \<and>
     (\<forall>t w. waiter (threads s t) = Some w \<longrightarrow> w \<le> pthread_idle) \<and>
     acyclic (waits_for s)"

lemma waiter_walk_result:
  "waiter_walk n s th q = Ok b \<Longrightarrow> b \<longleftrightarrow> (\<exists>i. q = Some i \<and> (i, th) \<in> (waits_for s)\<^sup>*)"
proof (induction n s th q rule: waiter_walk.induct)
  case (3 n s th i)
  show ?case
  proof (cases "i = th")
    case False
    have "(i, th) \<in> (waits_for s)\<^sup>* \<longleftrightarrow> (\<exists>j. waiter (threads s i) = Some j \<and> (j, th) \<in> (waits_for s)\<^sup>*)"
      using False by (auto elim: converse_rtranclE simp: waits_for_def intro: converse_rtrancl_into_rtrancl)
    with 3 False show ?thesis by simp
  qed (use 3 in simp)
qed simp_all

lemma has_loop_result:
  assumes "has_loop s th = Ok b"
  shows "b \<longleftrightarrow> (th, th) \<in> (waits_for s)\<^sup>+"
proof -
  have "b \<longleftrightarrow> (\<exists>i. (th, i) \<in> waits_for s \<and> (i, th) \<in> (waits_for s)\<^sup>*)"
    using waiter_walk_result [OF assms [unfolded has_loop_def]] by (auto simp: waits_for_def)
  then show ?thesis by (auto dest: tranclD intro: rtrancl_into_trancl2)
qed

text \<open>
  The walk ends: an injective chain can only come back to where it started, and it has at most one
  link per thread.
\<close>

fun wpath :: "'a kernel_scheme \<Rightarrow> tid \<Rightarrow> tid list \<Rightarrow> bool" where
  "wpath s t [] = True"
| "wpath s t (x # xs) = (waiter (threads s t) = Some x \<and> wpath s x xs)"

lemma wpath_snoc: "wpath s t (xs @ [y]) \<longleftrightarrow> wpath s t xs \<and> waiter (threads s (last (t # xs))) = Some y"
  by (induction xs arbitrary: t) auto

lemma wpath_pred: "wpath s t xs \<Longrightarrow> x \<in> set xs \<Longrightarrow> \<exists>y\<in>set (butlast (t # xs)). waiter (threads s y) = Some x"
  by (induction xs arbitrary: t) auto

lemma waiter_walk_ends:
  assumes "\<And>t t' w. waiter (threads s t) = Some w \<Longrightarrow> waiter (threads s t') = Some w \<Longrightarrow> t = t'"
    and "\<And>t w. waiter (threads s t) = Some w \<Longrightarrow> w \<le> pthread_idle"
    and "wpath s th xs" and "distinct (th # xs)" and "WALK_FUEL \<le> n + length xs"
  shows "is_Ok (waiter_walk n s th (waiter (threads s (last (th # xs)))))"
  using assms(3-5)
proof (induction n arbitrary: xs)
  case 0
  have "set xs \<subseteq> {..pthread_idle}" using wpath_pred [OF 0(1)] assms(2) by fastforce
  then have "card (set xs) \<le> card {..pthread_idle}" by (intro card_mono) simp_all
  moreover have "card (set xs) = length xs" using 0(2) by (simp add: distinct_card)
  ultimately have "length xs \<le> 33" by (simp add: pthread_idle_def CONFIG_PTHREAD_MAX_NUM_def)
  with 0(3) show ?case by (simp add: WALK_FUEL_def CONFIG_PTHREAD_MAX_NUM_def)
next
  case (Suc n)
  show ?case
  proof (cases "waiter (threads s (last (th # xs)))")
    case (Some i)
    show ?thesis
    proof (cases "i = th")
      case False
      have "i \<notin> set xs"
      proof
        assume "i \<in> set xs"
        from wpath_pred [OF Suc.prems(1) this] assms(1) [OF Some] have "last (th # xs) \<in> set (butlast (th # xs))" by auto
        with Suc.prems(2) show False by (metis append_butlast_last_id distinct_append distinct.simps(2) disjoint_insert(1) list.set(2) list.simps(3))
      qed
      with False Suc.prems Some have "is_Ok (waiter_walk n s th (waiter (threads s (last (th # xs @ [i])))))"
        using Suc.IH [of "xs @ [i]"] by (simp add: wpath_snoc)
      with Some False show ?thesis by simp
    qed (use Some in simp)
  qed simp
qed

lemma has_loop_Ok:
  assumes "\<And>t t' w. waiter (threads s t) = Some w \<Longrightarrow> waiter (threads s t') = Some w \<Longrightarrow> t = t'"
    and "\<And>t w. waiter (threads s t) = Some w \<Longrightarrow> w \<le> pthread_idle"
  shows "has_loop s th = Ok ((th, th) \<in> (waits_for s)\<^sup>+)"
proof -
  from waiter_walk_ends [of s th "[]" WALK_FUEL] assms obtain b where "has_loop s th = Ok b"
    by (auto simp: has_loop_def is_Ok_iff)
  with has_loop_result [OF this] show ?thesis by simp
qed

section \<open>The operations keep the kernel invariant\<close>

lemma kinv_wake_up:
  assumes "kpre s"
  shows "\<exists>s'. wake_up t s = Ok s' \<and> kinv s' \<and> sched_done s' \<and> sched_frame (set_state t PTHREAD_STATE_RUNNING s) s'"
proof -
  from assms ksched_set_running [of s t] obtain s1 where s1: "pthread_set_running t s = Ok s1" "ksched s1"
    "sched_frame (set_state t PTHREAD_STATE_RUNNING s) s1"
    by (auto simp: kpre_def)
  with assms mx_inv_sched [OF s1(3) mx_inv_wake] have "kpre s1" by (simp add: kpre_def)
  from kinv_schedule [OF this] s1 sched_frame_trans [OF s1(3)] show ?thesis
    by (fastforce simp: wake_up_def)
qed

text \<open>Changing the state of a thread that sleeps on no mutex: the current one, or one that stays not runnable.\<close>

lemma kpre_block:
  assumes "kinv s" and "c = pthread_current s" and "c \<noteq> pthread_idle" and "sleep_on (threads s c) = None"
    and "st \<noteq> PTHREAD_STATE_RUNNING"
  shows "kpre (set_state c st s)"
proof -
  note k = kinvD [OF assms(1)]
  have "mx_inv (set_state c st s)" by (rule mx_inv_mono [OF k(4)]) (use assms(4) in auto)
  moreover have "sched_pre (set_state c st s)"
    using k(3) assms(2,3,5) by (auto simp: sched_inv_def sched_pre_def sched_wf_def rq_wf_def)
  moreover have "prios_ok (set_state c st s)" using k(8) by (auto simp: prios_ok_def)
  ultimately show ?thesis using k(5,6) assms(2) by (simp add: kpre_def ksched_def)
qed

lemma kinv_keep_unrunnable:
  assumes "kinv s" and "thstate s t \<noteq> PTHREAD_STATE_RUNNING" and "st \<noteq> PTHREAD_STATE_RUNNING"
  shows "kinv (set_state t st s)"
proof -
  note k = kinvD [OF assms(1)]
  have "mx_inv (set_state t st s)" by (rule mx_inv_mono [OF k(4)]) (use assms in auto)
  moreover have "t \<noteq> pthread_current s" "t \<noteq> pthread_idle" using k(3,7) assms(2) by (auto simp: sched_inv_def sched_wf_def)
  moreover have "prios_ok (set_state t st s)" using k(8) by (auto simp: prios_ok_def)
  ultimately show ?thesis
    using k(3,5,6,7) assms by (auto simp: kinv_def kpre_def ksched_def sched_inv_def sched_pre_def sched_wf_def rq_wf_def)
qed

lemma kinv_waiter [simp]: "kinv (upd_th t (waiter_update f) s) = kinv s" "kpre (upd_th t (waiter_update f) s) = kpre s"
proof -
  have "mx_inv (upd_th t (waiter_update f) s) = mx_inv s"
    by (auto simp: mx_inv_def mx_owned_def mx_waits_def wake_ok_def)
  then show "kpre (upd_th t (waiter_update f) s) = kpre s" by (auto simp: kpre_def ksched_def)
  then show "kinv (upd_th t (waiter_update f) s) = kinv s" by (auto simp: kinv_def)
qed

lemma kinv_flags [simp]: "kinv (upd_th t (th_flags_update f) s) = kinv s"
proof -
  have "mx_inv (upd_th t (th_flags_update f) s) = mx_inv s"
    by (auto simp: mx_inv_def mx_owned_def mx_waits_def wake_ok_def)
  then show ?thesis by (auto simp: kinv_def kpre_def ksched_def)
qed

lemma kinv_retval [simp]: "kinv (upd_th t (th_retval_update f) s) = kinv s"
proof -
  have "mx_inv (upd_th t (th_retval_update f) s) = mx_inv s"
    by (auto simp: mx_inv_def mx_owned_def mx_waits_def wake_ok_def)
  then show ?thesis by (auto simp: kinv_def kpre_def ksched_def)
qed

text \<open>A free slot holds no mutex and sleeps on none; \<open>pthread_create\<close> takes the first one.\<close>

lemma free_slot_Some: "free_slot s = Some t \<Longrightarrow> t < 32 \<and> thstate s t = PTHREAD_STATE_NONE \<and> (\<forall>i<t. thstate s i \<noteq> PTHREAD_STATE_NONE)"
  by (auto simp: free_slot_def find_Some_iff CONFIG_PTHREAD_MAX_NUM_def)

lemma free_slot_None: "free_slot s = None \<longleftrightarrow> (\<forall>i<32. thstate s i \<noteq> PTHREAD_STATE_NONE)"
  by (auto simp: free_slot_def find_None_iff CONFIG_PTHREAD_MAX_NUM_def)

lemma create_spec:
  assumes "kinv s" and "free_slot s = Some t" and "unat (attr_priority attr) \<le> 31"
    and "sleep_on (threads s t) = None" and "mutex_queue (threads s t) = []"
  shows "\<exists>s'. pthread_create attr s = Ok (E_OK, Some t, s') \<and> kinv s' \<and> sched_done s' \<and>
    sched_frame (set_state t PTHREAD_STATE_RUNNING (upd_th t (create_init attr) s)) s'"
proof -
  note k = kinvD [OF assms(1)] and I = mx_invD [OF kinvD(4) [OF assms(1)]]
  let ?s = "upd_th t (create_init attr) (set_state t PTHREAD_STATE_INIT s)"
  from free_slot_Some [OF assms(2)] have st: "thstate s t = PTHREAD_STATE_NONE" by blast
  with k(3,7) have t: "t \<noteq> pthread_current s" "t \<noteq> pthread_idle" "\<not> linked s t"
    by (auto simp: sched_inv_def sched_wf_def)
  have rq: "rq_wf ?s"
    using k(3) t(3) by (auto simp: sched_inv_def sched_wf_def rq_wf_def create_init_def)
  have "sched_pre ?s"
    using k(3) t assms(3) rq by (simp add: sched_inv_def sched_pre_def sched_wf_def create_init_def)
  moreover have "mx_inv ?s"
    by (rule mx_inv_mono [OF k(4)]) (use assms(4,5) st in \<open>auto simp: create_init_def\<close>)
  moreover have "prios_ok ?s" using k(8) assms(3) by (auto simp: prios_ok_def create_init_def)
  ultimately have "kpre ?s" using k(5,6) t(1) by (simp add: kpre_def ksched_def)
  from kinv_wake_up [OF this, of t] obtain s' where s': "wake_up t ?s = Ok s'" "kinv s'" "sched_done s'"
    "sched_frame (set_state t PTHREAD_STATE_RUNNING ?s) s'"
    by blast
  have "set_state t PTHREAD_STATE_RUNNING ?s = set_state t PTHREAD_STATE_RUNNING (upd_th t (create_init attr) s)"
    by (simp add: upd_th_def create_init_def)
  with s' assms(2) show ?thesis by (simp add: pthread_create_def Let_def)
qed

text \<open>An exiting thread never runs again; its slot is free if it is detached, and else waits to be joined.\<close>

lemma exit_spec:
  assumes "kinv s" and "pthread_current s = c" and "c \<noteq> pthread_idle" and "sleep_on (threads s c) = None"
    and "waiter (threads s c) \<noteq> Some c"
  shows "\<exists>s'. pthread_exit r s = Ok s' \<and> kinv s' \<and> sched_done s' \<and> pthread_current s' \<noteq> c \<and>
    th_retval (threads s' c) = r \<and>
    (if th_flags (threads s c) AND PTHREAD_FLAG_DETACH \<noteq> 0 then thstate s' c = PTHREAD_STATE_NONE
     else thstate s' c = PTHREAD_STATE_EXIT \<and>
       (\<forall>w. waiter (threads s c) = Some w \<longrightarrow> thstate s' w = PTHREAD_STATE_RUNNING))"
proof -
  let ?s = "upd_th c (th_retval_update (\<lambda>_. r)) s"
  have k: "kinv ?s" using assms(1) by simp
  have out: "pthread_current s' \<noteq> c" if "kinv s'" "thstate s' c \<noteq> PTHREAD_STATE_RUNNING" for s' :: "'a kernel_scheme"
    using kinvD(7) [OF that(1)] that(2) by auto
  show ?thesis
  proof (cases "th_flags (threads s c) AND PTHREAD_FLAG_DETACH \<noteq> 0")
    case True
    have "kpre (set_state c PTHREAD_STATE_NONE ?s)" by (rule kpre_block [OF k]) (use assms in auto)
    from kinv_schedule [OF this] obtain s' where s': "schedule (set_state c PTHREAD_STATE_NONE ?s) = Ok s'" "kinv s'"
      "sched_done s'" "sched_frame (set_state c PTHREAD_STATE_NONE ?s) s'"
      by blast
    with True assms(2) out show ?thesis
      by (intro exI [of _ s']) (simp add: pthread_exit_def pthread_exit_locked_def Let_def sched_frameD)
  next
    case False
    let ?e = "set_state c PTHREAD_STATE_EXIT ?s"
    have kp: "kpre ?e" by (rule kpre_block [OF k]) (use assms in auto)
    show ?thesis
    proof (cases "waiter (threads s c)")
      case None
      from kinv_schedule [OF kp] obtain s' where s': "schedule ?e = Ok s'" "kinv s'" "sched_done s'" "sched_frame ?e s'"
        by blast
      with None False assms(2) out show ?thesis
        by (intro exI [of _ s']) (simp add: pthread_exit_def pthread_exit_locked_def Let_def sched_frameD)
    next
      case (Some w)
      from kinv_wake_up [OF kp, of w] obtain s' where s': "wake_up w ?e = Ok s'" "kinv s'" "sched_done s'"
        "sched_frame (set_state w PTHREAD_STATE_RUNNING ?e) s'"
        by blast
      with Some False assms(2,5) out [of s'] show ?thesis
        by (intro exI [of _ s']) (simp add: pthread_exit_def pthread_exit_locked_def Let_def sched_frameD)
    qed
  qed
qed

lemma detach_spec:
  assumes "kinv s"
  shows "\<exists>e s'. pthread_detach t s = Ok (e, s') \<and> kinv s' \<and>
    e = (case thstate s t of
           PTHREAD_STATE_NONE \<Rightarrow> ESRCH | PTHREAD_STATE_INIT \<Rightarrow> ESRCH | PTHREAD_STATE_EXIT \<Rightarrow> E_OK
         | _ \<Rightarrow> if th_flags (threads s t) AND PTHREAD_FLAG_DETACH \<noteq> 0 then EINVAL else E_OK) \<and>
    (e = E_OK \<longrightarrow> (if thstate s t = PTHREAD_STATE_EXIT then thstate s' t = PTHREAD_STATE_NONE
       else th_flags (threads s' t) = th_flags (threads s t) OR PTHREAD_FLAG_DETACH \<and>
         (\<forall>w. waiter (threads s t) = Some w \<longrightarrow> thstate s' w = PTHREAD_STATE_RUNNING))) \<and>
    (e \<noteq> E_OK \<longrightarrow> s' = s)"
proof -
  let ?s = "upd_th t (th_flags_update (\<lambda>f. f OR PTHREAD_FLAG_DETACH)) s"
  have k: "kinv ?s" using assms by simp
  show ?thesis
  proof (cases "thstate s t \<in> {PTHREAD_STATE_RUNNING, PTHREAD_STATE_SLEEPING} \<and>
      th_flags (threads s t) AND PTHREAD_FLAG_DETACH = 0 \<and> waiter (threads s t) \<noteq> None")
    case True
    then obtain w where w: "waiter (threads s t) = Some w" by blast
    from kinv_wake_up [OF kinvD(1) [OF k], of w] obtain s' where s': "wake_up w ?s = Ok s'" "kinv s'"
      "sched_frame (set_state w PTHREAD_STATE_RUNNING ?s) s'"
      by blast
    from sched_frameD(1,4) [OF s'(3)] have f: "thstate s' w = PTHREAD_STATE_RUNNING"
      "th_flags (threads s' t) = th_flags (threads s t) OR PTHREAD_FLAG_DETACH"
      by simp_all
    with True w s' show ?thesis
      by (intro exI [of _ E_OK] exI [of _ s']) (auto simp: pthread_detach_def Let_def)
  next
    case other: False
    show ?thesis
    proof (cases "thstate s t = PTHREAD_STATE_EXIT")
      case True
      then have "kinv (set_state t PTHREAD_STATE_NONE s)" by (intro kinv_keep_unrunnable assms) simp_all
      with True show ?thesis by (simp add: pthread_detach_def)
    next
      case False
      with other k assms show ?thesis
        by (cases "thstate s t") (auto simp: pthread_detach_def Let_def split: option.splits)
    qed
  qed
qed

text \<open>
  Joining.  The cycle test is exact: it answers \<open>EDEADLK\<close> if and only if the thread to be joined already waits,
  directly or through others, for the caller.
\<close>

lemma join_loop:
  assumes "join_inv s" and "waiter (threads s t) = None" and "\<And>x. waiter (threads s x) \<noteq> Some c" and "c \<le> pthread_idle"
  shows "has_loop (upd_th t (waiter_update (\<lambda>_. Some c)) s) t = Ok ((c, t) \<in> (waits_for s)\<^sup>*)"
    and "(c, t) \<notin> (waits_for s)\<^sup>* \<Longrightarrow> join_inv (upd_th t (waiter_update (\<lambda>_. Some c)) s)"
proof -
  let ?s = "upd_th t (waiter_update (\<lambda>_. Some c)) s"
  have R: "waits_for ?s = insert (t, c) (waits_for s)" using assms(2) by (auto simp: waits_for_def split: if_splits)
  have ac: "acyclic (waits_for s)" using assms(1) by (simp add: join_inv_def)
  have "has_loop ?s t = Ok ((t, t) \<in> (waits_for ?s)\<^sup>+)"
    using assms by (intro has_loop_Ok) (auto simp: join_inv_def split: if_splits)
  moreover have "(t, t) \<in> (insert (t, c) (waits_for s))\<^sup>+ \<longleftrightarrow> (c, t) \<in> (waits_for s)\<^sup>*"
    using ac by (auto simp: trancl_insert acyclic_def)
  ultimately show "has_loop ?s t = Ok ((c, t) \<in> (waits_for s)\<^sup>*)" by (simp add: R)
  show "join_inv ?s" if "(c, t) \<notin> (waits_for s)\<^sup>*"
  proof -
    have "acyclic (waits_for ?s)" using ac that by (simp add: R acyclic_insert)
    with assms show ?thesis by (auto simp: join_inv_def split: if_splits)
  qed
qed

lemma waits_for_frame: "(\<And>t. waiter (threads s' t) = waiter (threads s t)) \<Longrightarrow> waits_for s' = waits_for s"
  by (simp add: waits_for_def)

lemma join_inv_frame: "(\<And>t. waiter (threads s' t) = waiter (threads s t)) \<Longrightarrow> join_inv s' = join_inv s"
  by (simp add: join_inv_def waits_for_def)

lemma join_inv_clear: "join_inv s \<Longrightarrow> join_inv (upd_th t (waiter_update (\<lambda>_. None)) s)"
proof -
  assume a: "join_inv s"
  have "waits_for (upd_th t (waiter_update (\<lambda>_. None)) s) \<subseteq> waits_for s" by (auto simp: waits_for_def split: if_splits)
  with a acyclic_subset have "acyclic (waits_for (upd_th t (waiter_update (\<lambda>_. None)) s))"
    by (auto simp: join_inv_def)
  with a show ?thesis by (auto simp: join_inv_def split: if_splits)
qed

definition join_answer :: "tid \<Rightarrow> 'a kernel_scheme \<Rightarrow> join_outcome" where
  "join_answer t s =
     (if thstate s t = PTHREAD_STATE_EXIT then Joined E_OK (Some (th_retval (threads s t)))
      else if thstate s t = PTHREAD_STATE_NONE then Joined ESRCH None
      else if th_flags (threads s t) AND PTHREAD_FLAG_DETACH \<noteq> 0 \<or> waiter (threads s t) \<noteq> None then Joined EINVAL None
      else if (pthread_current s, t) \<in> (waits_for s)\<^sup>* then Joined EDEADLK None
      else JoinBlocked)"

lemma join_pass_spec:
  assumes "kinv s" and "join_inv s" and "pthread_current s = c" and "c < pthread_idle"
    and "\<And>x. waiter (threads s x) \<noteq> Some c" and "sleep_on (threads s c) = None"
  shows "\<exists>s'. pthread_join_pass t s = Ok (join_answer t s, s') \<and> kinv s' \<and> join_inv s' \<and>
    (if join_answer t s = JoinBlocked
     then sched_done s' \<and> waiter (threads s' t) = Some c \<and> thstate s' c = PTHREAD_STATE_SLEEPING
     else pthread_current s' = c \<and> (\<forall>x. waiter (threads s' x) = waiter (threads s x)))"
proof (cases "join_answer t s = JoinBlocked \<or> join_answer t s = Joined EDEADLK None")
  case False
  then have eq: "pthread_join_pass t s = Ok (join_answer t s,
      if thstate s t = PTHREAD_STATE_EXIT then set_state t PTHREAD_STATE_NONE s else s)"
    unfolding join_answer_def pthread_join_pass_def by (auto simp: Let_def split: if_splits)
  moreover have "kinv (set_state t PTHREAD_STATE_NONE s)" if "thstate s t = PTHREAD_STATE_EXIT"
    using that by (intro kinv_keep_unrunnable assms(1)) simp_all
  moreover have "join_inv (set_state t PTHREAD_STATE_NONE s)" using assms(2) by (subst join_inv_frame [of _ s]) auto
  ultimately show ?thesis using False assms(1-3) by auto
next
  case True
  then have pre: "thstate s t \<noteq> PTHREAD_STATE_EXIT" "thstate s t \<noteq> PTHREAD_STATE_NONE"
    "th_flags (threads s t) AND PTHREAD_FLAG_DETACH = 0" "waiter (threads s t) = None"
    and ans: "join_answer t s = (if (c, t) \<in> (waits_for s)\<^sup>* then Joined EDEADLK None else JoinBlocked)"
    using assms(3) by (auto simp: join_answer_def split: if_splits)
  let ?s = "upd_th t (waiter_update (\<lambda>_. Some c)) s"
  note loop = join_loop [OF assms(2) pre(4) assms(5)]
  show ?thesis
  proof (cases "(c, t) \<in> (waits_for s)\<^sup>*")
    case True
    let ?r = "upd_th t (waiter_update (\<lambda>_. None)) ?s"
    have same: "\<And>x. waiter (threads ?r x) = waiter (threads s x)" using pre(4) by simp
    have "pthread_join_pass t s = Ok (Joined EDEADLK None, ?r)"
      using pre True loop(1) assms(3,4) by (simp add: pthread_join_pass_def Let_def)
    moreover have "kinv ?r" using assms(1) by simp
    moreover have "join_inv ?r" using assms(2) join_inv_frame [of ?r s, OF same] by simp
    ultimately show ?thesis using True ans assms(3) same by simp
  next
    case False
    have ks: "kinv ?s" using assms(1) by simp
    have "kpre (set_state c PTHREAD_STATE_SLEEPING ?s)" by (rule kpre_block [OF ks]) (use assms(3,4,6) in auto)
    from kinv_schedule [OF this] obtain s' where s': "schedule (set_state c PTHREAD_STATE_SLEEPING ?s) = Ok s'" "kinv s'"
      "sched_done s'" "sched_frame (set_state c PTHREAD_STATE_SLEEPING ?s) s'"
      by blast
    have w: "waiter (threads s' x) = waiter (threads ?s x)" for x using sched_frameD(5) [OF s'(4)] by simp
    have "join_inv ?s" using loop(2) assms(4) False by simp
    then have "join_inv s'" using join_inv_frame [of s' ?s, OF w] by simp
    moreover have "pthread_join_pass t s = Ok (JoinBlocked, s')"
      using pre False loop(1) assms(3,4) s'(1) by (simp add: pthread_join_pass_def Let_def)
    ultimately show ?thesis using ans False s' w sched_frameD(1) [OF s'(4), of c] by simp
  qed
qed

end
