(* ===== verification/Timer.thy ===== *)
theory Timer
  imports Lifecycle TimerHeap
begin

text \<open>
  The clock of \<open>kernel/timer.c\<close>: the tick handler, sleeping with a timeout, and the clocks.  The
  kernel record is extended by the timer context, the tick counter and the two clocks.

  \<open>schedule_timeout\<close> is cut at its call of \<open>schedule\<close>: \<open>schedule_timeout_begin\<close> arms the timer and
  gives up the processor, \<open>schedule_timeout_end\<close> runs when the thread is resumed.  The timer is a variable on the
  thread's stack and is named by the thread.  The loop of \<open>timer_update\<close> takes as much fuel as there are timers.
\<close>

record timezone =
  tz_minuteswest :: int
  tz_dsttime :: int

record tkernel = kernel +
  tctx :: timer_context
  ticks :: u32
  wall_tv :: timeval
  wall_tz :: timezone
  monotonic_clock :: timeval

abbreviation tmap :: "(timer_context \<Rightarrow> timer_context) \<Rightarrow> 'a tkernel_scheme \<Rightarrow> 'a tkernel_scheme" where
  "tmap f s \<equiv> tctx_update f s"

definition CONFIG_HZ :: nat where "CONFIG_HZ = 100"
definition USECS_PER_SEC :: int where "USECS_PER_SEC = 1000000"
definition NSECS_PER_USEC :: int where "NSECS_PER_USEC = 1000"

section \<open>The tick\<close>

definition update_timeval :: "timeval \<Rightarrow> timeval" where
  "update_timeval tv =
     (let tv = tv\<lparr>tv_usec := tv_usec tv + USECS_PER_SEC div int CONFIG_HZ\<rparr> in
      if tv_usec tv > USECS_PER_SEC
      then tv\<lparr>tv_sec := tv_sec tv + tv_usec tv div USECS_PER_SEC, tv_usec := tv_usec tv mod USECS_PER_SEC\<rparr>
      else tv)"

definition sched_timeout :: "tmid \<Rightarrow> 'a tkernel_scheme \<Rightarrow> 'a tkernel_scheme result" where
  "sched_timeout t s = wake_up (tm_thread (timers (tctx s) t)) s"

fun timer_expire :: "nat \<Rightarrow> u32 \<Rightarrow> 'a tkernel_scheme \<Rightarrow> 'a tkernel_scheme result" where
  "timer_expire n now s =
     (if hn (tctx s) > 0 \<and> \<not> time_after (hexp (tctx s) 0) now then
        (case n of
           0 \<Rightarrow> Fault Diverge
         | Suc n \<Rightarrow>
            (let t = heap (tctx s) 0 in
             rbind (timer_delete_locked t (tctx s)) (\<lambda>h.
               rbind (sched_timeout t (s\<lparr>tctx := h\<rparr>)) (timer_expire n now))))
      else Ok s)"

declare timer_expire.simps [simp del]

definition timer_update :: "'a tkernel_scheme \<Rightarrow> 'a tkernel_scheme result" where
  "timer_update s =
     (let s = s\<lparr>ticks := ticks s + 1\<rparr>;
          now = ticks s;
          s = s\<lparr>wall_tv := update_timeval (wall_tv s)\<rparr>;
          s = s\<lparr>monotonic_clock := update_timeval (monotonic_clock s)\<rparr>;
          s = upd_th (pthread_current s) (stime_update update_timeval) s
      in rbind (timer_expire (hn (tctx s)) now s) (\<lambda>s.
           let s = upd_th (pthread_current s) (timeslice_update (\<lambda>x. x - 1)) s
           in Ok (if timeslice (threads s (pthread_current s)) = 0 then s\<lparr>pthread_next := None\<rparr> else s)))"

text \<open>The timer interrupt: \<open>interrupt_dispatch\<close> around \<open>timer_update\<close>, then the exit path.\<close>

definition timer_interrupt :: "'a tkernel_scheme \<Rightarrow> 'a tkernel_scheme result" where
  "timer_interrupt s =
     rbind (timer_update (s\<lparr>in_irq := True\<rparr>)) (\<lambda>s. isr_exit (s\<lparr>in_irq := False\<rparr>))"

section \<open>Sleeping\<close>

definition schedule_timeout_begin :: "u32 \<Rightarrow> 'a tkernel_scheme \<Rightarrow> 'a tkernel_scheme result" where
  "schedule_timeout_begin timeout s =
     rguard (\<not> in_irq s) AssertFail
      (let t = pthread_current s;
           h = tctx s;
           h = h\<lparr>timers := (timers h)(t := (timers h t)\<lparr>expires := ticks s + timeout, tm_thread := t\<rparr>)\<rparr>
       in rbind (timer_add t h) (\<lambda>h. schedule (s\<lparr>tctx := h\<rparr>)))"

definition schedule_timeout_end :: "'a tkernel_scheme \<Rightarrow> (int \<times> 'a tkernel_scheme) result" where
  "schedule_timeout_end s =
     (let t = pthread_current s in
      rbind (timer_delete t (tctx s)) (\<lambda>h.
        Ok (sint (expires (timers h t) - ticks s), s\<lparr>tctx := h\<rparr>)))"

definition sleep_begin :: "u32 \<Rightarrow> 'a tkernel_scheme \<Rightarrow> 'a tkernel_scheme result" where
  "sleep_begin seconds s =
     schedule_timeout_begin (seconds * of_nat CONFIG_HZ) (set_state (pthread_current s) PTHREAD_STATE_SLEEPING s)"

definition sleep_end :: "'a tkernel_scheme \<Rightarrow> (int \<times> 'a tkernel_scheme) result" where
  "sleep_end s =
     rbind (schedule_timeout_end s) (\<lambda>(remain, s).
       Ok (if remain \<le> 0 then 0 else (remain + (int CONFIG_HZ - 1)) div int CONFIG_HZ, s))"

definition usleep_begin :: "u32 \<Rightarrow> 'a tkernel_scheme \<Rightarrow> 'a tkernel_scheme result" where
  "usleep_begin usec s =
     schedule_timeout_begin ((usec + (10000 - 1)) div 10000) (set_state (pthread_current s) PTHREAD_STATE_SLEEPING s)"

definition usleep_end :: "'a tkernel_scheme \<Rightarrow> (int \<times> 'a tkernel_scheme) result" where
  "usleep_end s = rbind (schedule_timeout_end s) (\<lambda>(_, s). Ok (0, s))"

section \<open>Clocks\<close>

record timespec =
  ts_sec :: int
  ts_nsec :: int

datatype clockid = CLOCK_REALTIME | CLOCK_MONOTONIC | CLOCK_OTHER int

definition time_now :: "'a tkernel_scheme \<Rightarrow> int" where
  "time_now s = tv_sec (wall_tv s)"

definition gettimeofday :: "'a tkernel_scheme \<Rightarrow> timeval \<times> timezone" where
  "gettimeofday s = (wall_tv s, wall_tz s)"

definition settimeofday :: "timeval option \<Rightarrow> timezone option \<Rightarrow> 'a tkernel_scheme \<Rightarrow> 'a tkernel_scheme" where
  "settimeofday tv tz s =
     (let s = (case tv of None \<Rightarrow> s | Some tv \<Rightarrow> s\<lparr>wall_tv := tv\<rparr>)
      in case tz of None \<Rightarrow> s | Some tz \<Rightarrow> s\<lparr>wall_tz := tz\<rparr>)"

definition uptime :: "'a tkernel_scheme \<Rightarrow> timeval" where
  "uptime s = monotonic_clock s"

definition clock_gettime :: "clockid \<Rightarrow> 'a tkernel_scheme \<Rightarrow> errno + timespec" where
  "clock_gettime clk s =
     (case clk of
        CLOCK_REALTIME \<Rightarrow> Inr \<lparr>ts_sec = tv_sec (wall_tv s), ts_nsec = tv_usec (wall_tv s) * NSECS_PER_USEC\<rparr>
      | CLOCK_MONOTONIC \<Rightarrow>
          Inr \<lparr>ts_sec = tv_sec (monotonic_clock s), ts_nsec = tv_usec (monotonic_clock s) * NSECS_PER_USEC\<rparr>
      | CLOCK_OTHER _ \<Rightarrow> Inl EINVAL)"

definition clock_settime :: "clockid \<Rightarrow> timespec \<Rightarrow> 'a tkernel_scheme \<Rightarrow> errno + 'a tkernel_scheme" where
  "clock_settime clk tp s =
     (case clk of
        CLOCK_REALTIME \<Rightarrow> Inr (s\<lparr>wall_tv := \<lparr>tv_sec = ts_sec tp, tv_usec = cdiv (ts_nsec tp) NSECS_PER_USEC\<rparr>\<rparr>)
      | CLOCK_MONOTONIC \<Rightarrow> Inl EINVAL
      | CLOCK_OTHER _ \<Rightarrow> Inl EINVAL)"

section \<open>The operations of the scheduler do not touch the clock\<close>

lemma more_tkernel:
  assumes "kernel.more s' = kernel.more s"
  shows "tctx s' = tctx s" "ticks s' = ticks s" "wall_tv s' = wall_tv s" "wall_tz s' = wall_tz s"
    "monotonic_clock s' = monotonic_clock s" "tkernel.more s' = tkernel.more s"
  using assms by (cases s; cases s'; simp)+

lemma upd_th_tkernel [simp]:
  "tctx (upd_th t f s) = tctx s" "ticks (upd_th t f s) = ticks s" "wall_tv (upd_th t f s) = wall_tv s"
  "monotonic_clock (upd_th t f s) = monotonic_clock s"
  by (simp_all add: upd_th_def)

section \<open>Inside an interrupt\<close>

definition irq_inv :: "'a kernel_scheme \<Rightarrow> bool" where
  "irq_inv s \<longleftrightarrow> sched_pre s \<and> prios_ok s \<and> linked s (pthread_current s) \<and> mx_inv s \<and> in_irq s \<and>
     pthread_next s \<in> {None, Some (pthread_current s)} \<and>
     thstate s (pthread_current s) = PTHREAD_STATE_RUNNING"

text \<open>
  Waking the threads of \<open>X\<close> inside an interrupt: their states change, and nothing else but links, time
  slices and the timer context.
\<close>

definition woken :: "tid set \<Rightarrow> 'a tkernel_scheme \<Rightarrow> 'a tkernel_scheme \<Rightarrow> bool" where
  "woken X s s' \<longleftrightarrow>
     (\<forall>t. th_core (threads s' t) = th_core (if t \<in> X then (threads s t)\<lparr>th_state := PTHREAD_STATE_RUNNING\<rparr> else threads s t)) \<and>
     mutexes s' = mutexes s \<and> conds s' = conds s \<and> pthread_current s' = pthread_current s \<and>
     ticks s' = ticks s \<and> wall_tv s' = wall_tv s \<and> wall_tz s' = wall_tz s \<and>
     monotonic_clock s' = monotonic_clock s \<and> tkernel.more s' = tkernel.more s"

lemma irq_inv_tctx [simp]: "irq_inv (s\<lparr>tctx := h\<rparr>) = irq_inv s"
proof -
  have "sched_pre (s\<lparr>tctx := h\<rparr>) = sched_pre s" by (rule sched_cong) simp_all
  then show ?thesis
    by (simp add: irq_inv_def prios_ok_def mx_inv_def mx_owned_def mx_waits_def wake_ok_def)
qed

lemma irq_wake_up:
  assumes "irq_inv s"
  shows "\<exists>s'. wake_up t s = Ok s' \<and> irq_inv s' \<and> pthread_next s' = None \<and> woken {t} s s' \<and> tctx s' = tctx s"
proof -
  from assms have "sched_pre s" "in_irq s" by (simp_all add: irq_inv_def)
  from wake_up_irq [OF this, of t] obtain s' where s': "wake_up t s = Ok s'" "sched_pre s'" "pthread_next s' = None"
    "pthread_current s' = pthread_current s" "sched_frame (set_state t PTHREAD_STATE_RUNNING s) s'"
    by blast
  let ?s = "set_state t PTHREAD_STATE_RUNNING s"
  have run: "thstate s' (pthread_current s') = PTHREAD_STATE_RUNNING"
    using assms s'(4) sched_frameD(1) [OF s'(5)] by (simp add: irq_inv_def)
  with s'(2) have "linked s' (pthread_current s')" by (simp add: sched_pre_def)
  moreover have "mx_inv s'" using assms mx_inv_sched [OF s'(5) mx_inv_wake] by (simp add: irq_inv_def)
  moreover have "prios_ok s'" "in_irq s'"
    using assms sched_frameD(3,13) [OF s'(5)] by (auto simp: irq_inv_def prios_ok_def)
  ultimately have "irq_inv s'" using s' run by (simp add: irq_inv_def)
  moreover have "kernel.more s' = kernel.more s" using sched_frameD(14) [OF s'(5)] by simp
  note m = more_tkernel [OF this]
  have "woken {t} s s'" using s'(4,5) m by (simp add: woken_def sched_frame_def)
  ultimately show ?thesis using s' m by blast
qed

lemma woken_trans:
  assumes "woken X s s1" and "woken Y s1 s2"
  shows "woken (X \<union> Y) s s2"
proof -
  have upd: "th_core a = th_core b \<Longrightarrow> th_core (a\<lparr>th_state := x\<rparr>) = th_core (b\<lparr>th_state := x\<rparr>)" for a b x
    by (cases a; cases b) (simp add: th_core_def)
  have "th_core (threads s2 t) =
      th_core (if t \<in> X \<union> Y then (threads s t)\<lparr>th_state := PTHREAD_STATE_RUNNING\<rparr> else threads s t)" for t
  proof (cases "t \<in> Y")
    case True
    with assms(2) have "th_core (threads s2 t) = th_core ((threads s1 t)\<lparr>th_state := PTHREAD_STATE_RUNNING\<rparr>)"
      by (simp add: woken_def)
    also have "\<dots> = th_core ((threads s t)\<lparr>th_state := PTHREAD_STATE_RUNNING\<rparr>)"
      using assms(1) upd [of "threads s1 t"] by (cases "t \<in> X") (fastforce simp: woken_def)+
    finally show ?thesis using True by simp
  qed (use assms in \<open>simp add: woken_def\<close>)
  with assms show ?thesis by (simp add: woken_def)
qed

lemma woken_refl [simp]: "woken {} s s"
  by (simp add: woken_def)

text \<open>The threads of the timers that are due \<open>k\<close> ticks after \<open>b\<close>.\<close>

definition due_threads :: "u32 \<Rightarrow> nat \<Rightarrow> timer_context \<Rightarrow> tid set" where
  "due_threads b k h = {tm_thread (timers h t) |t. t \<in> active h \<and> due b (expires (timers h t)) \<le> k}"

text \<open>
  The loop fires every timer that is due and no other, and it ends: each pass takes one timer away.
\<close>

lemma timer_expire_spec:
  assumes "irq_inv s" and "timer_ok b (tctx s)" and "hn (tctx s) \<le> n" and "now = b + 1"
  shows "\<exists>s'. timer_expire n now s = Ok s' \<and> irq_inv s' \<and> woken (due_threads b 1 (tctx s)) s s' \<and>
    timer_ok b (tctx s') \<and> same_times (tctx s) (tctx s') \<and>
    active (tctx s') = {t \<in> active (tctx s). 1 < due b (expires (timers (tctx s) t))} \<and>
    (if due_threads b 1 (tctx s) = {} then s' = s else pthread_next s' = None)"
  using assms(1-3)
proof (induction n arbitrary: s)
  case 0
  then have "active (tctx s) = {}" by (simp add: active_def)
  with 0 show ?case by (auto simp: timer_expire.simps due_threads_def same_times_def)
next
  case (Suc n)
  let ?h = "tctx s" and ?t = "heap (tctx s) 0"
  have now: "due b now = 1" using assms(4) by (simp add: due_def)
  show ?case
  proof (cases "hn ?h > 0 \<and> \<not> time_after (hexp ?h 0) now")
    case False
    have none: "1 < due b (expires (timers ?h t))" if "t \<in> active ?h" for t
    proof -
      from that have n0: "0 < hn ?h" by (auto simp: active_def)
      with False have "time_after (hexp ?h 0) now" by simp
      moreover have "hkey b ?h 0 < 2 ^ 31" using Suc.prems(2) n0 by (simp add: timer_ok_def window_def)
      ultimately have "1 < hkey b ?h 0" using time_after_due [of b "hexp ?h 0" now] now by simp
      with timer_first(2) [OF Suc.prems(2) n0 that] show ?thesis by simp
    qed
    then have "due_threads b 1 ?h = {}" by (fastforce simp: due_threads_def)
    moreover have "timer_expire (Suc n) now s = Ok s" using False by (subst timer_expire.simps) auto
    ultimately show ?thesis using Suc.prems none by (auto simp: same_times_def)
  next
    case True
    then have n0: "0 < hn ?h" by simp
    note f = timer_first [OF Suc.prems(2) n0]
    have "hkey b ?h 0 < 2 ^ 31" using Suc.prems(2) n0 by (simp add: timer_ok_def window_def)
    with True have duet: "hkey b ?h 0 \<le> 1" using time_after_due [of b "hexp ?h 0" now] now by simp
    from timer_delete_locked_spec [OF Suc.prems(2) f(1)] obtain h where h: "timer_delete_locked ?t ?h = Ok h"
      "timer_ok b h" "active h = active ?h - {?t}" "same_times ?h h" "hn h = hn ?h - 1"
      by blast
    let ?w = "tm_thread (timers ?h ?t)"
    have irq: "irq_inv (s\<lparr>tctx := h\<rparr>)" using Suc.prems(1) by simp
    from irq_wake_up [OF irq, of ?w] obtain s1 where s1: "wake_up ?w (s\<lparr>tctx := h\<rparr>) = Ok s1" "irq_inv s1"
      "pthread_next s1 = None" "woken {?w} (s\<lparr>tctx := h\<rparr>) s1" "tctx s1 = h"
      by auto
    have step: "timer_expire (Suc n) now s = timer_expire n now s1"
      using True h(1,4) s1(1) by (subst timer_expire.simps) (simp add: Let_def sched_timeout_def same_times_def)
    have "timer_ok b (tctx s1)" "hn (tctx s1) \<le> n" using h(2,5) s1(5) Suc.prems(3) by auto
    from Suc.IH [OF s1(2) this] s1(3,5) obtain s' where s': "timer_expire n now s1 = Ok s'" "irq_inv s'"
      "woken (due_threads b 1 h) s1 s'" "timer_ok b (tctx s')" "same_times h (tctx s')"
      "active (tctx s') = {t \<in> active h. 1 < due b (expires (timers h t))}"
      "pthread_next s' = None"
      by (auto split: if_splits)
    have fired: "due_threads b 1 ?h = insert ?w (due_threads b 1 h)"
      using h(3,4) f(1) duet by (auto simp: due_threads_def same_times_def)
    have "woken {?w} s s1" using s1(4) by (simp add: woken_def)
    from woken_trans [OF this s'(3)] fired have "woken (due_threads b 1 ?h) s s'" by simp
    moreover have "active (tctx s') = {t \<in> active ?h. 1 < due b (expires (timers ?h t))}"
      using s'(6) h(3,4) duet by (auto simp: same_times_def)
    moreover have "same_times ?h (tctx s')" using h(4) s'(5) by (simp add: same_times_def)
    ultimately show ?thesis using s'(1,2,4,7) step fired by auto
  qed
qed

section \<open>The timer interrupt\<close>

lemma kinv_irq: "kinv s \<Longrightarrow> irq_inv (s\<lparr>in_irq := True\<rparr>)"
proof -
  assume a: "kinv s"
  have "sched_pre (s\<lparr>in_irq := True\<rparr>) = sched_pre s" by (rule sched_cong) simp_all
  with kinvD [OF a] show ?thesis
    by (simp add: irq_inv_def ksched_def prios_ok_def mx_inv_def mx_owned_def mx_waits_def wake_ok_def)
qed

text \<open>Leaving the interrupt: either nothing was requested and the current thread goes on, or the scheduler runs.\<close>

lemma kpre_isr_exit:
  assumes "kpre s" and "pthread_next s = None"
  shows "\<exists>s'. isr_exit s = Ok s' \<and> kinv s' \<and> sched_done s' \<and> sched_frame s s'"
proof -
  from isr_exit_spec [of s] assms obtain s' where s': "isr_exit s = Ok s'" "sched_done s'" "sched_frame s s'"
    by (auto simp: kpre_def ksched_def)
  then have "sched_inv s'" "top_prio s' (pthread_current s')" "pthread_next s' = Some (pthread_current s')"
    by (auto simp: sched_done_def)
  with assms(1) mx_inv_sched [OF s'(3)] s'(3) have "kinv s'"
    by (auto simp: kinv_def kpre_def ksched_def sched_inv_def sched_pre_def top_prio_def prios_ok_def sched_frameD)
  with s' show ?thesis by blast
qed

lemma irq_exit:
  assumes "irq_inv s"
  shows "\<exists>s'. isr_exit (s\<lparr>in_irq := False\<rparr>) = Ok s' \<and> kinv s' \<and> sched_frame (s\<lparr>in_irq := False\<rparr>) s' \<and>
    (if pthread_next s = None then sched_done s' else pthread_current s' = pthread_current s)"
proof -
  let ?s = "s\<lparr>in_irq := False\<rparr>"
  have sp: "sched_pre ?s = sched_pre s" by (rule sched_cong) simp_all
  have mx: "mx_inv ?s = mx_inv s" by (simp add: mx_inv_def mx_owned_def mx_waits_def wake_ok_def)
  have kp: "kpre ?s" using assms sp mx by (simp add: irq_inv_def kpre_def ksched_def prios_ok_def)
  show ?thesis
  proof (cases "pthread_next s")
    case None
    with kpre_isr_exit [OF kp] show ?thesis by auto
  next
    case (Some n)
    with assms have "pthread_next ?s = Some (pthread_current ?s)" by (auto simp: irq_inv_def)
    with kp assms Some show ?thesis by (auto simp: isr_exit_def kinv_def irq_inv_def)
  qed
qed

lemma irq_inv_fields:
  "irq_inv (s\<lparr>ticks := a\<rparr>) = irq_inv s" "irq_inv (s\<lparr>wall_tv := w\<rparr>) = irq_inv s" "irq_inv (s\<lparr>monotonic_clock := m\<rparr>) = irq_inv s"
  "irq_inv (upd_th t (stime_update f) s) = irq_inv s" "irq_inv (upd_th t (timeslice_update g) s) = irq_inv s"
proof -
  have sp: "sched_pre (s\<lparr>ticks := a\<rparr>) = sched_pre s" "sched_pre (s\<lparr>wall_tv := w\<rparr>) = sched_pre s"
    "sched_pre (s\<lparr>monotonic_clock := m\<rparr>) = sched_pre s"
    "sched_pre (upd_th t (stime_update f) s) = sched_pre s" "sched_pre (upd_th t (timeslice_update g) s) = sched_pre s"
    by (rule sched_cong; simp)+
  show "irq_inv (s\<lparr>ticks := a\<rparr>) = irq_inv s" "irq_inv (s\<lparr>wall_tv := w\<rparr>) = irq_inv s" "irq_inv (s\<lparr>monotonic_clock := m\<rparr>) = irq_inv s"
    using sp by (simp_all add: irq_inv_def prios_ok_def mx_inv_def mx_owned_def mx_waits_def wake_ok_def)
  have mx: "mx_inv (upd_th t (stime_update f) s) = mx_inv s" "mx_inv (upd_th t (timeslice_update g) s) = mx_inv s"
    by (auto simp: mx_inv_def mx_owned_def mx_waits_def wake_ok_def)
  have po: "prios_ok (upd_th t (stime_update f) s) = prios_ok s" "prios_ok (upd_th t (timeslice_update g) s) = prios_ok s"
    by (auto simp: prios_ok_def)
  show "irq_inv (upd_th t (stime_update f) s) = irq_inv s" "irq_inv (upd_th t (timeslice_update g) s) = irq_inv s"
    using sp mx po by (auto simp: irq_inv_def)
qed

lemma irq_request: "irq_inv s \<Longrightarrow> irq_inv (s\<lparr>pthread_next := None\<rparr>)"
proof -
  assume a: "irq_inv s"
  have "sched_pre (s\<lparr>pthread_next := None\<rparr>) = sched_pre s" by (rule sched_cong) simp_all
  with a show ?thesis by (simp add: irq_inv_def prios_ok_def mx_inv_def mx_owned_def mx_waits_def wake_ok_def)
qed

text \<open>What a tick leaves alone.\<close>

definition tick_frame :: "'a tkernel_scheme \<Rightarrow> 'a tkernel_scheme \<Rightarrow> bool" where
  "tick_frame s s' \<longleftrightarrow>
     (\<forall>t. sleep_on (threads s' t) = sleep_on (threads s t) \<and> waiter (threads s' t) = waiter (threads s t) \<and>
        mutex_queue (threads s' t) = mutex_queue (threads s t)) \<and>
     mutexes s' = mutexes s \<and> conds s' = conds s \<and> tkernel.more s' = tkernel.more s"

text \<open>
  One tick.  Every timer that is due has been removed and its thread made runnable, no other timer
  or state is touched, and the kernel invariant holds again when the interrupt returns.
\<close>

lemma timer_interrupt_spec:
  assumes "kinv s" and "timer_ok (ticks s) (tctx s)"
  shows "\<exists>s'. timer_interrupt s = Ok s' \<and> kinv s' \<and> ticks s' = ticks s + 1 \<and> timer_ok (ticks s') (tctx s') \<and>
    same_times (tctx s) (tctx s') \<and>
    active (tctx s') = {t \<in> active (tctx s). 1 < due (ticks s) (expires (timers (tctx s) t))} \<and>
    (\<forall>t. thstate s' t = (if t \<in> due_threads (ticks s) 1 (tctx s) then PTHREAD_STATE_RUNNING else thstate s t)) \<and>
    (due_threads (ticks s) 1 (tctx s) \<noteq> {} \<or> timeslice (threads s (pthread_current s)) = 1 \<longrightarrow> sched_done s') \<and>
    tick_frame s s'"
proof -
  let ?b = "ticks s" and ?c = "pthread_current s"
  define s1 where "s1 = upd_th ?c (stime_update update_timeval)
    (s\<lparr>in_irq := True, ticks := ?b + 1, wall_tv := update_timeval (wall_tv s), monotonic_clock := update_timeval (monotonic_clock s)\<rparr>)"
  have s1: "irq_inv s1" "tctx s1 = tctx s" "ticks s1 = ?b + 1" "pthread_current s1 = ?c" "\<And>t. thstate s1 t = thstate s t"
    "pthread_next s1 = Some ?c"
    using kinv_irq [OF assms(1)] kinvD(9) [OF assms(1)] by (simp_all add: s1_def irq_inv_fields)
  from timer_expire_spec [OF s1(1) _ order_refl refl, of ?b] assms(2) s1(2) obtain s2 where
    s2: "timer_expire (hn (tctx s1)) (?b + 1) s1 = Ok s2" "irq_inv s2" "woken (due_threads ?b 1 (tctx s)) s1 s2"
    "timer_ok ?b (tctx s2)" "same_times (tctx s) (tctx s2)"
    "active (tctx s2) = {t \<in> active (tctx s). 1 < due ?b (expires (timers (tctx s) t))}"
    "if due_threads ?b 1 (tctx s) = {} then s2 = s1 else pthread_next s2 = None"
    by auto
  from s2(3) s1 have f2: "pthread_current s2 = ?c" "ticks s2 = ?b + 1" by (auto simp: woken_def)
  have st2: "thstate s2 t = (if t \<in> due_threads ?b 1 (tctx s) then PTHREAD_STATE_RUNNING else thstate s t)" for t
    using s2(3) s1(5) th_core_fields(1) [of "threads s2 t"] by (fastforce simp: woken_def)
  let ?d = "upd_th ?c (timeslice_update (\<lambda>x. x - 1)) s2"
  define s3 where "s3 = (if timeslice (threads ?d ?c) = 0 then ?d\<lparr>pthread_next := None\<rparr> else ?d)"
  have upd: "timer_update (s\<lparr>in_irq := True\<rparr>) = Ok s3"
    using s2(1) f2(1) s1(2) by (simp add: timer_update_def Let_def s1_def s3_def)
  have i3: "irq_inv s3" using s2(2) irq_request [of ?d] by (simp add: s3_def irq_inv_fields)
  from irq_exit [OF i3] obtain s' where s': "isr_exit (s3\<lparr>in_irq := False\<rparr>) = Ok s'" "kinv s'"
    "sched_frame (s3\<lparr>in_irq := False\<rparr>) s'" "pthread_next s3 = None \<Longrightarrow> sched_done s'"
    by (auto split: if_splits)
  have m3: "tctx s3 = tctx s2" "ticks s3 = ?b + 1" "\<And>t. thstate s3 t = thstate s2 t"
    using f2(2) by (auto simp: s3_def)
  have "kernel.more s' = kernel.more s3" using sched_frameD(14) [OF s'(3)] by simp
  note m = more_tkernel [OF this]
  have "timer_ok (?b + of_nat 1) (tctx s2)"
    by (rule timer_ok_shift [OF s2(4)]) (use s2(5,6) in \<open>auto simp: same_times_def\<close>)
  then have "timer_ok (ticks s') (tctx s')" using m m3 by simp
  moreover have "thstate s' t = thstate s2 t" for t using sched_frameD(1) [OF s'(3), of t] m3(3) by simp
  moreover have "pthread_next s3 = None" if "due_threads ?b 1 (tctx s) \<noteq> {} \<or> timeslice (threads s ?c) = 1"
  proof (cases "due_threads ?b 1 (tctx s) = {}")
    case False
    with s2(7) show ?thesis by (simp add: s3_def)
  next
    case True
    with s2(7) that have "timeslice (threads s2 ?c) = 1" by (simp add: s1_def)
    then show ?thesis by (simp add: s3_def)
  qed
  moreover have "tick_frame s s'"
  proof -
    have "sleep_on (threads s2 t) = sleep_on (threads s1 t) \<and> waiter (threads s2 t) = waiter (threads s1 t) \<and>
        mutex_queue (threads s2 t) = mutex_queue (threads s1 t)" for t
      using s2(3) th_core_fields(5-7) [of "threads s2 t"]
      by (cases "t \<in> due_threads ?b 1 (tctx s)") (fastforce simp: woken_def)+
    moreover have "mutexes s2 = mutexes s" "conds s2 = conds s" "tkernel.more s2 = tkernel.more s"
      using s2(3) by (simp_all add: woken_def s1_def upd_th_def)
    ultimately show ?thesis
      using sched_frameD(5-7,11,12) [OF s'(3)] m(6)
      by (auto simp: tick_frame_def s3_def s1_def upd_th_def)
  qed
  ultimately show ?thesis
    using s'(1,2,4) upd m m3 s2(5,6) st2 by (auto simp: timer_interrupt_def)
qed

text \<open>
  A tick that arrives while the current thread has marked itself as sleeping and has not armed its timer: when its time slice ends
  there, the thread is switched away with no timer.
\<close>

lemma kpre_fields:
  "kpre (s\<lparr>ticks := a, wall_tv := w, monotonic_clock := m, pthread_next := n\<rparr>) = kpre s"
  "kpre (upd_th t (stime_update f) s) = kpre s" "kpre (upd_th t (timeslice_update g) s) = kpre s"
proof -
  have sp: "sched_pre (s\<lparr>ticks := a, wall_tv := w, monotonic_clock := m, pthread_next := n\<rparr>) = sched_pre s"
    "sched_pre (upd_th t (stime_update f) s) = sched_pre s" "sched_pre (upd_th t (timeslice_update g) s) = sched_pre s"
    by (rule sched_cong; simp)+
  show "kpre (s\<lparr>ticks := a, wall_tv := w, monotonic_clock := m, pthread_next := n\<rparr>) = kpre s"
    using sp(1) by (simp add: kpre_def ksched_def prios_ok_def mx_inv_def mx_owned_def mx_waits_def wake_ok_def)
  have "mx_inv (upd_th t (stime_update f) s) = mx_inv s" "mx_inv (upd_th t (timeslice_update g) s) = mx_inv s"
    by (auto simp: mx_inv_def mx_owned_def mx_waits_def wake_ok_def)
  then show "kpre (upd_th t (stime_update f) s) = kpre s" "kpre (upd_th t (timeslice_update g) s) = kpre s"
    using sp(2,3) by (auto simp: kpre_def ksched_def prios_ok_def)
qed

lemma timer_expire_idle:
  assumes "timer_ok b (tctx s)" and "due_threads b 1 (tctx s) = {}"
  shows "timer_expire n (b + 1) s = Ok s"
proof (cases "hn (tctx s) > 0")
  case True
  have "1 < hkey b (tctx s) 0" using timer_first(1) [OF assms(1) True] assms(2) by (force simp: due_threads_def not_le [symmetric])
  moreover have "hkey b (tctx s) 0 < 2 ^ 31" using assms(1) True by (simp add: timer_ok_def window_def)
  ultimately have "time_after (hexp (tctx s) 0) (b + 1)" using time_after_due [of b "hexp (tctx s) 0" "b + 1"] by (simp add: due_def)
  then show ?thesis by (subst timer_expire.simps) simp
qed (subst timer_expire.simps, simp)

lemma tick_in_gap:
  assumes "kinv s" and "pthread_current s = c" and "c \<noteq> pthread_idle" and "sleep_on (threads s c) = None"
    and "timer_ok (ticks s) (tctx s)" and "due_threads (ticks s) 1 (tctx s) = {}" and "timeslice (threads s c) = 1"
  shows "\<exists>s'. timer_interrupt (set_state c PTHREAD_STATE_SLEEPING s) = Ok s' \<and> kinv s' \<and> sched_done s' \<and>
    thstate s' c = PTHREAD_STATE_SLEEPING \<and> tctx s' = tctx s \<and> ticks s' = ticks s + 1 \<and> timer_ok (ticks s') (tctx s')"
proof -
  let ?z = "set_state c PTHREAD_STATE_SLEEPING s"
  let ?u = "upd_th c (timeslice_update (\<lambda>x. x - 1)) (upd_th c (stime_update update_timeval)
    (?z\<lparr>ticks := ticks s + 1, wall_tv := update_timeval (wall_tv s), monotonic_clock := update_timeval (monotonic_clock s),
       pthread_next := None\<rparr>))"
  have "kpre ?z" by (rule kpre_block [OF assms(1)]) (use assms(2-4) in auto)
  then have k: "kpre ?u" by (simp only: kpre_fields)
  let ?e = "upd_th c (stime_update update_timeval)
    (?z\<lparr>in_irq := True, ticks := ticks s + 1, wall_tv := update_timeval (wall_tv s), monotonic_clock := update_timeval (monotonic_clock s)\<rparr>)"
  have e: "timer_expire n (ticks s + 1) ?e = Ok ?e" for n
    by (rule timer_expire_idle) (use assms(5,6) in simp_all)
  have irq: "in_irq s = False" using kinvD(5) [OF assms(1)] by simp
  have u: "timer_update (?z\<lparr>in_irq := True\<rparr>) = Ok (?u\<lparr>in_irq := True\<rparr>)"
    using assms(2,7) e by (simp add: timer_update_def Let_def upd_th_def)
  have "?u\<lparr>in_irq := True, in_irq := False\<rparr> = ?u" using irq by (simp add: upd_th_def)
  with u have "timer_interrupt ?z = isr_exit ?u" by (simp add: timer_interrupt_def)
  moreover from kpre_isr_exit [OF k] obtain s' where s': "isr_exit ?u = Ok s'" "kinv s'" "sched_done s'" "sched_frame ?u s'"
    by auto
  moreover have "kernel.more s' = kernel.more ?u" using sched_frameD(14) [OF s'(4)] .
  note m = more_tkernel [OF this]
  have lt: "1 < due (ticks s) (expires (timers (tctx s) t))" if "t \<in> active (tctx s)" for t
    using assms(6) that by (auto simp: due_threads_def not_le [symmetric])
  have "timer_ok (ticks s + of_nat 1) (tctx s)"
    by (rule timer_ok_shift [OF assms(5)]) (simp, rule less_imp_le [OF lt])
  ultimately show ?thesis using sched_frameD(1) [OF s'(4), of c] m by simp
qed

text \<open>A tick without a timer that is due, before the last one of the time slice: the current thread goes on.\<close>

lemma tick_counts:
  fixes s :: "'a tkernel_scheme"
  assumes "kinv s" and "pthread_current s = c" and "timer_ok (ticks s) (tctx s)" and "due_threads (ticks s) 1 (tctx s) = {}"
    and "timeslice (threads s c) \<noteq> 1"
  shows "\<exists>s'. timer_interrupt s = Ok s' \<and> pthread_current s' = c \<and> timeslice (threads s' c) = timeslice (threads s c) - 1 \<and>
    tctx s' = tctx s"
proof -
  let ?e = "upd_th c (stime_update update_timeval)
    (s\<lparr>in_irq := True, ticks := ticks s + 1, wall_tv := update_timeval (wall_tv s), monotonic_clock := update_timeval (monotonic_clock s)\<rparr>)"
  have e: "timer_expire n (ticks s + 1) ?e = Ok ?e" for n
    by (rule timer_expire_idle) (use assms(3,4) in simp_all)
  have u: "timer_update (s\<lparr>in_irq := True\<rparr>) = Ok (upd_th c (timeslice_update (\<lambda>x. x - 1)) ?e)"
    using assms(2,5) e by (simp add: timer_update_def Let_def)
  show ?thesis
    using kinvD(9) [OF assms(1)] assms(2) by (simp add: timer_interrupt_def u isr_exit_def)
qed

section \<open>A timeout is neither early nor late\<close>

fun run_ticks :: "nat \<Rightarrow> 'a tkernel_scheme \<Rightarrow> 'a tkernel_scheme result" where
  "run_ticks 0 s = Ok s"
| "run_ticks (Suc n) s = rbind (timer_interrupt s) (run_ticks n)"

lemma run_ticks_before:
  assumes "kinv s" and "timer_ok (ticks s) (tctx s)" and "t \<in> active (tctx s)"
    and "n < due (ticks s) (expires (timers (tctx s) t))"
  shows "\<exists>s'. run_ticks n s = Ok s' \<and> kinv s' \<and> timer_ok (ticks s') (tctx s') \<and> t \<in> active (tctx s') \<and>
    ticks s' = ticks s + of_nat n \<and> expires (timers (tctx s') t) = expires (timers (tctx s) t) \<and>
    tm_thread (timers (tctx s') t) = tm_thread (timers (tctx s) t)"
  using assms
proof (induction n arbitrary: s)
  case (Suc n)
  from timer_interrupt_spec [OF Suc.prems(1,2)] obtain s1 where s1: "timer_interrupt s = Ok s1" "kinv s1"
    "ticks s1 = ticks s + 1" "timer_ok (ticks s1) (tctx s1)" "same_times (tctx s) (tctx s1)"
    "active (tctx s1) = {t \<in> active (tctx s). 1 < due (ticks s) (expires (timers (tctx s) t))}"
    by blast
  have act: "t \<in> active (tctx s1)" using s1(6) Suc.prems(3,4) by simp
  have "due (ticks s + of_nat 1) (expires (timers (tctx s) t)) = due (ticks s) (expires (timers (tctx s) t)) - 1"
    by (rule due_shift) (use Suc.prems(4) in auto)
  then have "n < due (ticks s1) (expires (timers (tctx s1) t))"
    using s1(3,5) Suc.prems(4) by (simp add: same_times_def)
  from Suc.IH [OF s1(2,4) act this] s1(1,3,5) show ?case
    by (auto simp: same_times_def algebra_simps)
qed auto

lemma run_ticks_fires:
  assumes "kinv s" and "timer_ok (ticks s) (tctx s)" and "t \<in> active (tctx s)"
    and "due (ticks s) (expires (timers (tctx s) t)) = Suc n"
  shows "\<exists>s' s''. run_ticks n s = Ok s' \<and> t \<in> active (tctx s') \<and> timer_interrupt s' = Ok s'' \<and>
    t \<notin> active (tctx s'') \<and> thstate s'' (tm_thread (timers (tctx s) t)) = PTHREAD_STATE_RUNNING \<and>
    kinv s'' \<and> sched_done s''"
proof -
  let ?e = "expires (timers (tctx s) t)"
  from run_ticks_before [OF assms(1-3), of n] assms(4) obtain s' where s': "run_ticks n s = Ok s'" "kinv s'"
    "timer_ok (ticks s') (tctx s')" "t \<in> active (tctx s')" "ticks s' = ticks s + of_nat n"
    "expires (timers (tctx s') t) = ?e" "tm_thread (timers (tctx s') t) = tm_thread (timers (tctx s) t)"
    by auto
  have "due (ticks s) ?e < 2 ^ 31" using assms(2,3) by (simp add: timer_ok_def window_active)
  then have "due (ticks s') ?e = 1" using due_shift [of n "ticks s" ?e] assms(4) s'(5) by simp
  then have d: "tm_thread (timers (tctx s) t) \<in> due_threads (ticks s') 1 (tctx s')"
    using s'(4,6,7) unfolding due_threads_def by force
  from timer_interrupt_spec [OF s'(2,3)] obtain s'' where s'': "timer_interrupt s' = Ok s''" "kinv s''"
    "active (tctx s'') = {t \<in> active (tctx s'). 1 < due (ticks s') (expires (timers (tctx s') t))}"
    "\<And>t. thstate s'' t = (if t \<in> due_threads (ticks s') 1 (tctx s') then PTHREAD_STATE_RUNNING else thstate s' t)"
    "due_threads (ticks s') 1 (tctx s') \<noteq> {} \<longrightarrow> sched_done s''"
    by blast
  with d s'(1,4,6) \<open>due (ticks s') ?e = 1\<close> show ?thesis by auto
qed

text \<open>Arming the timer and giving up the processor.\<close>

lemma timer_ok_new:
  assumes "timer_ok b h" and "t \<notin> active h"
    and new: "h' = h\<lparr>timers := (timers h)(t := (timers h t)\<lparr>expires := e, tm_thread := w\<rparr>)\<rparr>"
  shows "timer_ok b h'" and "active h' = active h"
proof -
  let ?h = "h\<lparr>timers := (timers h)(t := (timers h t)\<lparr>expires := e, tm_thread := w\<rparr>)\<rparr>"
  have ne: "heap h i \<noteq> t" if "i < hn h" for i using assms(2) that by (auto simp: active_def)
  have k: "hkey b ?h i = hkey b h i" if "i < hn h" for i using ne [OF that] by simp
  have act: "active ?h = active h" by (simp add: active_def)
  have "heap_ordered b ?h"
    using assms(1) k parent_less by (auto simp: timer_ok_def heap_ordered_def ordered_def ne)
  moreover have "idx_ok ?h" "window b ?h" using assms(1) ne by (auto simp: timer_ok_def idx_ok_def window_def)
  ultimately show "timer_ok b h'" "active h' = active h" using assms act by (auto simp: timer_ok_def)
qed

lemma kpre_tctx [simp]: "kpre (s\<lparr>tctx := h\<rparr>) = kpre s" "kinv (s\<lparr>tctx := h\<rparr>) = kinv s"
proof -
  have "sched_pre (s\<lparr>tctx := h\<rparr>) = sched_pre s" by (rule sched_cong) simp_all
  then show "kpre (s\<lparr>tctx := h\<rparr>) = kpre s" "kinv (s\<lparr>tctx := h\<rparr>) = kinv s"
    by (simp_all add: kinv_def kpre_def ksched_def prios_ok_def mx_inv_def mx_owned_def mx_waits_def wake_ok_def)
qed

lemma schedule_timeout_begin_spec:
  assumes "kpre s" and "pthread_current s = c" and "timer_ok (ticks s) (tctx s)" and "c \<notin> active (tctx s)"
    and "hn (tctx s) < CONFIG_TIMER_MAX_NUM" and "unat timeout < 2 ^ 31"
  shows "\<exists>s'. schedule_timeout_begin timeout s = Ok s' \<and> kinv s' \<and> sched_done s' \<and> ticks s' = ticks s \<and>
    timer_ok (ticks s') (tctx s') \<and> active (tctx s') = insert c (active (tctx s)) \<and>
    due (ticks s') (expires (timers (tctx s') c)) = unat timeout \<and> tm_thread (timers (tctx s') c) = c \<and>
    (\<forall>t. thstate s' t = thstate s t)"
proof -
  let ?h = "(tctx s)\<lparr>timers := (timers (tctx s))(c := (timers (tctx s) c)\<lparr>expires := ticks s + timeout, tm_thread := c\<rparr>)\<rparr>"
  note new = timer_ok_new [OF assms(3,4) refl]
  have d: "due (ticks s) (ticks s + timeout) = unat timeout" by (simp add: due_def)
  have "\<exists>h'. timer_add c ?h = Ok h' \<and> timer_ok (ticks s) h' \<and> active h' = insert c (active ?h) \<and> same_times ?h h' \<and> hn h' = hn ?h + 1"
    by (rule timer_add_spec [OF new(1)]) (use assms(4-6) new(2) d in auto)
  then obtain h' where h': "timer_add c ?h = Ok h'" "timer_ok (ticks s) h'" "active h' = insert c (active (tctx s))" "same_times ?h h'"
    using new(2) by auto
  have "kpre (s\<lparr>tctx := h'\<rparr>)" using assms(1) by simp
  from kinv_schedule [OF this] obtain s' where s': "schedule (s\<lparr>tctx := h'\<rparr>) = Ok s'" "kinv s'" "sched_done s'"
    "sched_frame (s\<lparr>tctx := h'\<rparr>) s'"
    by blast
  have "kernel.more s' = kernel.more (s\<lparr>tctx := h'\<rparr>)" by (rule sched_frameD(14) [OF s'(4)])
  note m = more_tkernel [OF this]
  have "\<not> in_irq s" using assms(1) by (simp add: kpre_def ksched_def)
  then have "schedule_timeout_begin timeout s = Ok s'"
    using h'(1) s'(1) assms(2) by (simp add: schedule_timeout_begin_def Let_def)
  moreover have "thstate s' t = thstate s t" for t using sched_frameD(1) [OF s'(4)] by simp
  moreover have "expires (timers h' c) = ticks s + timeout" "tm_thread (timers h' c) = c"
    using h'(4) by (simp_all add: same_times_def)
  ultimately show ?thesis using s'(2,3) h'(2,3) m d by simp
qed

lemma schedule_timeout_end_spec:
  assumes "kinv s" and "pthread_current s = c" and "timer_ok (ticks s) (tctx s)"
  shows "\<exists>s'. schedule_timeout_end s = Ok (sint (expires (timers (tctx s) c) - ticks s), s') \<and> kinv s' \<and>
    pthread_current s' = c \<and> timer_ok (ticks s') (tctx s') \<and> active (tctx s') = active (tctx s) - {c}"
proof -
  from timer_delete_spec [OF assms(3), of c] obtain h where h: "timer_delete c (tctx s) = Ok h" "timer_ok (ticks s) h"
    "active h = active (tctx s) - {c}" "same_times (tctx s) h"
    by blast
  with assms show ?thesis by (simp add: schedule_timeout_end_def Let_def same_times_def)
qed

section \<open>The clocks\<close>

definition usecs :: "timeval \<Rightarrow> int" where
  "usecs tv = tv_sec tv * USECS_PER_SEC + tv_usec tv"

lemma update_timeval_advance: "usecs (update_timeval tv) = usecs tv + 10000"
  by (simp add: usecs_def update_timeval_def Let_def USECS_PER_SEC_def CONFIG_HZ_def)

lemma update_timeval_range:
  "0 \<le> tv_usec tv \<Longrightarrow> tv_usec tv \<le> USECS_PER_SEC \<Longrightarrow>
   0 \<le> tv_usec (update_timeval tv) \<and> tv_usec (update_timeval tv) \<le> USECS_PER_SEC"
  by (simp add: less_imp_le update_timeval_def Let_def USECS_PER_SEC_def CONFIG_HZ_def)

text \<open>The bound is attained: a clock can show a full second of microseconds without having carried it.\<close>

lemma update_timeval_no_carry:
  "update_timeval \<lparr>tv_sec = n, tv_usec = 990000\<rparr> = \<lparr>tv_sec = n, tv_usec = USECS_PER_SEC\<rparr>"
  by (simp add: update_timeval_def USECS_PER_SEC_def CONFIG_HZ_def)

end
