(* ===== verification/Cond.thy ===== *)
theory Cond
  imports Timer
begin

text \<open>
  The condition variables of \<open>kernel/pthread.c\<close>.  An entry of \<open>cond_wq\<close> is a \<open>struct wait\<close> on the stack of
  the waiting thread and is named by it; \<open>TAILQ_ENTRY_EMPTY (&w.link)\<close> holds exactly when the thread is no longer
  on the queue.

  \<open>pthread_cond_timedwait\<close> gives up the processor in up to three places and is cut there:
  \<open>cond_wait_begin\<close> runs up to the call of \<open>pthread_mutex_unlock\<close> included (whose \<open>schedule\<close> switches away),
  \<open>cond_wait_block\<close> the part between unlocking and locking, \<open>cond_wait_timed_end\<close> the return from
  \<open>schedule_timeout\<close>; then comes \<open>pthread_mutex_lock\<close>, and \<open>cond_wait_finish\<close> takes the entry off the queue.
\<close>

section \<open>Operations\<close>

definition pthread_cond_init :: "cid \<Rightarrow> 'a kernel_scheme \<Rightarrow> 'a kernel_scheme" where
  "pthread_cond_init c s = upd_cv c (cond_wq_update (\<lambda>_. [])) s"

definition pthread_cond_destroy :: "cid \<Rightarrow> 'a kernel_scheme \<Rightarrow> 'a kernel_scheme" where
  "pthread_cond_destroy c s = s"

definition pthread_cond_signal :: "cid \<Rightarrow> 'a kernel_scheme \<Rightarrow> 'a kernel_scheme result" where
  "pthread_cond_signal c s =
     (case wake_target s (cond_wq (conds s c)) of
        None \<Rightarrow> Ok s
      | Some t \<Rightarrow>
         rbind (tq_remove t (cond_wq (conds s c))) (\<lambda>q.
           wake_up t (upd_cv c (cond_wq_update (\<lambda>_. q)) s)))"

fun cond_wake_all :: "cid \<Rightarrow> tid list \<Rightarrow> 'a kernel_scheme \<Rightarrow> 'a kernel_scheme result" where
  "cond_wake_all c [] s = Ok s"
| "cond_wake_all c (w # ws) s =
     rbind (pthread_set_running w (upd_cv c (cond_wq_update (\<lambda>_. ws)) s)) (cond_wake_all c ws)"

definition pthread_cond_broadcast :: "cid \<Rightarrow> 'a kernel_scheme \<Rightarrow> 'a kernel_scheme result" where
  "pthread_cond_broadcast c s =
     (if cond_wq (conds s c) \<noteq> [] then rbind (cond_wake_all c (cond_wq (conds s c)) s) schedule else Ok s)"

definition cond_wait_begin :: "cid \<Rightarrow> mid \<Rightarrow> 'a kernel_scheme \<Rightarrow> 'a kernel_scheme result" where
  "cond_wait_begin c m s =
     (let cur = pthread_current s;
          s = upd_cv c (cond_wq_update (\<lambda>q. q @ [cur])) s;
          s = set_state cur PTHREAD_STATE_SLEEPING s
      in pthread_mutex_unlock m s)"

text \<open>The number of ticks to \<open>abstime\<close>, at least one; \<open>None\<close> when it has passed.\<close>

definition NSECS_PER_TICK :: int where "NSECS_PER_TICK = 10000000"

definition timedwait_delta :: "timespec \<Rightarrow> timespec \<Rightarrow> u32 option" where
  "timedwait_delta abstime now =
     (if ts_sec abstime > ts_sec now \<or> ts_sec abstime = ts_sec now \<and> ts_nsec abstime > ts_nsec now then
        (let delta = word_of_int ((ts_sec abstime - ts_sec now) * int CONFIG_HZ +
                                  cdiv (ts_nsec abstime - ts_nsec now) NSECS_PER_TICK) :: u32
         in Some (if delta = 0 then 1 else delta))
      else None)"

text \<open>
  What the thread does next: it called \<open>schedule\<close> or \<open>schedule_timeout\<close> and may be suspended there, or
  it goes on to lock the mutex with the result \<open>ETIMEDOUT\<close>.
\<close>

datatype wait_point = InSchedule | InScheduleTimeout | TimedOut

definition cond_wait_block :: "timespec option \<Rightarrow> 'a tkernel_scheme \<Rightarrow> (wait_point \<times> 'a tkernel_scheme) result" where
  "cond_wait_block abstime s =
     (case abstime of
        None \<Rightarrow> rbind (schedule s) (\<lambda>s. Ok (InSchedule, s))
      | Some at \<Rightarrow>
         (case clock_gettime CLOCK_REALTIME s of
            Inl _ \<Rightarrow> Fault Corrupt
          | Inr now \<Rightarrow>
             (case timedwait_delta at now of
                None \<Rightarrow> Ok (TimedOut, s)
              | Some delta \<Rightarrow> rbind (schedule_timeout_begin delta s) (\<lambda>s. Ok (InScheduleTimeout, s)))))"

definition cond_wait_timed_end :: "'a tkernel_scheme \<Rightarrow> (errno \<times> 'a tkernel_scheme) result" where
  "cond_wait_timed_end s =
     rbind (schedule_timeout_end s) (\<lambda>(r, s). Ok (if r \<le> 0 then ETIMEDOUT else E_OK, s))"

definition cond_wait_finish :: "cid \<Rightarrow> 'a kernel_scheme \<Rightarrow> 'a kernel_scheme" where
  "cond_wait_finish c s = upd_cv c (cond_wq_update (remove1 (pthread_current s))) s"

section \<open>Condition queues do not matter to the scheduler and the mutexes\<close>

lemma kinv_cv [simp]: "kpre (upd_cv c f s) = kpre s" "kinv (upd_cv c f s) = kinv s"
proof -
  have "sched_pre (upd_cv c f s) = sched_pre s" by (rule sched_cong) simp_all
  then show "kpre (upd_cv c f s) = kpre s" "kinv (upd_cv c f s) = kinv s"
    by (simp_all add: kinv_def kpre_def ksched_def prios_ok_def mx_inv_def mx_owned_def mx_waits_def wake_ok_def)
qed

lemma upd_cv_tkernel [simp]:
  "tctx (upd_cv c f s) = tctx s" "ticks (upd_cv c f s) = ticks s"
  by (simp_all add: upd_cv_def)

section \<open>Signalling\<close>

text \<open>\<open>pthread_cond_signal\<close> takes one waiter off the queue, one of the highest priority, and makes it runnable.\<close>

lemma cond_signal_spec:
  assumes "kinv s" and "wake_target s (cond_wq (conds s c)) = Some t"
  shows "\<exists>s'. pthread_cond_signal c s = Ok s' \<and> kinv s' \<and> sched_done s' \<and>
    cond_wq (conds s' c) = remove1 t (cond_wq (conds s c)) \<and>
    (\<forall>x. thstate s' x = (if x = t then PTHREAD_STATE_RUNNING else thstate s x))"
proof -
  let ?s = "upd_cv c (cond_wq_update (\<lambda>_. remove1 t (cond_wq (conds s c)))) s"
  have "kpre ?s" using kinvD(1) [OF assms(1)] by simp
  from kinv_wake_up [OF this, of t] obtain s' where s': "wake_up t ?s = Ok s'" "kinv s'" "sched_done s'"
    "sched_frame (set_state t PTHREAD_STATE_RUNNING ?s) s'"
    by blast
  with assms(2) wake_targetD [OF assms(2)] show ?thesis
    by (intro exI [of _ s']) (simp add: pthread_cond_signal_def tq_remove_def sched_frameD)
qed

lemma cond_signal_idle: "cond_wq (conds s c) = [] \<Longrightarrow> pthread_cond_signal c s = Ok s"
  by (simp add: pthread_cond_signal_def)

lemma cond_wake_all_spec:
  assumes "ksched s" and "mx_inv s" and "conds s c = \<lparr>cond_wq = ws\<rparr>"
  shows "\<exists>s'. cond_wake_all c ws s = Ok s' \<and> kpre s' \<and> cond_wq (conds s' c) = [] \<and>
    (\<forall>x. thstate s' x = (if x \<in> set ws then PTHREAD_STATE_RUNNING else thstate s x))"
  using assms
proof (induction ws arbitrary: s)
  case Nil
  then show ?case by (simp add: kpre_def)
next
  case (Cons w ws)
  let ?s = "upd_cv c (cond_wq_update (\<lambda>_. ws)) s"
  have k: "kpre ?s" using Cons.prems(1,2) by (simp add: kpre_def del: kinv_cv) (simp add: kinv_cv [unfolded kpre_def])
  then have "ksched ?s" "mx_inv ?s" by (simp_all add: kpre_def)
  from ksched_set_running [OF this(1), of w] obtain s1 where s1: "pthread_set_running w ?s = Ok s1" "ksched s1"
    "sched_frame (set_state w PTHREAD_STATE_RUNNING ?s) s1"
    by blast
  have "mx_inv s1" using mx_inv_sched [OF s1(3) mx_inv_wake [OF \<open>mx_inv ?s\<close>]] .
  moreover have "conds s1 c = \<lparr>cond_wq = ws\<rparr>" using sched_frameD(12) [OF s1(3)] by simp
  ultimately obtain s' where s': "cond_wake_all c ws s1 = Ok s'" "kpre s'" "cond_wq (conds s' c) = []"
    "\<And>x. thstate s' x = (if x \<in> set ws then PTHREAD_STATE_RUNNING else thstate s1 x)"
    using Cons.IH [OF s1(2)] by blast
  with s1(1) sched_frameD(1) [OF s1(3)] show ?case by auto
qed

lemma cond_broadcast_spec:
  assumes "kinv s"
  shows "\<exists>s'. pthread_cond_broadcast c s = Ok s' \<and> kinv s' \<and> cond_wq (conds s' c) = [] \<and>
    (\<forall>x. thstate s' x = (if x \<in> set (cond_wq (conds s c)) then PTHREAD_STATE_RUNNING else thstate s x))"
proof (cases "cond_wq (conds s c) = []")
  case False
  note k = kinvD [OF assms]
  have "conds s c = \<lparr>cond_wq = cond_wq (conds s c)\<rparr>" by simp
  from cond_wake_all_spec [OF k(2,4) this] obtain s1 where s1: "cond_wake_all c (cond_wq (conds s c)) s = Ok s1" "kpre s1"
    "cond_wq (conds s1 c) = []" "\<And>x. thstate s1 x = (if x \<in> set (cond_wq (conds s c)) then PTHREAD_STATE_RUNNING else thstate s x)"
    by blast
  from kinv_schedule [OF s1(2)] obtain s' where s': "schedule s1 = Ok s'" "kinv s'" "sched_frame s1 s'" by blast
  with False s1 show ?thesis
    by (intro exI [of _ s']) (simp add: pthread_cond_broadcast_def sched_frameD)
qed (use assms in \<open>simp add: pthread_cond_broadcast_def\<close>)

section \<open>Waiting\<close>

text \<open>
  The wait begins atomically: when another thread runs, the caller is on the condition's queue, asleep, and
  the mutex is free, so a signal sent under the mutex cannot be missed.
\<close>

lemma cond_wait_begin_spec:
  assumes "kinv s" and "pthread_current s = t" and "t \<noteq> pthread_idle" and "sleep_on (threads s t) = None"
    and "m \<in> set (mutex_queue (threads s t))" and "recursive_count (mutexes s m) = 1"
  shows "\<exists>s'. cond_wait_begin c m s = Ok s' \<and> kinv s' \<and> sched_done s' \<and> pthread_current s' \<noteq> t \<and>
    thstate s' t = PTHREAD_STATE_SLEEPING \<and> cond_wq (conds s' c) = cond_wq (conds s c) @ [t] \<and>
    owner (mutexes s' m) = None"
proof -
  let ?s = "set_state t PTHREAD_STATE_SLEEPING (upd_cv c (cond_wq_update (\<lambda>q. q @ [t])) s)"
  have "kinv (upd_cv c (cond_wq_update (\<lambda>q. q @ [t])) s)" using assms(1) by simp
  from kpre_block [OF this, of t PTHREAD_STATE_SLEEPING] assms(2-4) have k: "kpre ?s" by simp
  have "wake_chosen m ?s \<noteq> Some t"
  proof
    assume "wake_chosen m ?s = Some t"
    then have "t \<in> set (wq (mutexes s m))" by (auto simp: wake_chosen_def dest: wake_targetD split: if_splits)
    with mx_invD(4) [OF kinvD(4) [OF assms(1)]] assms(4) show False by simp
  qed
  moreover from mutex_unlock_spec [OF k, of m] assms(2,5,6) obtain s' where s': "pthread_mutex_unlock m ?s = Ok s'" "kinv s'"
    "sched_done s'" "owner (mutexes s' m) = None" "conds s' = conds ?s"
    "\<And>x. thstate s' x = (if wake_chosen m ?s = Some x then PTHREAD_STATE_RUNNING else thstate ?s x)"
    by auto
  ultimately have "thstate s' t = PTHREAD_STATE_SLEEPING" by simp
  moreover from this kinvD(7) [OF s'(2)] have "pthread_current s' \<noteq> t" by auto
  ultimately show ?thesis using s' assms(2) by (auto simp: cond_wait_begin_def Let_def)
qed

end
