(* ===== verification/Frame.thy ===== *)
theory Frame
  imports Cond
begin

text \<open>
  What each operation changes, whatever the state: rescheduling and priority inheritance change only
  links, time slices, effective priorities and the two thread pointers (\<open>sp_frame\<close>), so the result of an operation
  agrees up to \<open>sp_frame\<close> with an explicit effect on the threads, mutexes and condition queues.  The
  system-level invariants of theory \<open>Kernel\<close> are read off these effects.
\<close>

definition sp_frame :: "'a kernel_scheme \<Rightarrow> 'a kernel_scheme \<Rightarrow> bool" where
  "sp_frame s s' \<longleftrightarrow>
     (\<forall>t. th_base (threads s' t) = th_base (threads s t)) \<and>
     mutexes s' = mutexes s \<and> conds s' = conds s \<and> in_irq s' = in_irq s \<and> kernel.more s' = kernel.more s"

lemma sp_frameD:
  assumes "sp_frame s s'"
  shows "th_state (threads s' t) = th_state (threads s t)"
    "priority (threads s' t) = priority (threads s t)"
    "th_flags (threads s' t) = th_flags (threads s t)"
    "waiter (threads s' t) = waiter (threads s t)"
    "sleep_on (threads s' t) = sleep_on (threads s t)"
    "mutex_queue (threads s' t) = mutex_queue (threads s t)"
    "mutexes s' = mutexes s" "conds s' = conds s" "in_irq s' = in_irq s" "kernel.more s' = kernel.more s"
  using assms th_base_fields [of "threads s' t" "threads s t"] by (auto simp: sp_frame_def)

lemma sp_frame_refl [simp]: "sp_frame s s"
  by (simp add: sp_frame_def)

lemma sp_frame_trans: "sp_frame s t \<Longrightarrow> sp_frame t u \<Longrightarrow> sp_frame s u"
  by (simp add: sp_frame_def)

lemma sched_frame_sp: "sched_frame s s' \<Longrightarrow> sp_frame s s'"
proof -
  assume a: "sched_frame s s'"
  have "th_base (threads s' t) = th_base (threads s t)" for t
  proof -
    from a have "th_core (threads s' t) = th_core (threads s t)" by (simp add: sched_frame_def)
    then show ?thesis by (cases "threads s t"; cases "threads s' t") (simp add: th_core_def th_base_def)
  qed
  with a show ?thesis by (simp add: sp_frame_def sched_frame_def)
qed

lemma prio_frame_sp: "prio_frame s s' \<Longrightarrow> sp_frame s s'"
  by (simp add: prio_frame_def sp_frame_def)

section \<open>Scheduler and priorities\<close>

lemma enqueue_sp: "run_queue_enqueue t b s = Ok s' \<Longrightarrow> sp_frame s s'"
  by (rule sched_frame_sp) (rule enqueue_result(7))

lemma dequeue_sp: "run_queue_dequeue t s = Ok s' \<Longrightarrow> sp_frame s s'"
  by (rule sched_frame_sp) (rule dequeue_result(8))

lemma sp_frame_ptrs [simp]:
  "sp_frame s (s'\<lparr>pthread_current := c\<rparr>) = sp_frame s s'" "sp_frame s (s'\<lparr>pthread_next := n\<rparr>) = sp_frame s s'"
  by (simp_all add: sp_frame_def)

lemma schedule_locked_frame: "schedule_locked s = Ok s' \<Longrightarrow> sched_frame s s'"
proof -
  assume a: "schedule_locked s = Ok s'"
  then obtain s1 n where s': "s' = s1\<lparr>pthread_next := Some n\<rparr>"
    and c: "run_queue_dequeue (pthread_current s) s = Ok s1 \<or>
      (\<exists>d. run_queue_dequeue (pthread_current s) s = Ok d \<and> run_queue_enqueue (pthread_current s) False d = Ok s1) \<or> s1 = s"
    by (auto simp: schedule_locked_def Let_def result_simps split: if_splits)
  from c have "sched_frame s s1"
    using dequeue_result(8) enqueue_result(7) sched_frame_trans sched_frame_refl by metis
  with s' show ?thesis by (simp add: sched_frame_def)
qed

lemma schedule_frame: "schedule s = Ok s' \<Longrightarrow> sched_frame s s'"
proof -
  assume a: "schedule s = Ok s'"
  show ?thesis
  proof (cases "in_irq s")
    case True
    with a show ?thesis by (auto simp: schedule_def sched_frame_def)
  next
    case False
    with a obtain s1 where s1: "schedule_locked s = Ok s1" "s' = s1 \<or> arch_context_switch s1 = Ok s'"
      by (auto simp: schedule_def result_simps split: if_splits)
    from s1(2) have "s' = s1 \<or> (\<exists>n. s' = s1\<lparr>pthread_current := n\<rparr>)"
      by (auto simp: arch_context_switch_def split: option.splits)
    with schedule_locked_frame [OF s1(1)] show ?thesis by (auto simp: sched_frame_def)
  qed
qed

lemma schedule_sp: "schedule s = Ok s' \<Longrightarrow> sp_frame s s'"
  by (rule sched_frame_sp) (rule schedule_frame)

lemma set_running_sp: "pthread_set_running t s = Ok s' \<Longrightarrow> sp_frame (set_state t PTHREAD_STATE_RUNNING s) s'"
  by (auto simp: pthread_set_running_def Let_def dest: enqueue_sp split: if_splits)

lemma wake_up_sp: "wake_up t s = Ok s' \<Longrightarrow> sp_frame (set_state t PTHREAD_STATE_RUNNING s) s'"
  by (auto simp: wake_up_def result_simps dest!: set_running_sp schedule_sp intro: sp_frame_trans)

lemma sp_frame_eprio: "sp_frame (upd_th t (effective_priority_update f) s) s' = sp_frame s s'"
proof -
  have b: "th_base (effective_priority_update f a) = th_base a" for a by (cases a) (simp add: th_base_def)
  have "(\<forall>x. th_base (threads s' x) = th_base (threads (upd_th t (effective_priority_update f) s) x)) \<longleftrightarrow>
        (\<forall>x. th_base (threads s' x) = th_base (threads s x))"
    by (auto simp: b)
  then show ?thesis by (simp add: sp_frame_def)
qed

lemma sp_frame_state: "sp_frame s s' \<Longrightarrow> sp_frame (set_state t st s) (set_state t st s')"
proof -
  assume a: "sp_frame s s'"
  have upd: "th_base a = th_base b \<Longrightarrow> th_base (a\<lparr>th_state := st\<rparr>) = th_base (b\<lparr>th_state := st\<rparr>)" for a b
    by (cases a; cases b) (simp add: th_base_def)
  have "th_base (threads s' x) = th_base (threads s x)" for x using a by (simp add: sp_frame_def)
  with upd [OF this] have "th_base (threads (set_state t st s') x) = th_base (threads (set_state t st s) x)" for x
    by simp
  with a show ?thesis by (simp add: sp_frame_def)
qed

lemma spread_sp_both:
  "(\<forall>th (s :: 'a kernel_scheme) s'. pthread_spread n th s = Ok s' \<longrightarrow> sp_frame s s') \<and>
   (\<forall>th (s :: 'a kernel_scheme) s'. pthread_setschedprio_locked n th s = Ok s' \<longrightarrow> sp_frame s s')"
proof (induction n)
  case (Suc n)
  have "sp_frame s s'" if "pthread_spread (Suc n) th s = Ok s'" for th and s s' :: "'a kernel_scheme"
    using that Suc by (auto simp: result_simps split: option.splits) (metis sp_frame_trans)
  moreover have "sp_frame s s'" if a: "pthread_setschedprio_locked (Suc n) th s = Ok s'" for th and s s' :: "'a kernel_scheme"
  proof (cases "effective_priority (threads s th) = inherited s th")
    case False
    show ?thesis
    proof (cases "linked s th")
      case True
      with a False obtain d where d: "run_queue_dequeue th s = Ok d"
        "run_queue_enqueue th True (upd_th th (effective_priority_update (\<lambda>_. inherited s th)) d) = Ok s'"
        by (auto simp: Let_def result_simps)
      from enqueue_sp [OF d(2)] dequeue_sp [OF d(1)] show ?thesis
        by (simp add: sp_frame_eprio sp_frame_trans)
    next
      case unl: False
      with a False have "pthread_spread n th (upd_th th (effective_priority_update (\<lambda>_. inherited s th)) s) = Ok s'"
        by (simp add: Let_def)
      with Suc have "sp_frame (upd_th th (effective_priority_update (\<lambda>_. inherited s th)) s) s'" by blast
      then show ?thesis by (simp add: sp_frame_eprio)
    qed
  qed (use a in simp)
  ultimately show ?case by blast
qed simp

lemma spread_sp: "pthread_spread n th s = Ok s' \<Longrightarrow> sp_frame s s'"
  using spread_sp_both by blast

lemma setschedprio_locked_sp: "pthread_setschedprio_locked n th s = Ok s' \<Longrightarrow> sp_frame s s'"
  using spread_sp_both by blast

section \<open>Mutexes\<close>

definition lock_asleep :: "mid \<Rightarrow> 'a kernel_scheme \<Rightarrow> 'a kernel_scheme" where
  "lock_asleep m s = set_state (pthread_current s) PTHREAD_STATE_SLEEPING (upd_mx m (lock_update (\<lambda>_. -1)) s)"

lemma sp_frame_upd_mx: "sp_frame s s' \<Longrightarrow> sp_frame (upd_mx m f s) (upd_mx m f s')"
  by (simp add: sp_frame_def)

lemma lock_loop_sp:
  assumes "pthread_mutex_lock_loop m s = Ok (b, s')"
  shows "sp_frame (if b then lock_taken m s else lock_asleep m s) s'"
proof (cases "lock (mutexes s m) = 1")
  case True
  with assms have "pthread_mutex_lock_finish m (upd_mx m (lock_update (\<lambda>_. -1)) s) = Ok s'" and b: b
    by (auto simp: pthread_mutex_lock_loop_def result_simps)
  then obtain n where "pthread_setschedprio_locked n (pthread_current s) (lock_taken m s) = Ok s'"
    by (auto simp: pthread_mutex_lock_finish_def lock_taken_def Let_def result_simps)
  with b setschedprio_locked_sp show ?thesis by auto
next
  case False
  with assms show ?thesis
    by (auto simp: pthread_mutex_lock_loop_def lock_asleep_def Let_def result_simps dest: schedule_sp)
qed

lemma unlock_sp:
  assumes "pthread_mutex_unlock m s = Ok s'"
  shows "if recursive_count (mutexes s m) = 1
    then sp_frame (case wake_chosen m s of None \<Rightarrow> lock_released m s
                   | Some t \<Rightarrow> set_state t PTHREAD_STATE_RUNNING (lock_released m s)) s'
    else s' = upd_mx m (recursive_count_update (\<lambda>c. c - 1)) s"
proof (cases "recursive_count (mutexes s m) = 1")
  case True
  with assms obtain s1 s2 where s1: "pthread_setschedprio_locked SPREAD_FUEL (pthread_current s) (lock_released m s) = Ok s1"
    and s2: "(case wake_chosen m s of None \<Rightarrow> Ok s1 | Some t \<Rightarrow> pthread_set_running t s1) = Ok s2" and s': "schedule s2 = Ok s'"
    by (auto simp: pthread_mutex_unlock_def Let_def result_simps lock_released_def wake_chosen_def split: if_splits)
  note f1 = setschedprio_locked_sp [OF s1] and f' = schedule_sp [OF s']
  have "sp_frame (case wake_chosen m s of None \<Rightarrow> lock_released m s
      | Some t \<Rightarrow> set_state t PTHREAD_STATE_RUNNING (lock_released m s)) s2"
  proof (cases "wake_chosen m s")
    case None
    with s2 f1 show ?thesis by simp
  next
    case (Some t)
    have "sp_frame (set_state t PTHREAD_STATE_RUNNING (lock_released m s)) (set_state t PTHREAD_STATE_RUNNING s1)"
      using f1 by (rule sp_frame_state)
    with Some s2 set_running_sp [of t s1 s2] show ?thesis by (auto intro: sp_frame_trans)
  qed
  with True f' show ?thesis by (auto intro: sp_frame_trans)
qed (use assms in \<open>auto simp: pthread_mutex_unlock_def Let_def\<close>)

lemma lock_asleep_sp: "sp_frame s s' \<Longrightarrow> pthread_current s' = pthread_current s \<Longrightarrow> sp_frame (lock_asleep m s) (lock_asleep m s')"
  by (simp add: lock_asleep_def sp_frame_state sp_frame_upd_mx)

text \<open>The effect of \<open>pthread_mutex_lock\<close> on a free mutex, on an own recursive one, and on one held by another.\<close>

definition lock_effect :: "mid \<Rightarrow> 'a kernel_scheme \<Rightarrow> 'a kernel_scheme" where
  "lock_effect m s =
     (if lock (mutexes s m) = 1 then mutex_own m (upd_mx m (lock_update (\<lambda>_. 0)) s)
      else if mtype (mutexes s m) = PTHREAD_MUTEX_RECURSIVE_NP \<and> owner (mutexes s m) = Some (pthread_current s)
      then upd_mx m (recursive_count_update (\<lambda>c. c + 1)) s
      else lock_asleep m (lock_waiting (pthread_current s) m s))"

lemma spread_current: "pthread_spread n th s = Ok s' \<Longrightarrow> pthread_current s' = pthread_current s"
  and setschedprio_current: "pthread_setschedprio_locked n th s = Ok s' \<Longrightarrow> pthread_current s' = pthread_current s"
proof -
  have "(\<forall>th (s :: 'a kernel_scheme) s'. pthread_spread n th s = Ok s' \<longrightarrow> pthread_current s' = pthread_current s) \<and>
   (\<forall>th (s :: 'a kernel_scheme) s'. pthread_setschedprio_locked n th s = Ok s' \<longrightarrow> pthread_current s' = pthread_current s)" for n
  proof (induction n)
    case (Suc n)
    have "pthread_current s' = pthread_current s" if "pthread_spread (Suc n) th s = Ok s'" for th and s s' :: "'a kernel_scheme"
      using that Suc by (auto simp: result_simps split: option.splits)
    moreover have "pthread_current s' = pthread_current s" if "pthread_setschedprio_locked (Suc n) th s = Ok s'"
      for th and s s' :: "'a kernel_scheme"
      using that Suc
      by (auto simp: Let_def result_simps enqueue_result(5) dequeue_result(6) split: if_splits)
    ultimately show ?case by blast
  qed simp
  then show "pthread_spread n th s = Ok s' \<Longrightarrow> pthread_current s' = pthread_current s"
    and "pthread_setschedprio_locked n th s = Ok s' \<Longrightarrow> pthread_current s' = pthread_current s"
    by blast+
qed

lemma lock_sp:
  assumes "pthread_mutex_lock m s = Ok (b, s')"
  shows "sp_frame (lock_effect m s) s'"
    and "b \<longleftrightarrow> lock (mutexes s m) = 1 \<or>
      mtype (mutexes s m) = PTHREAD_MUTEX_RECURSIVE_NP \<and> owner (mutexes s m) = Some (pthread_current s)"
proof -
  let ?c = "pthread_current s"
  let ?direct = "lock (mutexes s m) = 1 \<or>
      mtype (mutexes s m) = PTHREAD_MUTEX_RECURSIVE_NP \<and> owner (mutexes s m) = Some (pthread_current s)"
  have "sp_frame (lock_effect m s) s' \<and> (b \<longleftrightarrow> ?direct)"
  proof (cases ?direct)
    case True
    with assms show ?thesis
      by (auto simp: pthread_mutex_lock_def lock_effect_def Let_def result_simps split: if_splits)
  next
    case False
    with assms obtain s1 where s1: "pthread_spread SPREAD_FUEL ?c (lock_waiting ?c m s) = Ok s1"
      and l: "pthread_mutex_lock_loop m s1 = Ok (b, s')"
      by (auto simp: pthread_mutex_lock_def Let_def result_simps lock_waiting_def split: if_splits)
    note f = spread_sp [OF s1]
    have "lock (mutexes s1 m) \<noteq> 1" using sp_frameD(7) [OF f] False by (auto simp: lock_waiting_def)
    with l have nb: "\<not> b" by (auto simp: pthread_mutex_lock_loop_def Let_def result_simps)
    have "sp_frame (lock_asleep m (lock_waiting ?c m s)) (lock_asleep m s1)"
      using f spread_current [OF s1] by (rule lock_asleep_sp)
    with lock_loop_sp [OF l] nb False show ?thesis
      by (auto simp: lock_effect_def intro: sp_frame_trans)
  qed
  then show "sp_frame (lock_effect m s) s'" and "b \<longleftrightarrow> ?direct" by blast+
qed

section \<open>Life cycle\<close>

lemma create_sp:
  assumes "pthread_create attr s = Ok (e, r, s')"
  shows "case free_slot s of
      None \<Rightarrow> e = EAGAIN \<and> s' = s
    | Some t \<Rightarrow> e = E_OK \<and> r = Some t \<and> sp_frame (set_state t PTHREAD_STATE_RUNNING (upd_th t (create_init attr) s)) s'"
proof (cases "free_slot s")
  case (Some t)
  let ?s = "upd_th t (create_init attr) (set_state t PTHREAD_STATE_INIT s)"
  have "set_state t PTHREAD_STATE_RUNNING ?s = set_state t PTHREAD_STATE_RUNNING (upd_th t (create_init attr) s)"
    by (simp add: upd_th_def create_init_def)
  moreover from assms Some have "wake_up t ?s = Ok s'" "e = E_OK" "r = Some t"
    by (auto simp: pthread_create_def Let_def result_simps)
  ultimately show ?thesis using Some wake_up_sp [of t ?s s'] by simp
qed (use assms in \<open>simp add: pthread_create_def\<close>)

definition exit_effect :: "u32 \<Rightarrow> 'a kernel_scheme \<Rightarrow> 'a kernel_scheme" where
  "exit_effect r s =
     (let c = pthread_current s; s = upd_th c (th_retval_update (\<lambda>_. r)) s
      in if th_flags (threads s c) AND PTHREAD_FLAG_DETACH \<noteq> 0 then set_state c PTHREAD_STATE_NONE s
         else (let s = set_state c PTHREAD_STATE_EXIT s
               in case waiter (threads s c) of None \<Rightarrow> s | Some w \<Rightarrow> set_state w PTHREAD_STATE_RUNNING s))"

lemma exit_sp: "pthread_exit r s = Ok s' \<Longrightarrow> sp_frame (exit_effect r s) s'"
  by (auto simp: pthread_exit_def pthread_exit_locked_def exit_effect_def Let_def result_simps
      split: if_splits option.splits dest!: schedule_sp wake_up_sp intro: sp_frame_trans)

definition detach_effect :: "tid \<Rightarrow> 'a kernel_scheme \<Rightarrow> 'a kernel_scheme" where
  "detach_effect t s =
     (if thstate s t = PTHREAD_STATE_EXIT then set_state t PTHREAD_STATE_NONE s
      else if (thstate s t = PTHREAD_STATE_RUNNING \<or> thstate s t = PTHREAD_STATE_SLEEPING) \<and>
              th_flags (threads s t) AND PTHREAD_FLAG_DETACH = 0
      then (let s = upd_th t (th_flags_update (\<lambda>f. f OR PTHREAD_FLAG_DETACH)) s
            in case waiter (threads s t) of None \<Rightarrow> s | Some w \<Rightarrow> set_state w PTHREAD_STATE_RUNNING s)
      else s)"

lemma detach_sp: "pthread_detach t s = Ok (e, s') \<Longrightarrow> sp_frame (detach_effect t s) s'"
  by (cases "thstate s t")
    (auto simp: pthread_detach_def detach_effect_def Let_def result_simps
      split: if_splits option.splits dest!: wake_up_sp)

lemma join_sp:
  assumes "pthread_join_pass t s = Ok (r, s')"
  shows "r = JoinBlocked \<Longrightarrow>
      sp_frame (set_state (pthread_current s) PTHREAD_STATE_SLEEPING
        (upd_th t (waiter_update (\<lambda>_. Some (pthread_current s))) s)) s'"
    and "r \<noteq> JoinBlocked \<Longrightarrow>
      s' = s \<or> s' = set_state t PTHREAD_STATE_NONE s \<and> thstate s t = PTHREAD_STATE_EXIT \<or>
      s' = upd_th t (waiter_update (\<lambda>_. None)) (upd_th t (waiter_update (\<lambda>_. Some (pthread_current s))) s) \<and>
        waiter (threads s t) = None"
  using assms
  by (auto simp: pthread_join_pass_def Let_def result_simps split: if_splits dest!: schedule_sp)

section \<open>Condition variables\<close>

lemma cond_signal_sp:
  assumes "pthread_cond_signal c s = Ok s'"
  shows "case wake_target s (cond_wq (conds s c)) of None \<Rightarrow> s' = s
    | Some t \<Rightarrow> sp_frame (set_state t PTHREAD_STATE_RUNNING
        (upd_cv c (cond_wq_update (\<lambda>_. remove1 t (cond_wq (conds s c)))) s)) s'"
  using assms by (auto simp: pthread_cond_signal_def result_simps split: option.splits dest!: wake_up_sp)

lemma cond_wait_begin_sp:
  assumes "cond_wait_begin c m s = Ok s'"
  shows "pthread_mutex_unlock m (set_state (pthread_current s) PTHREAD_STATE_SLEEPING
    (upd_cv c (cond_wq_update (\<lambda>q. q @ [pthread_current s])) s)) = Ok s'"
  using assms by (simp add: cond_wait_begin_def Let_def)

end
