(* ===== verification/Kernel.thy ===== *)
theory Kernel
  imports Frame
begin

text \<open>
  The kernel as a state machine.  A step is one kernel operation of the current thread, which runs with
  interrupts disabled, the continuation of an operation that was suspended in a call of \<open>schedule\<close>, or a
  timer interrupt.  Where a thread is suspended is recorded in \<open>fr\<close>, one \<open>frame\<close> per thread: \<open>FRun\<close> for a
  thread in ordinary code, otherwise the call it is in.  No step of this theory enters or leaves \<open>FRead\<close>, the wait for a
  character in \<open>getchar\<close>: theory \<open>System\<close> composes the kernel with the keyboard driver.

  The guards of the steps are the rules of use of the operations: a thread unlocks only mutexes it owns, waits on
  a condition with a mutex it has locked once, exits without holding a mutex, uses priorities in range,
  and the idle thread does not block.  Deadlock is not excluded: a step exists only when the operation returns,
  so a call that never returns has none.
\<close>

datatype frame =
    FRun
  | FLock mid
  | FJoin tid
  | FCondUnlocked cid mid "timespec option"
  | FCondSched cid mid
  | FCondTimed cid mid
  | FCondLock cid mid
  | FSleep
  | FRead

record ksys = tkernel +
  fr :: "tid \<Rightarrow> frame"

definition set_fr :: "tid \<Rightarrow> frame \<Rightarrow> ksys \<Rightarrow> ksys" where
  "set_fr t f s = s\<lparr>fr := (fr s)(t := f)\<rparr>"

section \<open>Steps\<close>

definition frame_of :: "wait_point \<Rightarrow> cid \<Rightarrow> mid \<Rightarrow> frame" where
  "frame_of p c m = (case p of InScheduleTimeout \<Rightarrow> FCondTimed c m | _ \<Rightarrow> FCondSched c m)"

text \<open>Timeouts are shorter than the window in which tick counts can be compared.\<close>

definition delta_ok :: "timespec option \<Rightarrow> 'a tkernel_scheme \<Rightarrow> bool" where
  "delta_ok abstime s =
     (case abstime of
        None \<Rightarrow> True
      | Some at \<Rightarrow>
         (case clock_gettime CLOCK_REALTIME s of
            Inl _ \<Rightarrow> True
          | Inr now \<Rightarrow> (case timedwait_delta at now of None \<Rightarrow> True | Some d \<Rightarrow> unat d < 2 ^ 31)))"

inductive step :: "ksys \<Rightarrow> ksys \<Rightarrow> bool" where
  Lock: "\<lbrakk>pthread_current s = c; fr s c = FRun; c \<noteq> pthread_idle; pthread_mutex_lock m s = Ok (b, s')\<rbrakk> \<Longrightarrow>
    step s (set_fr c (if b then FRun else FLock m) s')"
| LockResume: "\<lbrakk>pthread_current s = c; fr s c = FLock m; pthread_mutex_lock_loop m s = Ok (b, s')\<rbrakk> \<Longrightarrow>
    step s (set_fr c (if b then FRun else FLock m) s')"
| Trylock: "\<lbrakk>fr s (pthread_current s) = FRun; pthread_mutex_trylock m s = (e, s')\<rbrakk> \<Longrightarrow> step s s'"
| Unlock: "\<lbrakk>fr s (pthread_current s) = FRun; m \<in> set (mutex_queue (threads s (pthread_current s)));
    pthread_mutex_unlock m s = Ok s'\<rbrakk> \<Longrightarrow> step s s'"
| Yield: "\<lbrakk>fr s (pthread_current s) = FRun; pthread_yield s = Ok s'\<rbrakk> \<Longrightarrow> step s s'"
| Setprio: "\<lbrakk>fr s (pthread_current s) = FRun; 0 \<le> p; p \<le> 31; pthread_setschedprio t p s = Ok s'\<rbrakk> \<Longrightarrow> step s s'"
| Create: "\<lbrakk>fr s (pthread_current s) = FRun; unat (attr_priority attr) \<le> 31; pthread_create attr s = Ok (e, r, s')\<rbrakk> \<Longrightarrow>
    step s s'"
| Exit: "\<lbrakk>pthread_current s = c; fr s c = FRun; c \<noteq> pthread_idle; mutex_queue (threads s c) = [];
    pthread_exit r s = Ok s'\<rbrakk> \<Longrightarrow> step s s'"
| Detach: "\<lbrakk>fr s (pthread_current s) = FRun; pthread_detach t s = Ok (e, s')\<rbrakk> \<Longrightarrow> step s s'"
| Join: "\<lbrakk>pthread_current s = c; fr s c = FRun; c \<noteq> pthread_idle; pthread_join t s = Ok (r, s')\<rbrakk> \<Longrightarrow>
    step s (set_fr c (if r = JoinBlocked then FJoin t else FRun) s')"
| JoinResume: "\<lbrakk>pthread_current s = c; fr s c = FJoin t; pthread_join_resume t s = Ok (r, s')\<rbrakk> \<Longrightarrow>
    step s (set_fr c (if r = JoinBlocked then FJoin t else FRun) s')"
| Signal: "\<lbrakk>fr s (pthread_current s) = FRun; pthread_cond_signal v s = Ok s'\<rbrakk> \<Longrightarrow> step s s'"
| Broadcast: "\<lbrakk>fr s (pthread_current s) = FRun; pthread_cond_broadcast v s = Ok s'\<rbrakk> \<Longrightarrow> step s s'"
| CondWait: "\<lbrakk>pthread_current s = c; fr s c = FRun; c \<noteq> pthread_idle; m \<in> set (mutex_queue (threads s c));
    recursive_count (mutexes s m) = 1; cond_wait_begin v m s = Ok s'\<rbrakk> \<Longrightarrow>
    step s (set_fr c (FCondUnlocked v m abstime) s')"
| CondBlock: "\<lbrakk>pthread_current s = c; fr s c = FCondUnlocked v m abstime; delta_ok abstime s;
    cond_wait_block abstime s = Ok (p, s')\<rbrakk> \<Longrightarrow>
    step s (set_fr c (frame_of p v m) s')"
| CondTimed: "\<lbrakk>pthread_current s = c; fr s c = FCondTimed v m; cond_wait_timed_end s = Ok (e, s')\<rbrakk> \<Longrightarrow>
    step s (set_fr c (FCondSched v m) s')"
| CondLock: "\<lbrakk>pthread_current s = c; fr s c = FCondSched v m; pthread_mutex_lock m s = Ok (b, s')\<rbrakk> \<Longrightarrow>
    step s (if b then set_fr c FRun (cond_wait_finish v s') else set_fr c (FCondLock v m) s')"
| CondLockResume: "\<lbrakk>pthread_current s = c; fr s c = FCondLock v m; pthread_mutex_lock_loop m s = Ok (b, s')\<rbrakk> \<Longrightarrow>
    step s (if b then set_fr c FRun (cond_wait_finish v s') else set_fr c (FCondLock v m) s')"
| Sleep: "\<lbrakk>pthread_current s = c; fr s c = FRun; c \<noteq> pthread_idle; unat (secs * of_nat CONFIG_HZ) < 2 ^ 31;
    sleep_begin secs s = Ok s'\<rbrakk> \<Longrightarrow> step s (set_fr c FSleep s')"
| SleepResume: "\<lbrakk>pthread_current s = c; fr s c = FSleep; sleep_end s = Ok (r, s')\<rbrakk> \<Longrightarrow> step s (set_fr c FRun s')"
| Tick: "timer_interrupt s = Ok s' \<Longrightarrow> step s s'"

section \<open>Invariant\<close>

fun waits_mx :: "frame \<Rightarrow> mid option" where
  "waits_mx (FLock m) = Some m"
| "waits_mx (FCondLock c m) = Some m"
| "waits_mx _ = None"

fun waits_cv :: "frame \<Rightarrow> cid option" where
  "waits_cv (FCondUnlocked c m a) = Some c"
| "waits_cv (FCondSched c m) = Some c"
| "waits_cv (FCondTimed c m) = Some c"
| "waits_cv (FCondLock c m) = Some c"
| "waits_cv _ = None"

fun timed :: "frame \<Rightarrow> bool" where
  "timed (FCondTimed c m) = True"
| "timed FSleep = True"
| "timed _ = False"

definition alive :: "pthread_state \<Rightarrow> bool" where
  "alive st \<longleftrightarrow> st = PTHREAD_STATE_RUNNING \<or> st = PTHREAD_STATE_SLEEPING"

text \<open>
  Suspended threads: what a thread's frame says agrees with the mutex it sleeps on, the thread it
  joins and the condition it waits for; only suspended threads sleep; slots without a thread are clean.
\<close>

definition fr_ok :: "ksys \<Rightarrow> bool" where
  "fr_ok s \<longleftrightarrow>
     (\<forall>t. sleep_on (threads s t) = waits_mx (fr s t)) \<and>
     (\<forall>x w. waiter (threads s x) = Some w \<longrightarrow> fr s w = FJoin x) \<and>
     (\<forall>t. thstate s t = PTHREAD_STATE_SLEEPING \<longrightarrow> fr s t \<noteq> FRun) \<and>
     (\<forall>t. \<not> alive (thstate s t) \<longrightarrow> fr s t = FRun \<and> mutex_queue (threads s t) = []) \<and>
     (\<forall>t\<ge>pthread_idle. fr s t = FRun) \<and>
     (\<forall>t>pthread_idle. thstate s t = PTHREAD_STATE_NONE) \<and>
     (\<forall>v. distinct (cond_wq (conds s v)) \<and> (\<forall>t\<in>set (cond_wq (conds s v)). waits_cv (fr s t) = Some v))"

text \<open>Timers: only a thread suspended in \<open>schedule_timeout\<close> has one, and it is the thread's own.\<close>

definition tm_ok :: "ksys \<Rightarrow> bool" where
  "tm_ok s \<longleftrightarrow> timer_ok (ticks s) (tctx s) \<and>
     (\<forall>t\<in>active (tctx s). timed (fr s t) \<and> tm_thread (timers (tctx s) t) = t)"

definition kernel_ok :: "ksys \<Rightarrow> bool" where
  "kernel_ok s \<longleftrightarrow> kinv s \<and> join_inv s \<and> fr_ok s \<and> tm_ok s"

section \<open>Frames of the invariant\<close>

lemma set_fr_simps [simp]:
  "threads (set_fr t f s) = threads s" "mutexes (set_fr t f s) = mutexes s" "conds (set_fr t f s) = conds s"
  "pthread_current (set_fr t f s) = pthread_current s" "fr (set_fr t f s) = (fr s)(t := f)"
  "tctx (set_fr t f s) = tctx s" "ticks (set_fr t f s) = ticks s" "pthread_next (set_fr t f s) = pthread_next s"
  "in_irq (set_fr t f s) = in_irq s" "rq_level (set_fr t f s) = rq_level s" "rq_bitmap (set_fr t f s) = rq_bitmap s"
  by (simp_all add: set_fr_def)

lemma fr_upd [simp]: "fr (upd_th t f s) = fr s" "fr (upd_mx m g s) = fr s" "fr (upd_cv c h s) = fr s"
  by (simp_all add: upd_th_def upd_mx_def upd_cv_def)

lemma upd_mx_tkernel [simp]: "tctx (upd_mx m f s) = tctx s" "ticks (upd_mx m f s) = ticks s"
  by (simp_all add: upd_mx_def)

lemma kinv_set_fr [simp]: "kinv (set_fr t f s) = kinv s"
proof -
  have "sched_pre (set_fr t f s) = sched_pre s" by (rule sched_cong) simp_all
  then show ?thesis
    by (simp add: kinv_def kpre_def ksched_def prios_ok_def mx_inv_def mx_owned_def mx_waits_def wake_ok_def)
qed

lemma join_inv_set_fr [simp]: "join_inv (set_fr t f s) = join_inv s"
  by (rule join_inv_frame) simp

lemma more_fr: "kernel.more s' = kernel.more s \<Longrightarrow> fr s' = fr s" for s s' :: ksys
  by (cases s; cases s') simp

lemma fr_ok_sp:
  fixes s s' :: ksys
  assumes "sp_frame s s'"
  shows "fr_ok (set_fr t f s') = fr_ok (set_fr t f s)" and "fr_ok s' = fr_ok s"
  using sp_frameD [OF assms] more_fr [OF sp_frameD(10) [OF assms]] by (simp_all add: fr_ok_def)

lemma tm_ok_sp:
  fixes s s' :: ksys
  assumes "sp_frame s s'"
  shows "tm_ok (set_fr t f s') = tm_ok (set_fr t f s)" and "tm_ok s' = tm_ok s"
  using more_tkernel(1,2) [OF sp_frameD(10) [OF assms]] more_fr [OF sp_frameD(10) [OF assms]] by (simp_all add: tm_ok_def)

lemma join_inv_sp: "sp_frame s s' \<Longrightarrow> join_inv s' = join_inv s"
  by (rule join_inv_frame) (simp add: sp_frameD)

lemma tm_ok_upd [simp]:
  "tm_ok (upd_th t f s) = tm_ok s" "tm_ok (upd_mx m g s) = tm_ok s" "tm_ok (upd_cv c h s) = tm_ok s"
  by (simp_all add: tm_ok_def)

lemma tm_ok_set_fr: "tm_ok s \<Longrightarrow> \<not> timed (fr s t) \<Longrightarrow> tm_ok (set_fr t f s)"
  by (auto simp: tm_ok_def)

lemma fr_okD:
  assumes "fr_ok s"
  shows "sleep_on (threads s t) = waits_mx (fr s t)"
    and "waiter (threads s x) = Some w \<Longrightarrow> fr s w = FJoin x"
    and "thstate s t = PTHREAD_STATE_SLEEPING \<Longrightarrow> fr s t \<noteq> FRun"
    and "fr s t \<noteq> FRun \<Longrightarrow> alive (thstate s t) \<and> t < pthread_idle"
    and "\<not> alive (thstate s t) \<Longrightarrow> mutex_queue (threads s t) = []"
    and "pthread_idle < t \<Longrightarrow> thstate s t = PTHREAD_STATE_NONE"
    and "t \<in> set (cond_wq (conds s v)) \<Longrightarrow> waits_cv (fr s t) = Some v"
  using assms unfolding fr_ok_def by (auto simp: not_less [symmetric])

section \<open>Effects keep the frame invariant\<close>

lemma fr_ok_wake: "fr_ok s \<Longrightarrow> alive (thstate s t) \<Longrightarrow> fr_ok (set_state t PTHREAD_STATE_RUNNING s)"
  unfolding fr_ok_def by (auto simp: alive_def)

lemma fr_ok_mx: "fr_ok (upd_mx m f s) = fr_ok s"
  by (simp add: fr_ok_def)

text \<open>A running thread that takes or drops a mutex.\<close>

lemma fr_ok_queue:
  assumes "fr_ok s" and "alive (thstate s c)"
  shows "fr_ok (upd_th c (mutex_queue_update f) s)"
  using assms unfolding fr_ok_def by auto

lemma fr_ok_own: "fr_ok s \<Longrightarrow> alive (thstate s (pthread_current s)) \<Longrightarrow> fr_ok (mutex_own m s)"
  by (simp add: mutex_own_def Let_def fr_ok_mx fr_ok_queue)

text \<open>A running thread that goes to sleep in a frame that waits for a mutex, a thread or a condition.\<close>

lemma fr_ok_suspend_mx:
  assumes "fr_ok s" and "c < pthread_idle" and "alive (thstate s c)" and "waits_mx f = Some m"
    and "waits_cv f = waits_cv (fr s c)" and "\<And>x. fr s c \<noteq> FJoin x"
  shows "fr_ok (set_fr c f (set_state c PTHREAD_STATE_SLEEPING (upd_th c (sleep_on_update (\<lambda>_. Some m)) s)))"
proof -
  have "f \<noteq> FRun" using assms(4) by auto
  with assms show ?thesis unfolding fr_ok_def by (auto simp: alive_def)
qed

lemma fr_ok_lock_effect:
  assumes "fr_ok s" and "pthread_current s = c" and "c < pthread_idle" and "alive (thstate s c)"
    and "\<not> (lock (mutexes s m) = 1 \<or> mtype (mutexes s m) = PTHREAD_MUTEX_RECURSIVE_NP \<and> owner (mutexes s m) = Some c)"
    and "waits_mx f = Some m" and "waits_cv f = waits_cv (fr s c)" and "\<And>x. fr s c \<noteq> FJoin x"
  shows "fr_ok (set_fr c f (lock_effect m s))"
proof -
  have "fr_ok (set_fr c f (set_state c PTHREAD_STATE_SLEEPING (upd_th c (sleep_on_update (\<lambda>_. Some m)) s)))"
    by (rule fr_ok_suspend_mx) (use assms in auto)
  moreover have "lock_effect m s = lock_asleep m (lock_waiting c m s)"
    using assms(2,5) by (auto simp: lock_effect_def)
  ultimately show ?thesis
    by (simp add: lock_asleep_def lock_waiting_def fr_ok_def assms(2))
qed

lemma fr_ok_lock_direct:
  assumes "fr_ok s" and "alive (thstate s (pthread_current s))"
    and "lock (mutexes s m) = 1 \<or> mtype (mutexes s m) = PTHREAD_MUTEX_RECURSIVE_NP \<and> owner (mutexes s m) = Some (pthread_current s)"
  shows "fr_ok (lock_effect m s)"
  using assms by (auto simp: lock_effect_def fr_ok_mx fr_ok_own)

text \<open>A waiter of a mutex that takes it: it goes on in ordinary code, or finishes its wait on a condition.\<close>

lemma fr_ok_taken:
  assumes "fr_ok s" and "pthread_current s = c" and "alive (thstate s c)" and "waits_mx (fr s c) = Some m"
    and "waits_mx f = None" and "waits_cv f = waits_cv (fr s c)" and "thstate s c = PTHREAD_STATE_RUNNING"
  shows "fr_ok (set_fr c f (lock_taken m s))"
proof -
  have nj: "fr s c \<noteq> FJoin x" for x using assms(4) by auto
  have th: "threads (lock_taken m s) = (threads s)(c := (threads s c)\<lparr>sleep_on := None,
      mutex_queue := mutex_queue (threads s c) @ [m]\<rparr>)"
    using assms(2) by (auto simp: lock_taken_def mutex_own_def Let_def fun_eq_iff)
  have "conds (lock_taken m s) = conds s" "fr (lock_taken m s) = fr s"
    by (simp_all add: lock_taken_def mutex_own_def Let_def)
  with assms nj fr_okD(4) [OF assms(1), of c] show ?thesis
    unfolding fr_ok_def by (auto simp: alive_def th)
qed

lemma fr_ok_asleep:
  assumes "fr_ok s" and "pthread_current s = c" and "waits_mx (fr s c) = Some m"
  shows "fr_ok (lock_asleep m s)"
proof -
  have "fr s c \<noteq> FRun" using assms(3) by auto
  with assms fr_okD(4) [OF assms(1), of c] show ?thesis
    unfolding fr_ok_def lock_asleep_def by (auto simp: alive_def)
qed

lemma fr_ok_released:
  assumes "fr_ok s" and "alive (thstate s (pthread_current s))"
  shows "fr_ok (lock_released m s)"
  using assms by (simp add: lock_released_def fr_ok_mx fr_ok_queue)

text \<open>Leaving the queue of a condition.\<close>

lemma fr_ok_finish:
  assumes "fr_ok s" and "pthread_current s = c" and "waits_mx (fr s c) = None" and "waits_cv (fr s c) = Some v"
    and "thstate s c = PTHREAD_STATE_RUNNING"
  shows "fr_ok (set_fr c FRun (cond_wait_finish v s))"
proof -
  have nj: "fr s c \<noteq> FJoin x" for x using assms(4) by auto
  have "c \<notin> set (cond_wq (conds s w))" if "w \<noteq> v" for w
    using fr_okD(7) [OF assms(1), of c w] that assms(4) by auto
  with assms nj show ?thesis
    unfolding fr_ok_def cond_wait_finish_def by (auto simp: alive_def)
qed

section \<open>Every step keeps the invariant\<close>

lemma kernel_okD:
  assumes "kernel_ok s"
  shows "kinv s" "join_inv s" "fr_ok s" "tm_ok s" "alive (thstate s (pthread_current s))" "pthread_current s \<le> pthread_idle"
proof -
  show k: "kinv s" "join_inv s" and f: "fr_ok s" and "tm_ok s" using assms by (auto simp: kernel_ok_def)
  note run = kinvD(7) [OF k(1)]
  then show "alive (thstate s (pthread_current s))" by (simp add: alive_def)
  show "pthread_current s \<le> pthread_idle" using fr_okD(6) [OF f, of "pthread_current s"] run by (force simp: not_less [symmetric])
qed

lemma kernel_okI_sp:
  fixes s' e :: ksys
  assumes "kinv s'" and "sp_frame e s'" and "fr_ok e" and "tm_ok e" and "join_inv e"
  shows "kernel_ok s'"
  using assms fr_ok_sp(2) [OF assms(2)] tm_ok_sp(2) [OF assms(2)] join_inv_sp [OF assms(2)] by (simp add: kernel_ok_def)

lemma kernel_okI_fr:
  fixes s' e :: ksys
  assumes "kinv s'" and "sp_frame e s'" and "fr_ok (set_fr c f e)" and "tm_ok (set_fr c f e)" and "join_inv e"
  shows "kernel_ok (set_fr c f s')"
  using assms fr_ok_sp(1) [OF assms(2)] tm_ok_sp(1) [OF assms(2)] join_inv_sp [OF assms(2)] by (simp add: kernel_ok_def)

lemma lock_kinv:
  assumes "kinv s" and "pthread_current s = c" and "c \<noteq> pthread_idle" and "sleep_on (threads s c) = None"
    and "pthread_mutex_lock m s = Ok (b, s')"
  shows "kinv s'" and "b \<Longrightarrow> pthread_current s' = c"
proof -
  note k = kinvD [OF assms(1)]
  have "kinv s' \<and> (b \<longrightarrow> pthread_current s' = c)"
  proof (cases "lock (mutexes s m) = 1")
    case True
    with mutex_lock_free [OF assms(1) True] assms(2,5) show ?thesis by auto
  next
    case held: False
    show ?thesis
    proof (cases "mtype (mutexes s m) = PTHREAD_MUTEX_RECURSIVE_NP \<and> owner (mutexes s m) = Some c")
      case True
      with mutex_lock_recursive [OF assms(1), of m] assms(2,5) have "kinv s'" by auto
      moreover have "pthread_current s' = c"
        using True held assms(2,5) by (auto simp: pthread_mutex_lock_def Let_def result_simps)
      ultimately show ?thesis by simp
    next
      case False
      with held assms(2,5) obtain s1 where s1: "pthread_spread SPREAD_FUEL c (lock_waiting c m s) = Ok s1"
        and l: "pthread_mutex_lock_loop m s1 = Ok (b, s')"
        by (auto simp: pthread_mutex_lock_def Let_def result_simps lock_waiting_def split: if_splits)
      have kw: "kinv (lock_waiting c m s)" by (rule kinv_lock_waiting [OF assms(1,2,4)])
      have st: "prio_step (lock_waiting c m s) s1"
        by (rule spread_step [OF ksched_prio_wf [OF kinvD(2) [OF kw]] s1])
      then have "prio_frame (lock_waiting c m s) s1" by (simp add: prio_step_def)
      from prio_frameD(5,14) [OF this] assms(2) have "pthread_current s1 = c" "sleep_on (threads s1 c) = Some m"
        by (simp_all add: lock_waiting_def)
      from lock_loop_spec [OF kinv_prio_step [OF kw st] this(1) assms(3) this(2)] l show ?thesis by (auto split: if_splits)
    qed
  qed
  then show "kinv s'" and "b \<Longrightarrow> pthread_current s' = c" by blast+
qed

lemma loop_kinv:
  assumes "kinv s" and "pthread_current s = c" and "c \<noteq> pthread_idle" and "sleep_on (threads s c) = Some m"
    and "pthread_mutex_lock_loop m s = Ok (b, s')"
  shows "kinv s'" and "b \<Longrightarrow> pthread_current s' = c"
  using lock_loop_spec [OF assms(1-4)] assms(5) by (auto split: if_splits)

text \<open>Locking, from ordinary code and from the end of a condition wait.\<close>

lemma join_inv_lock [simp]:
  "join_inv (lock_effect m s) = join_inv s" "join_inv (lock_taken m s) = join_inv s" "join_inv (lock_asleep m s) = join_inv s"
  "join_inv (lock_released m s) = join_inv s"
  by (rule join_inv_frame; simp add: lock_effect_def lock_asleep_def lock_taken_def lock_waiting_def lock_released_def mutex_own_def Let_def)+

lemma tm_ok_lock [simp]:
  "tm_ok (lock_effect m s) = tm_ok s" "tm_ok (lock_taken m s) = tm_ok s" "tm_ok (lock_asleep m s) = tm_ok s"
  "tm_ok (lock_released m s) = tm_ok s"
  by (simp_all add: lock_effect_def lock_asleep_def lock_taken_def lock_waiting_def lock_released_def mutex_own_def Let_def)

lemma fr_lock [simp]:
  "fr (lock_effect m s) = fr s" "fr (lock_taken m s) = fr s" "fr (lock_asleep m s) = fr s" "fr (lock_released m s) = fr s"
  by (simp_all add: lock_effect_def lock_asleep_def lock_taken_def lock_waiting_def lock_released_def mutex_own_def Let_def)

lemma set_fr_same: "fr s c = f \<Longrightarrow> set_fr c f s = s"
  by (simp add: set_fr_def fun_upd_idem)

lemma keep_lock:
  assumes "kernel_ok s" and "pthread_current s = c" and "c \<noteq> pthread_idle" and "waits_mx (fr s c) = None" and "\<not> timed (fr s c)"
    and "\<And>x. fr s c \<noteq> FJoin x" and "pthread_mutex_lock m s = Ok (b, s')"
    and "waits_mx f = Some m" and "waits_cv f = waits_cv (fr s c)"
  shows "b \<Longrightarrow> kernel_ok s' \<and> fr s' = fr s \<and> pthread_current s' = c"
    and "\<not> b \<Longrightarrow> kernel_ok (set_fr c f s')"
proof -
  note k = kernel_okD [OF assms(1)]
  have so: "sleep_on (threads s c) = None" using fr_okD(1) [OF k(3)] assms(4) by simp
  note kv = lock_kinv [OF k(1) assms(2,3) so assms(7)] and sp = lock_sp [OF assms(7)]
  have fs: "fr s' = fr s" using more_fr [OF sp_frameD(10) [OF sp(1)]] by simp
  show "kernel_ok s' \<and> fr s' = fr s \<and> pthread_current s' = c" if b
    using kernel_okI_sp [OF kv(1) sp(1)] fr_ok_lock_direct [OF k(3,5)] sp(2) that k fs kv(2) assms(2) by simp
  show "kernel_ok (set_fr c f s')" if "\<not> b"
  proof (rule kernel_okI_fr [OF kv(1) sp(1)])
    show "fr_ok (set_fr c f (lock_effect m s))"
      by (rule fr_ok_lock_effect) (use assms k sp(2) that in auto)
    show "tm_ok (set_fr c f (lock_effect m s))"
      by (rule tm_ok_set_fr) (use k assms(5) in auto)
  qed (use k in simp)
qed

lemma keep_loop:
  assumes "kernel_ok s" and "pthread_current s = c" and "waits_mx (fr s c) = Some m"
    and "pthread_mutex_lock_loop m s = Ok (b, s')"
  shows "b \<Longrightarrow> waits_mx f = None \<Longrightarrow> waits_cv f = waits_cv (fr s c) \<Longrightarrow> \<not> timed f \<Longrightarrow>
      kernel_ok (set_fr c f s') \<and> pthread_current s' = c"
    and "\<not> b \<Longrightarrow> kernel_ok s' \<and> fr s' = fr s"
proof -
  note k = kernel_okD [OF assms(1)]
  have "fr s c \<noteq> FRun" using assms(3) by auto
  then have "c \<noteq> pthread_idle" using fr_okD(4) [OF k(3)] by blast
  have so: "sleep_on (threads s c) = Some m" using fr_okD(1) [OF k(3)] assms(3) by simp
  note kv = loop_kinv [OF k(1) assms(2) \<open>c \<noteq> pthread_idle\<close> so assms(4)] and sp = lock_loop_sp [OF assms(4)]
  have nt: "\<not> timed (fr s c)" using assms(3) by (cases "fr s c") auto
  have fs: "fr s' = fr s" using more_fr [OF sp_frameD(10) [OF sp]] by (simp split: if_splits)
  show "kernel_ok s' \<and> fr s' = fr s" if "\<not> b"
  proof -
    have "sp_frame (lock_asleep m s) s'" using sp that by simp
    from kernel_okI_sp [OF kv(1) this] fr_ok_asleep [OF k(3) assms(2,3)] k fs show ?thesis by simp
  qed
  show "kernel_ok (set_fr c f s') \<and> pthread_current s' = c" if b "waits_mx f = None" "waits_cv f = waits_cv (fr s c)" "\<not> timed f"
  proof -
    have fl: "sp_frame (lock_taken m s) s'" using sp that by simp
    have "fr_ok (set_fr c f (lock_taken m s))"
      by (rule fr_ok_taken) (use k assms that kinvD(7) [OF k(1)] in auto)
    moreover have "tm_ok (set_fr c f (lock_taken m s))"
      by (rule tm_ok_set_fr) (use k nt in auto)
    ultimately have "kernel_ok (set_fr c f s')" using kernel_okI_fr [OF kv(1) fl] k by simp
    with kv(2) that show ?thesis by simp
  qed
qed

lemma alive_wq: "fr_ok s \<Longrightarrow> mx_inv s \<Longrightarrow> t \<in> set (wq (mutexes s m)) \<Longrightarrow> alive (thstate s t)"
proof -
  assume a: "fr_ok s" "mx_inv s" "t \<in> set (wq (mutexes s m))"
  then have "sleep_on (threads s t) = Some m" using mx_invD(4) by blast
  then have "waits_mx (fr s t) = Some m" using fr_okD(1) [OF a(1)] by simp
  then have "fr s t \<noteq> FRun" by auto
  then show ?thesis using fr_okD(4) [OF a(1)] by blast
qed

lemma wake_chosen_mem: "wake_chosen m s = Some t \<Longrightarrow> t \<in> set (wq (mutexes s m))"
  by (auto simp: wake_chosen_def dest: wake_targetD split: if_splits)

lemma join_inv_state [simp]: "join_inv (set_state t st s) = join_inv s"
  by (rule join_inv_frame) simp

lemma keep_trylock:
  assumes "kernel_ok s" and "fr s (pthread_current s) = FRun" and "pthread_mutex_trylock m s = (e, s')"
  shows "kernel_ok s'"
proof -
  note k = kernel_okD [OF assms(1)]
  have kv: "kinv s'" by (rule mutex_trylock_spec(1) [OF k(1) assms(3)])
  have "s' = s \<or> s' = lock_effect m s \<and> (lock (mutexes s m) = 1 \<or>
      mtype (mutexes s m) = PTHREAD_MUTEX_RECURSIVE_NP \<and> owner (mutexes s m) = Some (pthread_current s))"
    using assms(3) by (auto simp: pthread_mutex_trylock_def lock_effect_def Let_def split: if_splits)
  with kv k fr_ok_lock_direct [OF k(3,5), of m] show ?thesis by (auto simp: kernel_ok_def)
qed

lemma keep_unlock:
  assumes "kernel_ok s" and "m \<in> set (mutex_queue (threads s (pthread_current s)))" and "pthread_mutex_unlock m s = Ok s'"
  shows "kernel_ok s'"
proof -
  note k = kernel_okD [OF assms(1)] and mx = kinvD(4) [OF kernel_okD(1) [OF assms(1)]]
  show ?thesis
  proof (cases "recursive_count (mutexes s m) = 1")
    case True
    from mutex_unlock_spec [OF kinvD(1) [OF k(1)] assms(2) True] assms(3) have kv: "kinv s'" by auto
    let ?e = "case wake_chosen m s of None \<Rightarrow> lock_released m s | Some t \<Rightarrow> set_state t PTHREAD_STATE_RUNNING (lock_released m s)"
    have "sp_frame ?e s'" using unlock_sp [OF assms(3)] True by simp
    moreover have "fr_ok ?e"
    proof (cases "wake_chosen m s")
      case (Some t)
      have "alive (thstate s t)" by (rule alive_wq [OF k(3) mx wake_chosen_mem [OF Some]])
      then have "alive (thstate (lock_released m s) t)" by (auto simp: lock_released_def)
      with Some fr_ok_wake [OF fr_ok_released [OF k(3,5)]] show ?thesis by simp
    qed (use fr_ok_released [OF k(3,5)] in simp)
    ultimately show ?thesis using kernel_okI_sp [OF kv] k by (simp split: option.splits)
  next
    case False
    from mutex_unlock_nested [OF kinvD(1) [OF k(1)] assms(2) False] assms(3) have "kpre s'" "threads s' = threads s"
      "pthread_current s' = pthread_current s" by auto
    moreover have eq: "s' = upd_mx m (recursive_count_update (\<lambda>c. c - 1)) s" using unlock_sp [OF assms(3)] False by simp
    ultimately have "kinv s'" using k(1) by (simp add: kinv_def)
    moreover have "join_inv s'" using k(2) by (subst eq, subst join_inv_frame [of _ s]) auto
    ultimately show ?thesis using k eq by (simp add: kernel_ok_def fr_ok_mx)
  qed
qed

lemma keep_yield: "kernel_ok s \<Longrightarrow> pthread_yield s = Ok s' \<Longrightarrow> kernel_ok s'"
proof -
  assume a: "kernel_ok s" "pthread_yield s = Ok s'"
  note k = kernel_okD [OF a(1)]
  from kinv_schedule [OF kinvD(1) [OF k(1)]] a(2) have "kinv s'" by (auto simp: pthread_yield_def)
  from kernel_okI_sp [OF this schedule_sp] a(2) k show ?thesis by (simp add: pthread_yield_def)
qed

text \<open>Changing a priority within the range.\<close>

lemma kinv_priority:
  assumes "kinv s" and "unat p \<le> 31"
  shows "kinv (upd_th t (priority_update (\<lambda>_. p)) s)"
proof -
  let ?s = "upd_th t (priority_update (\<lambda>_. p)) s"
  have "sched_pre ?s = sched_pre s" by (rule sched_cong) simp_all
  moreover have "mx_inv ?s" by (rule mx_inv_mono [OF kinvD(4) [OF assms(1)]]) auto
  ultimately show ?thesis using assms by (auto simp: kinv_def kpre_def ksched_def prios_ok_def)
qed

lemma fr_ok_priority: "fr_ok (upd_th t (priority_update f) s) = fr_ok s"
  unfolding fr_ok_def by auto

lemma setschedprio_kinv:
  assumes "kinv s" and "0 \<le> p" and "p \<le> 31" and "pthread_setschedprio t p s = Ok s'"
  shows "kinv s'" and "s' = s \<or> sp_frame (upd_th t (priority_update (\<lambda>_. word_of_int p)) s) s'"
proof -
  let ?s = "upd_th t (priority_update (\<lambda>_. word_of_int p)) s"
  have "unat (word_of_int p :: u8) \<le> 31"
    using assms(2,3) by (simp add: unsigned_of_int take_bit_int_eq_self nat_le_iff)
  note k = kinv_priority [OF assms(1) this, of t]
  have "s' = s \<or> s' = ?s \<or> (\<exists>s1. pthread_setschedprio_locked SPREAD_FUEL t ?s = Ok s1 \<and> schedule s1 = Ok s')"
    using assms(4) by (auto simp: pthread_setschedprio_def Let_def result_simps split: if_splits)
  moreover have "kinv s' \<and> sp_frame ?s s'" if "pthread_setschedprio_locked SPREAD_FUEL t ?s = Ok s1" "schedule s1 = Ok s'" for s1
  proof -
    have "prio_step ?s s1" by (rule setschedprio_step [OF ksched_prio_wf [OF kinvD(2) [OF k]] that(1)])
    from kinv_schedule [OF kinvD(1) [OF kinv_prio_step [OF k this]]] that(2) have "kinv s'" by auto
    with setschedprio_locked_sp [OF that(1)] schedule_sp [OF that(2)] show ?thesis by (auto intro: sp_frame_trans)
  qed
  ultimately show "kinv s'" and "s' = s \<or> sp_frame ?s s'" using assms(1) k by auto
qed

lemma keep_setprio:
  assumes "kernel_ok s" and "0 \<le> p" and "p \<le> 31" and "pthread_setschedprio t p s = Ok s'"
  shows "kernel_ok s'"
proof -
  note k = kernel_okD [OF assms(1)] and sp = setschedprio_kinv [OF kernel_okD(1) [OF assms(1)] assms(2-4)]
  from sp(2) show ?thesis
  proof
    assume "sp_frame (upd_th t (priority_update (\<lambda>_. word_of_int p)) s) s'"
    moreover have "join_inv (upd_th t (priority_update (\<lambda>_. word_of_int p)) s)"
      using k(2) by (subst join_inv_frame [of _ s]) auto
    ultimately show ?thesis using kernel_okI_sp [OF sp(1)] k by (simp add: fr_ok_priority)
  qed (use assms(1) in simp)
qed

lemma keep_create:
  assumes "kernel_ok s" and "unat (attr_priority attr) \<le> 31" and "pthread_create attr s = Ok (e, r, s')"
  shows "kernel_ok s'"
proof (cases "free_slot s")
  case None
  with create_sp [OF assms(3)] assms(1) show ?thesis by simp
next
  case (Some t)
  note k = kernel_okD [OF assms(1)]
  have t: "t < pthread_idle" "thstate s t = PTHREAD_STATE_NONE"
    using free_slot_Some [OF Some] by (auto simp: pthread_idle_def CONFIG_PTHREAD_MAX_NUM_def)
  then have clean: "fr s t = FRun" "mutex_queue (threads s t) = []"
    using fr_okD(4,5) [OF k(3), of t] by (auto simp: alive_def)
  then have "sleep_on (threads s t) = None" using fr_okD(1) [OF k(3), of t] by simp
  from create_spec [OF k(1) Some assms(2) this clean(2)] assms(3) have kv: "kinv s'" by auto
  let ?e = "set_state t PTHREAD_STATE_RUNNING (upd_th t (create_init attr) s)"
  have sp: "sp_frame ?e s'" using create_sp [OF assms(3)] Some by simp
  have "fr_ok ?e"
    using k(3) t clean unfolding fr_ok_def by (auto simp: create_init_def alive_def split: if_splits)
  moreover have "join_inv ?e"
    using join_inv_clear [OF k(2), of t] by (subst join_inv_frame [of _ "upd_th t (waiter_update (\<lambda>_. None)) s"]) (auto simp: create_init_def)
  ultimately show ?thesis using kernel_okI_sp [OF kv sp] k by simp
qed

lemma keep_exit:
  assumes "kernel_ok s" and "pthread_current s = c" and "fr s c = FRun" and "c \<noteq> pthread_idle"
    and "mutex_queue (threads s c) = []" and "pthread_exit r s = Ok s'"
  shows "kernel_ok s'"
proof -
  note k = kernel_okD [OF assms(1)]
  have "sleep_on (threads s c) = None" using fr_okD(1) [OF k(3), of c] assms(3) by simp
  moreover have nw: "waiter (threads s x) \<noteq> Some c" for x using fr_okD(2) [OF k(3), of x c] assms(3) by auto
  ultimately have kv: "kinv s'" using exit_spec [OF k(1) assms(2,4), of r] assms(6) by auto
  have "fr_ok (exit_effect r s)"
  proof -
    let ?d = "set_state c PTHREAD_STATE_NONE (upd_th c (th_retval_update (\<lambda>_. r)) s)"
    let ?x = "set_state c PTHREAD_STATE_EXIT (upd_th c (th_retval_update (\<lambda>_. r)) s)"
    have d: "fr_ok ?d" "fr_ok ?x"
      using k(3) assms(3-5) k(6) assms(2) unfolding fr_ok_def by (auto simp: alive_def)
    have "fr_ok (set_state w PTHREAD_STATE_RUNNING ?x)" if "waiter (threads s c) = Some w" for w
    proof (rule fr_ok_wake [OF d(2)])
      have "w \<noteq> c" "fr s w \<noteq> FRun" using nw [of c] fr_okD(2) [OF k(3) that] that by auto
      then show "alive (thstate ?x w)" using fr_okD(4) [OF k(3), of w] by simp
    qed
    with d show ?thesis by (auto simp: exit_effect_def Let_def assms(2) split: option.splits)
  qed
  moreover have "join_inv (exit_effect r s)"
    using k(2) by (subst join_inv_frame [of _ s]) (auto simp: exit_effect_def Let_def split: option.splits)
  moreover have "tm_ok (exit_effect r s)" using k(4) by (auto simp: exit_effect_def Let_def split: option.splits)
  ultimately show ?thesis using kernel_okI_sp [OF kv exit_sp [OF assms(6)]] by blast
qed

lemma keep_detach:
  assumes "kernel_ok s" and "pthread_detach t s = Ok (e, s')"
  shows "kernel_ok s'"
proof -
  note k = kernel_okD [OF assms(1)]
  from detach_spec [OF k(1), of t] assms(2) have kv: "kinv s'" by auto
  have "fr_ok (detach_effect t s)"
  proof -
    let ?s = "upd_th t (th_flags_update (\<lambda>f. f OR PTHREAD_FLAG_DETACH)) s"
    have f: "fr_ok ?s" using k(3) unfolding fr_ok_def by auto
    have "fr_ok (set_state w PTHREAD_STATE_RUNNING ?s)" if "waiter (threads s t) = Some w" for w
      by (rule fr_ok_wake [OF f]) (use fr_okD(2) [OF k(3) that] fr_okD(4) [OF k(3), of w] in auto)
    moreover have "fr_ok (set_state t PTHREAD_STATE_NONE s)" if "thstate s t = PTHREAD_STATE_EXIT"
      using k(3) that unfolding fr_ok_def by (auto simp: alive_def)
    ultimately show ?thesis using k(3) f by (auto simp: detach_effect_def Let_def split: option.splits)
  qed
  moreover have "join_inv (detach_effect t s)"
    using k(2) by (subst join_inv_frame [of _ s]) (auto simp: detach_effect_def Let_def split: option.splits)
  moreover have "tm_ok (detach_effect t s)" using k(4) by (auto simp: detach_effect_def Let_def split: option.splits)
  ultimately show ?thesis using kernel_okI_sp [OF kv detach_sp [OF assms(2)]] by blast
qed

text \<open>Joining: from ordinary code, and after being woken, with the target's \<open>waiter\<close> field cleared.\<close>

lemma fr_ok_suspend_join:
  assumes "fr_ok s" and "fr s c = FRun" and "c < pthread_idle" and "waiter (threads s t) = None"
  shows "fr_ok (set_fr c (FJoin t) (set_state c PTHREAD_STATE_SLEEPING (upd_th t (waiter_update (\<lambda>_. Some c)) s)))" (is "fr_ok ?e")
proof -
  have nw: "waiter (threads s x) \<noteq> Some c" for x using fr_okD(2) [OF assms(1), of x c] assms(2) by auto
  have nv: "c \<notin> set (cond_wq (conds s v))" for v using fr_okD(7) [OF assms(1), of c v] assms(2) by auto
  have st: "sleep_on (threads ?e x) = sleep_on (threads s x)" "mutex_queue (threads ?e x) = mutex_queue (threads s x)"
    "waiter (threads ?e x) = (if x = t then Some c else waiter (threads s x))"
    "thstate ?e x = (if x = c then PTHREAD_STATE_SLEEPING else thstate s x)"
    "fr ?e = (fr s)(c := FJoin t)" "conds ?e = conds s" for x
    by auto
  show ?thesis
    unfolding fr_ok_def st using assms nw nv unfolding fr_ok_def by (auto simp: alive_def)
qed

lemma keep_join_pass:
  assumes "kinv s" and "join_inv s" and "fr_ok (set_fr c FRun s)" and "tm_ok s" and "\<not> timed (fr s c)"
    and "pthread_current s = c" and "c < pthread_idle" and "pthread_join_pass t s = Ok (r, s')"
  shows "kernel_ok (set_fr c (if r = JoinBlocked then FJoin t else FRun) s')"
proof -
  have so: "sleep_on (threads s c) = None" using fr_okD(1) [OF assms(3), of c] by simp
  have nw: "\<And>x. waiter (threads s x) \<noteq> Some c" using fr_okD(2) [OF assms(3)] by fastforce
  have nv: "\<And>v. c \<notin> set (cond_wq (conds s v))" using fr_okD(7) [OF assms(3), of c] by auto
  from join_pass_spec [OF assms(1,2,6,7) nw so, of t] assms(8) have r: "r = join_answer t s" and kv: "kinv s'" "join_inv s'"
    by auto
  show ?thesis
  proof (cases "r = JoinBlocked")
    case True
    let ?e = "set_state c PTHREAD_STATE_SLEEPING (upd_th t (waiter_update (\<lambda>_. Some c)) s)"
    have sp: "sp_frame ?e s'" using join_sp(1) [OF assms(8) True] assms(6) by simp
    have wn: "waiter (threads s t) = None" using r True by (auto simp: join_answer_def split: if_splits)
    have "fr_ok (set_fr c (FJoin t) (set_state c PTHREAD_STATE_SLEEPING (upd_th t (waiter_update (\<lambda>_. Some c)) (set_fr c FRun s))))"
      by (rule fr_ok_suspend_join [OF assms(3)]) (use assms(7) wn in auto)
    then have "fr_ok (set_fr c (FJoin t) ?e)" by (simp add: set_fr_def upd_th_def)
    moreover have "tm_ok (set_fr c (FJoin t) ?e)" using assms(4,5) by (auto intro: tm_ok_set_fr)
    ultimately show ?thesis
      using True kv fr_ok_sp(1) [OF sp] tm_ok_sp(1) [OF sp] by (simp add: kernel_ok_def)
  next
    case False
    have "fr_ok (set_fr c FRun s') \<and> tm_ok s' \<and> fr s' = fr s"
      using join_sp(2) [OF assms(8) False]
    proof (elim disjE conjE)
      assume e: "s' = set_state t PTHREAD_STATE_NONE s" "thstate s t = PTHREAD_STATE_EXIT"
      then have "t \<noteq> c \<Longrightarrow> fr s t = FRun" using fr_okD(4) [OF assms(3), of t] by (auto simp: alive_def)
      with e assms(3,4) show ?thesis unfolding fr_ok_def by (auto simp: alive_def)
    next
      assume "s' = upd_th t (waiter_update (\<lambda>_. None)) (upd_th t (waiter_update (\<lambda>_. Some (pthread_current s))) s)"
      with assms(3,4) show ?thesis unfolding fr_ok_def by auto
    qed (use assms in auto)
    with False kv assms(5) show ?thesis by (simp add: kernel_ok_def tm_ok_set_fr)
  qed
qed

lemma keep_join:
  assumes "kernel_ok s" and "pthread_current s = c" and "fr s c = FRun" and "c \<noteq> pthread_idle" and "pthread_join t s = Ok (r, s')"
  shows "kernel_ok (set_fr c (if r = JoinBlocked then FJoin t else FRun) s')"
proof -
  note k = kernel_okD [OF assms(1)]
  have "fr_ok (set_fr c FRun s)" using k(3) assms(3) by (simp add: set_fr_same)
  from keep_join_pass [OF k(1,2) this k(4) _ assms(2)] k(6) assms(2-5) show ?thesis by (simp add: pthread_join_def)
qed

lemma keep_join_resume:
  assumes "kernel_ok s" and "pthread_current s = c" and "fr s c = FJoin t" and "pthread_join_resume t s = Ok (r, s')"
  shows "kernel_ok (set_fr c (if r = JoinBlocked then FJoin t else FRun) s')"
proof -
  note k = kernel_okD [OF assms(1)]
  let ?s = "upd_th t (waiter_update (\<lambda>_. None)) s"
  have ci: "c < pthread_idle" using fr_okD(4) [OF k(3), of c] assms(3) by auto
  have nv: "\<And>v. c \<notin> set (cond_wq (conds s v))" using fr_okD(7) [OF k(3), of c] assms(3) by auto
  have "fr_ok (set_fr c FRun ?s)"
    using k(3) assms(3) nv kinvD(7) [OF k(1)] assms(2) unfolding fr_ok_def by (auto simp: alive_def split: if_splits)
  moreover have "join_inv ?s" by (rule join_inv_clear [OF k(2)])
  ultimately show ?thesis
    using keep_join_pass [of ?s c t r s'] k(1,4) assms ci by (simp add: pthread_join_resume_def)
qed

section \<open>Condition variables, sleeping and ticks\<close>

lemma alive_cv: "fr_ok s \<Longrightarrow> t \<in> set (cond_wq (conds s v)) \<Longrightarrow> alive (thstate s t)"
proof -
  assume a: "fr_ok s" "t \<in> set (cond_wq (conds s v))"
  then have "waits_cv (fr s t) = Some v" using fr_okD(7) by blast
  then have "fr s t \<noteq> FRun" by auto
  then show ?thesis using fr_okD(4) [OF a(1)] by blast
qed

lemma fr_ok_unqueue:
  assumes "fr_ok s" and "set q \<subseteq> set (cond_wq (conds s v))" and "distinct q"
  shows "fr_ok (upd_cv v (cond_wq_update (\<lambda>_. q)) s)"
  using assms unfolding fr_ok_def by auto

lemma join_inv_cv [simp]: "join_inv (upd_cv v f s) = join_inv s"
  by (rule join_inv_frame) simp

lemma keep_signal:
  assumes "kernel_ok s" and "pthread_cond_signal v s = Ok s'"
  shows "kernel_ok s'"
proof (cases "wake_target s (cond_wq (conds s v))")
  case None
  with cond_signal_sp [OF assms(2)] assms(1) show ?thesis by simp
next
  case (Some t)
  note k = kernel_okD [OF assms(1)]
  from cond_signal_spec [OF k(1) Some] assms(2) have kv: "kinv s'" by auto
  let ?q = "upd_cv v (cond_wq_update (\<lambda>_. remove1 t (cond_wq (conds s v)))) s"
  have sp: "sp_frame (set_state t PTHREAD_STATE_RUNNING ?q) s'" using cond_signal_sp [OF assms(2)] Some by simp
  have "distinct (cond_wq (conds s v))" using k(3) by (simp add: fr_ok_def)
  then have "fr_ok ?q" using k(3) set_remove1_subset by (intro fr_ok_unqueue) auto
  moreover have "alive (thstate ?q t)" using alive_cv [OF k(3) wake_targetD [OF Some]] by simp
  ultimately have "fr_ok (set_state t PTHREAD_STATE_RUNNING ?q)" by (rule fr_ok_wake)
  with kernel_okI_sp [OF kv sp] k show ?thesis by simp
qed

lemma wake_all_sp:
  assumes "cond_wake_all v ws s = Ok s'" and "fr_ok s" and "tm_ok s" and "join_inv s"
    and "\<And>t. t \<in> set ws \<Longrightarrow> alive (thstate s t)" and "set ws \<subseteq> set (cond_wq (conds s v))" and "distinct ws"
  shows "fr_ok s' \<and> tm_ok s' \<and> join_inv s'"
  using assms
proof (induction ws arbitrary: s)
  case (Cons w ws)
  let ?q = "upd_cv v (cond_wq_update (\<lambda>_. ws)) s"
  from Cons.prems(1) obtain s1 where s1: "pthread_set_running w ?q = Ok s1" "cond_wake_all v ws s1 = Ok s'"
    by (auto simp: result_simps)
  note sp = set_running_sp [OF s1(1)]
  have "fr_ok ?q" using Cons.prems(2,6,7) by (intro fr_ok_unqueue) auto
  then have "fr_ok (set_state w PTHREAD_STATE_RUNNING ?q)" using Cons.prems(5) by (intro fr_ok_wake) auto
  then have "fr_ok s1" using fr_ok_sp(2) [OF sp] by simp
  moreover have "tm_ok s1" using tm_ok_sp(2) [OF sp] Cons.prems(3) by simp
  moreover have "join_inv s1" using join_inv_sp [OF sp] Cons.prems(4) by simp
  moreover have "alive (thstate s1 t)" if "t \<in> set ws" for t
    using Cons.prems(5) [of t] that sp_frameD(1) [OF sp, of t] by (auto simp: alive_def)
  moreover have "cond_wq (conds s1 v) = ws" using sp_frameD(8) [OF sp] by simp
  ultimately show ?case using Cons.IH [OF s1(2)] Cons.prems(7) by simp
qed simp

lemma keep_broadcast:
  assumes "kernel_ok s" and "pthread_cond_broadcast v s = Ok s'"
  shows "kernel_ok s'"
proof -
  note k = kernel_okD [OF assms(1)]
  from cond_broadcast_spec [OF k(1), of v] assms(2) have kv: "kinv s'" by auto
  show ?thesis
  proof (cases "cond_wq (conds s v) = []")
    case False
    with assms(2) obtain s1 where s1: "cond_wake_all v (cond_wq (conds s v)) s = Ok s1" "schedule s1 = Ok s'"
      by (auto simp: pthread_cond_broadcast_def result_simps)
    have "distinct (cond_wq (conds s v))" using k(3) by (simp add: fr_ok_def)
    with wake_all_sp [OF s1(1) k(3,4,2)] alive_cv [OF k(3)] have "fr_ok s1" "tm_ok s1" "join_inv s1" by auto
    with kernel_okI_sp [OF kv schedule_sp [OF s1(2)]] show ?thesis by simp
  qed (use assms in \<open>simp add: pthread_cond_broadcast_def\<close>)
qed

lemma set_fr_comm:
  "set_fr c f (upd_th t g s) = upd_th t g (set_fr c f s)" "set_fr c f (upd_mx m h s) = upd_mx m h (set_fr c f s)"
  "set_fr c f (upd_cv v k s) = upd_cv v k (set_fr c f s)"
  "set_fr c f (lock_released m s) = lock_released m (set_fr c f s)"
  by (simp_all add: set_fr_def upd_th_def upd_mx_def upd_cv_def lock_released_def)

lemma keep_cond_wait:
  assumes "kernel_ok s" and "pthread_current s = c" and "fr s c = FRun" and "c \<noteq> pthread_idle"
    and "m \<in> set (mutex_queue (threads s c))" and "recursive_count (mutexes s m) = 1" and "cond_wait_begin v m s = Ok s'"
  shows "kernel_ok (set_fr c (FCondUnlocked v m a) s')"
proof -
  note k = kernel_okD [OF assms(1)] and mx = kinvD(4) [OF kernel_okD(1) [OF assms(1)]]
  let ?f = "FCondUnlocked v m a"
  let ?s = "set_state c PTHREAD_STATE_SLEEPING (upd_cv v (cond_wq_update (\<lambda>q. q @ [c])) s)"
  have so: "sleep_on (threads s c) = None" using fr_okD(1) [OF k(3), of c] assms(3) by simp
  from cond_wait_begin_spec [OF k(1) assms(2,4) so assms(5,6), of v] assms(7) have kv: "kinv s'" by auto
  have nv: "\<And>w. c \<notin> set (cond_wq (conds s w))" using fr_okD(7) [OF k(3), of c] assms(3) by auto
  have base: "fr_ok (set_fr c ?f ?s)"
    using k(3,6) nv assms(2-4) unfolding fr_ok_def by (auto simp: alive_def)
  let ?e = "case wake_chosen m ?s of None \<Rightarrow> lock_released m ?s | Some t \<Rightarrow> set_state t PTHREAD_STATE_RUNNING (lock_released m ?s)"
  have sp: "sp_frame ?e s'" using unlock_sp [OF cond_wait_begin_sp [OF assms(7)]] assms(6) unfolding assms(2) by simp
  have rel: "fr_ok (set_fr c ?f (lock_released m ?s))"
    unfolding set_fr_comm by (rule fr_ok_released) (use base assms(2) in \<open>simp_all add: alive_def set_fr_comm\<close>)
  have "fr_ok (set_fr c ?f ?e)"
  proof (cases "wake_chosen m ?s")
    case (Some t)
    then have "t \<in> set (wq (mutexes s m))" using wake_chosen_mem [of m ?s t] by simp
    then have "alive (thstate s t)" by (rule alive_wq [OF k(3) mx])
    then have "alive (thstate (set_fr c ?f (lock_released m ?s)) t)" by (auto simp: lock_released_def alive_def)
    from fr_ok_wake [OF rel this] Some show ?thesis by (simp add: set_fr_comm)
  qed (use rel in simp)
  moreover have "tm_ok (set_fr c ?f ?e)" using k(4) assms(3) by (auto intro!: tm_ok_set_fr split: option.splits)
  moreover have "join_inv ?e" using k(2) by (auto split: option.splits)
  ultimately show ?thesis using kernel_okI_fr [OF kv sp] by simp
qed

lemma fr_ok_reframe:
  assumes "fr_ok s" and "waits_mx f = waits_mx (fr s c)" and "waits_cv f = waits_cv (fr s c)" and "f \<noteq> FRun"
    and "fr s c \<noteq> FRun" and "\<And>x. fr s c \<noteq> FJoin x"
  shows "fr_ok (set_fr c f s)"
  using assms unfolding fr_ok_def by (auto simp: alive_def)

text \<open>Each of the 32 threads has at most one timer, so there is always room for one more.\<close>

lemma active_card: "timer_ok b h \<Longrightarrow> card (active h) = hn h"
proof -
  assume "timer_ok b h"
  then have "inj_on (heap h) {..<hn h}" using idx_inj by (auto simp: timer_ok_def inj_on_def)
  then show ?thesis by (simp add: active_def card_image)
qed

lemma timer_room:
  assumes "fr_ok s" and "tm_ok s" and "\<not> timed (fr s c)" and "c < pthread_idle"
  shows "c \<notin> active (tctx s)" and "hn (tctx s) < CONFIG_TIMER_MAX_NUM"
proof -
  show out: "c \<notin> active (tctx s)" using assms(2,3) by (auto simp: tm_ok_def)
  have "active (tctx s) \<subseteq> {..<pthread_idle} - {c}"
  proof
    fix t assume t: "t \<in> active (tctx s)"
    then have "timed (fr s t)" using assms(2) by (simp add: tm_ok_def)
    then have "fr s t \<noteq> FRun" by auto
    with fr_okD(4) [OF assms(1), of t] t out show "t \<in> {..<pthread_idle} - {c}" by auto
  qed
  then have "card (active (tctx s)) \<le> card ({..<pthread_idle} - {c})" by (intro card_mono) auto
  also have "\<dots> = pthread_idle - 1" using assms(4) by simp
  finally show "hn (tctx s) < CONFIG_TIMER_MAX_NUM"
    using active_card [of "ticks s" "tctx s"] assms(2)
    by (simp add: tm_ok_def pthread_idle_def CONFIG_PTHREAD_MAX_NUM_def CONFIG_TIMER_MAX_NUM_def)
qed

lemma timeout_begin_keeps:
  fixes s :: ksys
  assumes "kpre s" and "pthread_current s = c" and "tm_ok s" and "c \<notin> active (tctx s)" and "hn (tctx s) < CONFIG_TIMER_MAX_NUM"
    and "unat timeout < 2 ^ 31" and "schedule_timeout_begin timeout s = Ok s'" and "timed f"
    and "fr_ok (set_fr c f s)" and "join_inv s"
  shows "kernel_ok (set_fr c f s')"
proof -
  have tk: "timer_ok (ticks s) (tctx s)" using assms(3) by (simp add: tm_ok_def)
  from schedule_timeout_begin_spec [OF assms(1,2) tk assms(4-6)] assms(7) have kv: "kinv s'" "ticks s' = ticks s"
    "timer_ok (ticks s') (tctx s')" "active (tctx s') = insert c (active (tctx s))" "tm_thread (timers (tctx s') c) = c"
    by auto
  let ?h = "(tctx s)\<lparr>timers := (timers (tctx s))(c := (timers (tctx s) c)\<lparr>expires := ticks s + timeout, tm_thread := c\<rparr>)\<rparr>"
  from assms(2,7) obtain h where h: "timer_add c ?h = Ok h" and sc: "schedule (s\<lparr>tctx := h\<rparr>) = Ok s'"
    by (auto simp: schedule_timeout_begin_def Let_def result_simps)
  note sp = schedule_sp [OF sc]
  have "\<exists>h'. timer_add c ?h = Ok h' \<and> timer_ok (ticks s) h' \<and> active h' = insert c (active ?h) \<and> same_times ?h h' \<and> hn h' = hn ?h + 1"
    by (rule timer_add_spec [OF timer_ok_new(1) [OF tk assms(4) refl]])
      (use assms(4-6) timer_ok_new(2) [OF tk assms(4) refl] in \<open>auto simp: due_def\<close>)
  with h have "same_times ?h h" by auto
  moreover have "tctx s' = h" "fr s' = fr s"
    using more_tkernel(1) [OF sp_frameD(10) [OF sp]] more_fr [OF sp_frameD(10) [OF sp]] by simp_all
  ultimately have "tm_thread (timers (tctx s') t) = t" if "t \<in> active (tctx s)" for t
    using that assms(3,4) by (auto simp: same_times_def tm_ok_def)
  with kv(3-5) assms(3,8) \<open>fr s' = fr s\<close> have tm: "tm_ok (set_fr c f s')" by (auto simp: tm_ok_def)
  have "fr_ok (set_fr c f (s\<lparr>tctx := h\<rparr>))" using assms(9) by (simp add: fr_ok_def)
  with fr_ok_sp(1) [OF sp] have "fr_ok (set_fr c f s')" by simp
  moreover have "join_inv s'"
    using join_inv_sp [OF sp] assms(10) join_inv_frame [of "s\<lparr>tctx := h\<rparr>" s] by simp
  ultimately show ?thesis using kv(1) tm by (simp add: kernel_ok_def)
qed

lemma keep_cond_block:
  assumes "kernel_ok s" and "pthread_current s = c" and "fr s c = FCondUnlocked v m a" and "delta_ok a s"
    and "cond_wait_block a s = Ok (p, s')"
  shows "kernel_ok (set_fr c (frame_of p v m) s')"
proof -
  note k = kernel_okD [OF assms(1)]
  have ci: "c < pthread_idle" using fr_okD(4) [OF k(3), of c] assms(3) by simp
  have re: "fr_ok (set_fr c (FCondSched v m) s)" "fr_ok (set_fr c (FCondTimed v m) s)"
    by (rule fr_ok_reframe [OF k(3)]; simp add: assms(3))+
  have tm: "tm_ok (set_fr c (FCondSched v m) s)" using k(4) assms(3) by (auto intro: tm_ok_set_fr)
  consider (sched) "p = InSchedule" "schedule s = Ok s'" | (out) "p = TimedOut" "s' = s"
    | (timed) d where "p = InScheduleTimeout" "schedule_timeout_begin d s = Ok s'" "unat d < 2 ^ 31"
    using assms(4,5) by (auto simp: cond_wait_block_def delta_ok_def result_simps split: option.splits sum.splits)
  then show ?thesis
  proof cases
    case sched
    from kinv_schedule [OF kinvD(1) [OF k(1)]] sched have "kinv s'" by auto
    from kernel_okI_fr [OF this schedule_sp [OF sched(2)] re(1) tm k(2)] sched(1) show ?thesis by (simp add: frame_of_def)
  next
    case out
    with re(1) tm k show ?thesis by (simp add: frame_of_def kernel_ok_def)
  next
    case timed
    have nt: "\<not> timed (fr s c)" using assms(3) by simp
    have "kernel_ok (set_fr c (FCondTimed v m) s')"
      by (rule timeout_begin_keeps [OF kinvD(1) [OF k(1)] assms(2) k(4) timer_room [OF k(3,4) nt ci] timed(3,2) _ re(2) k(2)]) simp
    with timed(1) show ?thesis by (simp add: frame_of_def)
  qed
qed

lemma timeout_end_keeps:
  assumes "kernel_ok s" and "pthread_current s = c" and "schedule_timeout_end s = Ok (r, s')" and "timed (fr s c)"
    and "fr_ok (set_fr c f s)"
  shows "kernel_ok (set_fr c f s')"
proof -
  note k = kernel_okD [OF assms(1)]
  have tk: "timer_ok (ticks s) (tctx s)" using k(4) by (simp add: tm_ok_def)
  from timer_delete_spec [OF tk, of c] obtain h where h: "timer_delete c (tctx s) = Ok h" "timer_ok (ticks s) h"
    "active h = active (tctx s) - {c}" "same_times (tctx s) h"
    by blast
  with assms(2,3) have s': "s' = s\<lparr>tctx := h\<rparr>" by (auto simp: schedule_timeout_end_def Let_def)
  have "tm_ok (set_fr c f s')" using h k(4) by (auto simp: tm_ok_def s' same_times_def)
  moreover have "fr_ok (set_fr c f s')" using assms(5) by (simp add: s' fr_ok_def)
  moreover have "join_inv s'" using k(2) join_inv_frame [of s' s] by (simp add: s')
  ultimately show ?thesis using k(1) by (simp add: kernel_ok_def s')
qed

lemma keep_cond_timed:
  assumes "kernel_ok s" and "pthread_current s = c" and "fr s c = FCondTimed v m" and "cond_wait_timed_end s = Ok (e, s')"
  shows "kernel_ok (set_fr c (FCondSched v m) s')"
proof -
  note k = kernel_okD [OF assms(1)]
  have re: "fr_ok (set_fr c (FCondSched v m) s)" by (rule fr_ok_reframe [OF k(3)]) (simp_all add: assms(3))
  from assms(4) obtain r where "schedule_timeout_end s = Ok (r, s')"
    by (auto simp: cond_wait_timed_end_def result_simps)
  from timeout_end_keeps [OF assms(1,2) this _ re] assms(3) show ?thesis by simp
qed

lemma kernel_finish:
  assumes "kernel_ok s" and "pthread_current s = c" and "waits_mx (fr s c) = None" and "waits_cv (fr s c) = Some v"
    and "\<not> timed (fr s c)"
  shows "kernel_ok (set_fr c FRun (cond_wait_finish v s))"
proof -
  note k = kernel_okD [OF assms(1)]
  have "fr_ok (set_fr c FRun (cond_wait_finish v s))"
    by (rule fr_ok_finish [OF k(3) assms(2-4)]) (use kinvD(7) [OF k(1)] assms(2) in simp)
  moreover have "tm_ok (set_fr c FRun (cond_wait_finish v s))"
    using k(4) assms(5) by (auto intro!: tm_ok_set_fr simp: cond_wait_finish_def)
  ultimately show ?thesis using k(1,2) by (simp add: kernel_ok_def cond_wait_finish_def)
qed

lemma keep_cond_lock:
  assumes "kernel_ok s" and "pthread_current s = c" and "fr s c = FCondSched v m" and "pthread_mutex_lock m s = Ok (b, s')"
  shows "kernel_ok (if b then set_fr c FRun (cond_wait_finish v s') else set_fr c (FCondLock v m) s')"
proof -
  note k = kernel_okD [OF assms(1)]
  have ci: "c \<noteq> pthread_idle" using fr_okD(4) [OF k(3), of c] assms(3) by auto
  note kl = keep_lock [OF assms(1,2) ci _ _ _ assms(4), of "FCondLock v m"]
  show ?thesis
  proof (cases b)
    case True
    with kl(1) assms(3) have "kernel_ok s'" "fr s' = fr s" "pthread_current s' = c" by auto
    with kernel_finish [OF this(1,3), of v] assms(3) True show ?thesis by simp
  qed (use kl(2) assms(3) in simp)
qed

lemma keep_cond_lock_resume:
  assumes "kernel_ok s" and "pthread_current s = c" and "fr s c = FCondLock v m" and "pthread_mutex_lock_loop m s = Ok (b, s')"
  shows "kernel_ok (if b then set_fr c FRun (cond_wait_finish v s') else set_fr c (FCondLock v m) s')"
proof (cases b)
  case True
  let ?z = "set_fr c (FCondSched v m) s'"
  from keep_loop(1) [OF assms(1,2) _ assms(4), of "FCondSched v m"] True assms(3) have "kernel_ok ?z" "pthread_current ?z = c" by auto
  from kernel_finish [OF this, of v] have "kernel_ok (set_fr c FRun (cond_wait_finish v ?z))" by simp
  moreover have "set_fr c FRun (cond_wait_finish v ?z) = set_fr c FRun (cond_wait_finish v s')"
    by (simp add: set_fr_def cond_wait_finish_def upd_cv_def)
  ultimately show ?thesis using True by simp
next
  case False
  with keep_loop(2) [OF assms(1,2) _ assms(4)] assms(3) show ?thesis by (simp add: set_fr_same)
qed

lemma keep_sleep:
  assumes "kernel_ok s" and "pthread_current s = c" and "fr s c = FRun" and "c \<noteq> pthread_idle"
    and "unat (secs * of_nat CONFIG_HZ) < 2 ^ 31" and "sleep_begin secs s = Ok s'"
  shows "kernel_ok (set_fr c FSleep s')"
proof -
  note k = kernel_okD [OF assms(1)]
  let ?s = "set_state c PTHREAD_STATE_SLEEPING s"
  have ci: "c < pthread_idle" using k(6) assms(2,4) by simp
  have nt: "\<not> timed (fr s c)" using assms(3) by simp
  have so: "sleep_on (threads s c) = None" using fr_okD(1) [OF k(3), of c] assms(3) by simp
  have nv: "\<And>w. c \<notin> set (cond_wq (conds s w))" using fr_okD(7) [OF k(3), of c] assms(3) by auto
  have kp: "kpre ?s" by (rule kpre_block [OF k(1)]) (use assms(2,4) so in auto)
  have "fr_ok (set_fr c FSleep ?s)"
    using k(3) ci nv assms(3) unfolding fr_ok_def by (auto simp: alive_def)
  moreover have "schedule_timeout_begin (secs * of_nat CONFIG_HZ) ?s = Ok s'"
    using assms(2,6) by (simp add: sleep_begin_def)
  moreover have "tm_ok ?s" "c \<notin> active (tctx ?s)" "hn (tctx ?s) < CONFIG_TIMER_MAX_NUM" "join_inv ?s" "pthread_current ?s = c"
    using k(2,4) timer_room [OF k(3,4) nt ci] assms(2) by simp_all
  ultimately show ?thesis using timeout_begin_keeps [OF kp] assms(5) by simp
qed

lemma keep_sleep_end:
  assumes "kernel_ok s" and "pthread_current s = c" and "fr s c = FSleep" and "sleep_end s = Ok (r, s')"
  shows "kernel_ok (set_fr c FRun s')"
proof -
  note k = kernel_okD [OF assms(1)]
  have nv: "\<And>w. c \<notin> set (cond_wq (conds s w))" using fr_okD(7) [OF k(3), of c] assms(3) by auto
  have "thstate s c = PTHREAD_STATE_RUNNING" using kinvD(7) [OF k(1)] assms(2) by simp
  then have "fr_ok (set_fr c FRun s)" using k(3) assms(3) nv unfolding fr_ok_def by (auto simp: alive_def)
  moreover from assms(4) obtain q where "schedule_timeout_end s = Ok (q, s')"
    by (auto simp: sleep_end_def result_simps)
  ultimately show ?thesis using timeout_end_keeps [OF assms(1,2)] assms(3) by simp
qed

lemma keep_tick:
  assumes "kernel_ok s" and "timer_interrupt s = Ok s'"
  shows "kernel_ok s'"
proof -
  note k = kernel_okD [OF assms(1)]
  have tk: "timer_ok (ticks s) (tctx s)" using k(4) by (simp add: tm_ok_def)
  from timer_interrupt_spec [OF k(1) tk] assms(2) have r: "kinv s'" "timer_ok (ticks s') (tctx s')" "same_times (tctx s) (tctx s')"
    "active (tctx s') \<subseteq> active (tctx s)"
    "\<And>t. thstate s' t = (if t \<in> due_threads (ticks s) 1 (tctx s) then PTHREAD_STATE_RUNNING else thstate s t)"
    and f: "tick_frame s s'"
    by auto
  have fs: "fr s' = fr s" using f by (cases s; cases s') (simp add: tick_frame_def)
  have due: "fr s t \<noteq> FRun" if "t \<in> due_threads (ticks s) 1 (tctx s)" for t
    using that k(4) by (auto simp: due_threads_def tm_ok_def)
  have le: "\<not> pthread_idle < t" if "t \<in> due_threads (ticks s) 1 (tctx s)" for t
    using fr_okD(4) [OF k(3) due [OF that]] by simp
  have "fr_ok s'"
    using k(3) f fs due le unfolding fr_ok_def by (auto simp: r(5) tick_frame_def alive_def)
  moreover have "tm_ok s'" using k(4) r(2-4) fs by (auto simp: tm_ok_def same_times_def)
  moreover have "join_inv s'" using k(2) join_inv_frame [of s' s] f by (simp add: tick_frame_def)
  ultimately show ?thesis using r(1) by (simp add: kernel_ok_def)
qed

text \<open>The invariant is inductive.\<close>

theorem step_kernel_ok: "step s s' \<Longrightarrow> kernel_ok s \<Longrightarrow> kernel_ok s'"
proof (induction rule: step.induct)
  case (Lock s c m b s')
  note kl = keep_lock [OF Lock(5,1,3) _ _ _ Lock(4), of "FLock m"]
  show ?case
  proof (cases b)
    case True
    with kl(1) Lock(2) have "kernel_ok s'" "fr s' c = FRun" by auto
    with True show ?thesis by (simp add: set_fr_same)
  qed (use kl(2) Lock(2) in simp)
next
  case (LockResume s c m b s')
  note kl = keep_loop [OF LockResume(4,1) _ LockResume(3)]
  show ?case
  proof (cases b)
    case True
    with kl(1) [of FRun] LockResume(2) show ?thesis by simp
  next
    case False
    with kl(2) LockResume(2) show ?thesis by (simp add: set_fr_same)
  qed
next
  case (Trylock s m e s')
  then show ?case by (blast intro: keep_trylock)
next
  case (Unlock s m s')
  then show ?case by (blast intro: keep_unlock)
next
  case (Yield s s')
  then show ?case by (blast intro: keep_yield)
next
  case (Setprio s p t s')
  then show ?case by (blast intro: keep_setprio)
next
  case (Create s attr e r s')
  then show ?case by (blast intro: keep_create)
next
  case (Exit s c r s')
  then show ?case by (blast intro: keep_exit)
next
  case (Detach s t e s')
  then show ?case by (blast intro: keep_detach)
next
  case (Join s c t r s')
  then show ?case by (blast intro: keep_join)
next
  case (JoinResume s c t r s')
  then show ?case by (blast intro: keep_join_resume)
next
  case (Signal s v s')
  then show ?case by (blast intro: keep_signal)
next
  case (Broadcast s v s')
  then show ?case by (blast intro: keep_broadcast)
next
  case (CondWait s c m v s' abstime)
  then show ?case by (blast intro: keep_cond_wait)
next
  case (CondBlock s c v m abstime p s')
  then show ?case by (blast intro: keep_cond_block)
next
  case (CondTimed s c v m e s')
  then show ?case by (blast intro: keep_cond_timed)
next
  case (CondLock s c v m b s')
  then show ?case by (blast intro: keep_cond_lock)
next
  case (CondLockResume s c v m b s')
  then show ?case by (blast intro: keep_cond_lock_resume)
next
  case (Sleep s c secs s')
  then show ?case by (blast intro: keep_sleep)
next
  case (SleepResume s c r s')
  then show ?case by (blast intro: keep_sleep_end)
next
  case (Tick s s')
  then show ?case by (blast intro: keep_tick)
qed

section \<open>The initial state\<close>

definition th_zero :: pthread where
  "th_zero =
     \<lparr>th_state = PTHREAD_STATE_NONE, th_retval = 0, th_stack_addr = 0, th_stack_size = 0, th_link = False,
      effective_priority = 0, priority = 0, timeslice = 0, th_flags = 0, th_name = [], waiter = None,
      error_code = E_OK, stime = \<lparr>tv_sec = 0, tv_usec = 0\<rparr>, sleep_on = None, mutex_queue = []\<rparr>"

definition mx_zero :: pthread_mutex where
  "mx_zero = \<lparr>lock = 1, wq = [], mtype = PTHREAD_MUTEX_FAST_NP, owner = None, recursive_count = 0\<rparr>"

definition tctx_zero :: timer_context where
  "tctx_zero = \<lparr>heap = (\<lambda>_. 0), hn = 0, timers = (\<lambda>_. \<lparr>expires = 0, ti = TIMER_INVALID_INDEX, tm_thread = 0\<rparr>)\<rparr>"

text \<open>
  The zeroed globals, with every mutex as \<open>pthread_mutex_init\<close> leaves it and every condition queue empty;
  \<open>kernel_main\<close> first calls \<open>pthread_init\<close> on them.
\<close>

definition zeroed :: ksys where
  "zeroed =
     \<lparr>threads = (\<lambda>_. th_zero), rq_level = (\<lambda>_. []), rq_bitmap = 0, pthread_current = pthread_idle, pthread_next = None,
      in_irq = False, mutexes = (\<lambda>_. mx_zero), conds = (\<lambda>_. \<lparr>cond_wq = []\<rparr>), tctx = tctx_zero, ticks = 0,
      wall_tv = \<lparr>tv_sec = 0, tv_usec = 0\<rparr>, wall_tz = \<lparr>tz_minuteswest = -480, tz_dsttime = 0\<rparr>,
      monotonic_clock = \<lparr>tv_sec = 0, tv_usec = 0\<rparr>, fr = (\<lambda>_. FRun)\<rparr>"

definition booted :: "ksys \<Rightarrow> bool" where
  "booted s \<longleftrightarrow> (\<exists>stack_bottom. pthread_init stack_bottom 1024 zeroed = Ok s)"

inductive reachable :: "ksys \<Rightarrow> bool" where
  Boot: "booted s \<Longrightarrow> reachable s"
| Step: "reachable s \<Longrightarrow> step s s' \<Longrightarrow> reachable s'"

lemma pthread_init_Ok: "\<exists>s. pthread_init b n zeroed = Ok s"
  by (simp add: pthread_init_def run_queue_enqueue_def run_queue_init_def zeroed_def idle_init_def Let_def)

lemma boot_state:
  assumes "booted s"
  shows "threads s = (\<lambda>_. th_zero)(pthread_idle := threads s pthread_idle)"
    and "th_state (threads s pthread_idle) = PTHREAD_STATE_RUNNING" "th_link (threads s pthread_idle)"
    "effective_priority (threads s pthread_idle) = 0" "priority (threads s pthread_idle) = 0" "waiter (threads s pthread_idle) = None"
    "sleep_on (threads s pthread_idle) = None" "mutex_queue (threads s pthread_idle) = []"
    and "rq_level s = (\<lambda>_. [])(0 := [pthread_idle])" "rq_bitmap s = push_bit 31 1" "pthread_current s = pthread_idle"
    "pthread_next s = Some pthread_idle" "\<not> in_irq s" "mutexes s = (\<lambda>_. mx_zero)" "conds s = (\<lambda>_. \<lparr>cond_wq = []\<rparr>)"
    "tctx s = tctx_zero" "ticks s = 0" "fr s = (\<lambda>_. FRun)"
  using assms
  by (auto simp: booted_def pthread_init_def run_queue_enqueue_def run_queue_init_def zeroed_def idle_init_def Let_def upd_th_def)

lemma boot_rq: "booted s \<Longrightarrow> rq_wf s"
proof -
  assume a: "booted s"
  note b = boot_state [OF a]
  have t: "linked s t \<longleftrightarrow> t = pthread_idle" for t by (subst b(1)) (simp add: b(3) th_zero_def)
  have e: "eprio s t = 0" for t by (subst b(1)) (simp add: b(4) th_zero_def)
  have "bit (rq_bitmap s) (31 - p) \<longleftrightarrow> p = 0" if "p \<le> 31" for p
    using that unfolding b(10) bit_push_bit_iff by (auto simp: bit_1_iff)
  then show ?thesis
    unfolding rq_wf_def by (auto simp: b(9) t e)
qed

lemma boot_ok: "booted s \<Longrightarrow> kernel_ok s"
proof -
  assume a: "booted s"
  note b = boot_state [OF a]
  have th: "threads s t = (if t = pthread_idle then threads s pthread_idle else th_zero)" for t
    by (subst b(1)) simp
  have "linked s t \<longleftrightarrow> t = pthread_idle" "thstate s t = PTHREAD_STATE_RUNNING \<longleftrightarrow> t = pthread_idle" "eprio s t = 0" for t
    by (subst th, simp add: b(2-4) th_zero_def)+
  then have "sched_inv s" using boot_rq [OF a] by (simp add: sched_inv_def sched_wf_def)
  moreover have z: "sleep_on (threads s t) = None" "mutex_queue (threads s t) = []" "priority (threads s t) = 0"
    "waiter (threads s t) = None" for t
    by (subst th, simp add: b(5-8) th_zero_def)+
  moreover have "mx_inv s"
    by (simp add: mx_inv_def mx_owned_def mx_waits_def wake_ok_def mutex_ok_def b(14) mx_zero_def z)
  moreover have "prios_ok s" by (simp add: prios_ok_def z)
  ultimately have "kinv s"
    using b(2,3,11-13) by (simp add: kinv_def kpre_def ksched_def sched_inv_pre)
  moreover have "join_inv s" using z(4) by (simp add: join_inv_def waits_for_def acyclic_def)
  moreover have "thstate s t = (if t = pthread_idle then PTHREAD_STATE_RUNNING else PTHREAD_STATE_NONE)" for t
    by (subst th) (simp add: b(2) th_zero_def)
  then have "fr_ok s" by (simp add: fr_ok_def z b(15,18) alive_def)
  moreover have "tm_ok s"
    by (simp add: tm_ok_def timer_ok_def b(16) tctx_zero_def idx_ok_def window_def heap_ordered_def ordered_def active_def)
  ultimately show ?thesis by (simp add: kernel_ok_def)
qed

theorem reachable_ok: "reachable s \<Longrightarrow> kernel_ok s"
  by (induction rule: reachable.induct) (auto intro: boot_ok step_kernel_ok)

section \<open>Consequences\<close>

text \<open>The effects on the owners of mutexes.\<close>

lemma sp_owner: "sp_frame e s' \<Longrightarrow> owner (mutexes s' m) = owner (mutexes e m)"
  by (simp add: sp_frameD)

lemma lock_owner:
  assumes "mx_inv s" and "pthread_mutex_lock k s = Ok (b, s')" and "owner (mutexes s m) = Some t"
  shows "owner (mutexes s' m) = Some t"
proof -
  have "lock (mutexes s m) \<noteq> 1" using mutex_free [OF mx_invD(3) [OF assms(1)]] assms(3) by simp
  then have "owner (mutexes (lock_effect k s) m) = Some t"
    using assms(3) by (auto simp: lock_effect_def mutex_own_def lock_asleep_def lock_waiting_def Let_def)
  with sp_owner [OF lock_sp(1) [OF assms(2)]] show ?thesis by simp
qed

lemma loop_owner:
  assumes "mx_inv s" and "pthread_mutex_lock_loop k s = Ok (b, s')" and "owner (mutexes s m) = Some t"
  shows "owner (mutexes s' m) = Some t"
proof -
  have l: "lock (mutexes s m) \<noteq> 1" using mutex_free [OF mx_invD(3) [OF assms(1)]] assms(3) by simp
  have "k \<noteq> m" if b using assms(2) that l by (auto simp: pthread_mutex_lock_loop_def Let_def result_simps split: if_splits)
  then have "owner (mutexes (if b then lock_taken k s else lock_asleep k s) m) = Some t"
    using assms(3) by (auto simp: lock_taken_def mutex_own_def lock_asleep_def Let_def)
  with sp_owner [OF lock_loop_sp [OF assms(2)]] show ?thesis by simp
qed

lemma unlock_owner:
  assumes "pthread_mutex_unlock k s = Ok s'" and "k \<noteq> m" and "owner (mutexes s m) = Some t"
  shows "owner (mutexes s' m) = Some t"
proof (cases "recursive_count (mutexes s k) = 1")
  case True
  with unlock_sp [OF assms(1)] assms(2,3) show ?thesis
    by (auto simp: lock_released_def split: option.splits dest!: sp_owner [of _ _ m])
next
  case False
  with unlock_sp [OF assms(1)] assms(2,3) show ?thesis by simp
qed

lemma schedule_timeout_mutexes: "schedule_timeout_begin d s = Ok s' \<Longrightarrow> mutexes s' = mutexes s"
  "schedule_timeout_end s = Ok (r, s') \<Longrightarrow> mutexes s' = mutexes s"
  by (auto simp: schedule_timeout_begin_def schedule_timeout_end_def Let_def result_simps dest!: schedule_sp sp_frameD(7))

lemma wake_all_mutexes: "cond_wake_all v ws s = Ok s' \<Longrightarrow> mutexes s' = mutexes s"
proof (induction ws arbitrary: s)
  case (Cons w ws)
  then obtain s1 where "pthread_set_running w (upd_cv v (cond_wq_update (\<lambda>_. ws)) s) = Ok s1" "cond_wake_all v ws s1 = Ok s'"
    by (auto simp: result_simps)
  with Cons.IH [of s1] sp_frameD(7) [OF set_running_sp] show ?case by fastforce
qed simp

lemma broadcast_mutexes: "pthread_cond_broadcast v s = Ok s' \<Longrightarrow> mutexes s' = mutexes s"
  by (auto simp: pthread_cond_broadcast_def result_simps wake_all_mutexes split: if_splits dest!: schedule_sp sp_frameD(7))

lemma join_mutexes:
  assumes "pthread_join_pass t s = Ok (r, s')"
  shows "mutexes s' = mutexes s"
proof (cases "r = JoinBlocked")
  case True
  from sp_frameD(7) [OF join_sp(1) [OF assms True]] show ?thesis by simp
next
  case False
  from join_sp(2) [OF assms False] show ?thesis by auto
qed

text \<open>Nobody but its owner can end the ownership of a mutex.\<close>

lemma owner_stable:
  assumes "step s s'" and "kernel_ok s" and "owner (mutexes s m) = Some t" and "pthread_current s \<noteq> t"
  shows "owner (mutexes s' m) = Some t"
  using assms
proof (induction rule: step.induct)
  case (Lock s c k b s')
  then show ?case using lock_owner [OF kinvD(4) [OF kernel_okD(1)]] by auto
next
  case (LockResume s c k b s')
  then show ?case using loop_owner [OF kinvD(4) [OF kernel_okD(1)]] by auto
next
  case (Trylock s k e s')
  have "lock (mutexes s m) \<noteq> 1"
    using mutex_free [OF mx_invD(3) [OF kinvD(4) [OF kernel_okD(1) [OF Trylock(3)]]]] Trylock(4) by simp
  with Trylock show ?case
    by (auto simp: pthread_mutex_trylock_def mutex_own_def Let_def split: if_splits)
next
  case (Unlock s k s')
  have "owner (mutexes s k) = Some (pthread_current s)"
    using mx_invD(1) [OF kinvD(4) [OF kernel_okD(1) [OF Unlock(4)]]] Unlock(2) by blast
  then have "k \<noteq> m" using Unlock(5,6) by auto
  with unlock_owner [OF Unlock(3) _ Unlock(5)] show ?case by simp
next
  case (CondWait s c k v s' abstime)
  have "owner (mutexes s k) = Some c"
    using mx_invD(1) [OF kinvD(4) [OF kernel_okD(1) [OF CondWait(7)]]] CondWait(4) by blast
  then have "k \<noteq> m" using CondWait(1,8,9) by auto
  with unlock_owner [OF cond_wait_begin_sp [OF CondWait(6)], of m t] CondWait(8) show ?case by simp
next
  case (CondBlock s c v k abstime p s')
  then show ?case
    by (auto simp: cond_wait_block_def result_simps schedule_timeout_mutexes split: option.splits sum.splits
        dest!: schedule_sp sp_frameD(7))
next
  case (CondTimed s c v k e s')
  then show ?case by (auto simp: cond_wait_timed_end_def result_simps schedule_timeout_mutexes)
next
  case (CondLock s c v k b s')
  then show ?case using lock_owner [OF kinvD(4) [OF kernel_okD(1)]] by (auto simp: cond_wait_finish_def)
next
  case (CondLockResume s c v k b s')
  then show ?case using loop_owner [OF kinvD(4) [OF kernel_okD(1)]] by (auto simp: cond_wait_finish_def)
next
  case (Sleep s c secs s')
  then show ?case by (auto simp: sleep_begin_def schedule_timeout_mutexes)
next
  case (SleepResume s c r s')
  then show ?case by (auto simp: sleep_end_def result_simps schedule_timeout_mutexes)
next
  case (Tick s s')
  have "timer_ok (ticks s) (tctx s)" using kernel_okD(4) [OF Tick(2)] by (simp add: tm_ok_def)
  from timer_interrupt_spec [OF kernel_okD(1) [OF Tick(2)] this] Tick show ?case by (auto simp: tick_frame_def)
next
  case (Setprio s p x s')
  from setschedprio_kinv(2) [OF kernel_okD(1) [OF Setprio(5)] Setprio(2-4)] Setprio(6) show ?case
    by (auto dest: sp_owner [of _ _ m])
next
  case (Exit s c r s')
  then show ?case using sp_owner [OF exit_sp [OF Exit(5)], of m]
    by (auto simp: exit_effect_def Let_def split: option.splits if_splits)
next
  case (Detach s x e s')
  then show ?case using sp_owner [OF detach_sp [OF Detach(2)], of m]
    by (auto simp: detach_effect_def Let_def split: option.splits if_splits)
next
  case (Create s attr e r s')
  then show ?case using create_sp [OF Create(3)]
    by (auto split: option.splits dest: sp_owner [of _ _ m])
next
  case (Join s c x r s')
  then show ?case using join_mutexes [of x s r s'] by (simp add: pthread_join_def)
next
  case (JoinResume s c x r s')
  then show ?case using join_mutexes [of x "upd_th x (waiter_update (\<lambda>_. None)) s" r s'] by (simp add: pthread_join_resume_def)
next
  case (Signal s v s')
  then show ?case using cond_signal_sp [OF Signal(2)] by (auto split: option.splits dest: sp_owner [of _ _ m])
next
  case (Broadcast s v s')
  then show ?case using broadcast_mutexes [OF Broadcast(2)] by simp
next
  case (Yield s s')
  then show ?case using schedule_sp [of s s'] by (auto simp: pthread_yield_def dest: sp_owner [of _ _ m])
qed

end
