(* ===== verification/Machine.thy ===== *)
theory Machine
  imports TextBuffer
begin

text \<open>
  The processor side of the kernel: segment and gate descriptors (\<open>src/arch/i386/kernel/gdt.c\<close>, \<open>idt.c\<close>), the
  interrupt controller and the interval timer (\<open>src/arch/i386/drivers/pic.c\<close>, \<open>pit.c\<close>), the handler table of
  \<open>src/arch/i386/kernel/interrupt.c\<close>, and the stack frames of threads (\<open>arch_pthread_init\<close> in \<open>arch.c\<close>, the save and
  restore paths of \<open>isr.S\<close>).

  Bit fields are words of their width, so storing truncates as in C.  The value \<open>inb\<close> reads is the argument
  \<open>inb\<close> of the operations that call it; writes go to a port trace.  The build has \<open>CONFIG_USERSPACE = 0\<close> and
  \<open>CONFIG_SWI = 0\<close>.
\<close>

section \<open>Segment descriptors\<close>

record gd =
  gd_limit_low :: u16
  gd_base_addr_low :: u16
  gd_base_addr_mid :: u8
  gd_access :: "1 word"
  gd_rw :: "1 word"
  gd_dir_conform :: "1 word"
  gd_exe :: "1 word"
  gd_s :: "1 word"
  gd_privilege :: "2 word"
  gd_present :: "1 word"
  gd_limit_high :: "4 word"
  gd_user :: "1 word"
  gd_unused :: "1 word"
  gd_size :: "1 word"
  gd_granularity :: "1 word"
  gd_base_addr_high :: u8

definition gd_set_base_addr :: "u32 \<Rightarrow> gd \<Rightarrow> gd" where
  "gd_set_base_addr base gd =
     gd\<lparr>gd_base_addr_low := ucast base, gd_base_addr_mid := ucast (drop_bit 16 base),
        gd_base_addr_high := ucast (drop_bit 24 base)\<rparr>"

definition gd_set_limit :: "u32 \<Rightarrow> gd \<Rightarrow> gd" where
  "gd_set_limit limit gd = gd\<lparr>gd_limit_low := ucast limit, gd_limit_high := ucast (drop_bit 16 limit)\<rparr>"

definition gd_zero :: gd where
  "gd_zero =
     \<lparr>gd_limit_low = 0, gd_base_addr_low = 0, gd_base_addr_mid = 0, gd_access = 0, gd_rw = 0, gd_dir_conform = 0,
      gd_exe = 0, gd_s = 0, gd_privilege = 0, gd_present = 0, gd_limit_high = 0, gd_user = 0, gd_unused = 0,
      gd_size = 0, gd_granularity = 0, gd_base_addr_high = 0\<rparr>"

definition gd_set_code :: "u8 \<Rightarrow> u32 \<Rightarrow> u32 \<Rightarrow> gd \<Rightarrow> gd" where
  "gd_set_code privilege base limit gd =
     (gd_set_limit limit (gd_set_base_addr base gd))
       \<lparr>gd_access := 0, gd_rw := 1, gd_dir_conform := 0, gd_exe := 1, gd_s := 1, gd_privilege := ucast privilege,
        gd_present := 1, gd_user := 0, gd_unused := 0, gd_size := 1, gd_granularity := 1\<rparr>"

definition gd_set_data :: "u8 \<Rightarrow> u32 \<Rightarrow> u32 \<Rightarrow> gd \<Rightarrow> gd" where
  "gd_set_data privilege base limit gd =
     (gd_set_limit limit (gd_set_base_addr base gd))
       \<lparr>gd_access := 0, gd_rw := 1, gd_dir_conform := 0, gd_exe := 0, gd_s := 1, gd_privilege := ucast privilege,
        gd_present := 1, gd_user := 0, gd_unused := 0, gd_size := 1, gd_granularity := 1\<rparr>"

text \<open>The table that \<open>lgdt\<close> loads, from whatever it held before.\<close>

definition gdt_init :: "gd list \<Rightarrow> gd list" where
  "gdt_init gdt =
     [gd_zero, gd_set_code 0 0 0xffffffff (gdt ! 1), gd_set_data 0 0 0xffffffff (gdt ! 2),
      gd_set_code 3 0 0xffffffff (gdt ! 3), gd_set_data 3 0 0xffffffff (gdt ! 4)]"

section \<open>Gate descriptors\<close>

datatype id_type = ID_TYPE_INTERRUPT_GATE | ID_TYPE_TRAP_GATE

fun id_type_bits :: "id_type \<Rightarrow> 3 word" where
  "id_type_bits ID_TYPE_INTERRUPT_GATE = 6"
| "id_type_bits ID_TYPE_TRAP_GATE = 7"

record gate =
  id_base_addr_low :: u16
  id_seg_sel :: u16
  id_zero :: u8
  id_type_field :: "3 word"
  id_gate_32bit :: "1 word"
  id_zero_1 :: "1 word"
  id_privilege :: "2 word"
  id_present :: "1 word"
  id_base_addr_high :: u16

definition KERNEL_CS :: u16 where "KERNEL_CS = 8"

definition IRQ_MAX :: nat where "IRQ_MAX = 47"

definition id_set :: "u32 \<Rightarrow> u8 \<Rightarrow> id_type \<Rightarrow> gate \<Rightarrow> gate" where
  "id_set addr privilege type d =
     d\<lparr>id_base_addr_low := ucast addr, id_seg_sel := KERNEL_CS, id_zero := 0, id_type_field := id_type_bits type,
       id_gate_32bit := 1, id_zero_1 := 0, id_privilege := ucast privilege, id_present := 1,
       id_base_addr_high := ucast (drop_bit 16 addr)\<rparr>"

definition setup_isr :: "nat \<Rightarrow> u32 \<Rightarrow> u8 \<Rightarrow> id_type \<Rightarrow> gate list \<Rightarrow> gate list result" where
  "setup_isr irq addr privilege type idt =
     rguard (irq < length idt) OutOfBounds (Ok (idt[irq := id_set addr privilege type (idt ! irq)]))"

definition gate_zero :: gate where
  "gate_zero =
     \<lparr>id_base_addr_low = 0, id_seg_sel = 0, id_zero = 0, id_type_field = 0, id_gate_32bit = 0, id_zero_1 = 0,
      id_privilege = 0, id_present = 0, id_base_addr_high = 0\<rparr>"

text \<open>\<open>isr\<close> lists the entry points the build generates, \<open>None\<close> for a null pointer.\<close>

fun idt_fill :: "nat \<Rightarrow> u32 option list \<Rightarrow> gate list \<Rightarrow> gate list result" where
  "idt_fill i [] idt = Ok idt"
| "idt_fill i (None # isr) idt = idt_fill (i + 1) isr idt"
| "idt_fill i (Some a # isr) idt = rbind (setup_isr i a 0 ID_TYPE_INTERRUPT_GATE idt) (idt_fill (i + 1) isr)"

definition idt_init :: "u32 option list \<Rightarrow> gate list result" where
  "idt_init isr = idt_fill 0 isr (replicate (IRQ_MAX + 1) gate_zero)"

section \<open>The interrupt controller and the interval timer\<close>

text \<open>The constants of the two drivers; some of them are used at several types.\<close>

definition PIC_PORT_CMD_MASTER :: u16 where [simp]: "PIC_PORT_CMD_MASTER = 0x20"
definition PIC_PORT_CMD_SLAVE :: u16 where [simp]: "PIC_PORT_CMD_SLAVE = 0xa0"
definition PIC_PORT_DATA_MASTER :: u16 where [simp]: "PIC_PORT_DATA_MASTER = 0x21"
definition PIC_PORT_DATA_SLAVE :: u16 where [simp]: "PIC_PORT_DATA_SLAVE = 0xa1"
definition PIC_IC4 :: u8 where [simp]: "PIC_IC4 = 0x01"
definition PIC_INIT :: u8 where [simp]: "PIC_INIT = 0x10"
definition PIC_IV_OFFSET_MASTER :: "'a :: numeral" where [simp]: "PIC_IV_OFFSET_MASTER = 32"
definition PIC_IV_OFFSET_SLAVE :: "'a :: numeral" where [simp]: "PIC_IV_OFFSET_SLAVE = 40"
definition PIC_UPM :: u8 where [simp]: "PIC_UPM = 0x01"
definition PIC_CASCADE_IRQ :: "'a :: numeral" where [simp]: "PIC_CASCADE_IRQ = 2"
definition PIC_EOI :: u8 where [simp]: "PIC_EOI = 0x20"
definition PIC_IRQ_NUM :: "'a :: numeral" where [simp]: "PIC_IRQ_NUM = 8"

definition pic_ack :: "nat \<Rightarrow> port_trace \<Rightarrow> port_trace" where
  "pic_ack irq tr =
     (if irq < PIC_IV_OFFSET_SLAVE + 8 then
        (let tr = (if irq \<ge> PIC_IV_OFFSET_SLAVE then outb PIC_EOI PIC_PORT_CMD_SLAVE tr else tr)
         in outb PIC_EOI PIC_PORT_CMD_MASTER tr)
      else tr)"

definition pic_init :: "port_trace \<Rightarrow> port_trace" where
  "pic_init tr =
     tr @ [(PIC_INIT OR PIC_IC4, PIC_PORT_CMD_MASTER), (PIC_INIT OR PIC_IC4, PIC_PORT_CMD_SLAVE),
           (PIC_IV_OFFSET_MASTER, PIC_PORT_DATA_MASTER), (PIC_IV_OFFSET_SLAVE, PIC_PORT_DATA_SLAVE),
           (push_bit PIC_CASCADE_IRQ 1, PIC_PORT_DATA_MASTER), (PIC_CASCADE_IRQ, PIC_PORT_DATA_SLAVE),
           (PIC_UPM, PIC_PORT_DATA_MASTER), (PIC_UPM, PIC_PORT_DATA_SLAVE),
           (NOT (push_bit PIC_CASCADE_IRQ 1), PIC_PORT_DATA_MASTER), (0xff, PIC_PORT_DATA_SLAVE)]"

text \<open>\<open>irq\<close> is unsigned: below 32 the subtraction wraps, and the slave's port is chosen with no bit set in the byte.\<close>

definition pic_disable :: "(u16 \<Rightarrow> u8) \<Rightarrow> u32 \<Rightarrow> port_trace \<Rightarrow> port_trace" where
  "pic_disable inb irq tr =
     (let irq = irq - PIC_IV_OFFSET_MASTER in
      if irq \<noteq> PIC_CASCADE_IRQ then
        (if irq < PIC_IRQ_NUM then outb (inb PIC_PORT_DATA_MASTER OR push_bit (unat irq) 1) PIC_PORT_DATA_MASTER tr
         else outb (inb PIC_PORT_DATA_SLAVE OR push_bit (unat (irq - PIC_IRQ_NUM)) 1) PIC_PORT_DATA_SLAVE tr)
      else tr)"

definition pic_enable :: "(u16 \<Rightarrow> u8) \<Rightarrow> u32 \<Rightarrow> port_trace \<Rightarrow> port_trace" where
  "pic_enable inb irq tr =
     (let irq = irq - PIC_IV_OFFSET_MASTER in
      if irq \<noteq> PIC_CASCADE_IRQ then
        (if irq < PIC_IRQ_NUM then outb (inb PIC_PORT_DATA_MASTER AND NOT (push_bit (unat irq) 1)) PIC_PORT_DATA_MASTER tr
         else outb (inb PIC_PORT_DATA_SLAVE AND NOT (push_bit (unat (irq - PIC_IRQ_NUM)) 1)) PIC_PORT_DATA_SLAVE tr)
      else tr)"

text \<open>The handlers the kernel registers.\<close>

datatype interrupt_handler = interrupt_default_handler | pit_handler | keyboard_irq_handler

datatype register_result = BadIrq | OldHandler interrupt_handler

definition interrupt_register :: "nat \<Rightarrow> interrupt_handler option \<Rightarrow> (nat \<Rightarrow> interrupt_handler) \<Rightarrow>
    register_result \<times> (nat \<Rightarrow> interrupt_handler)" where
  "interrupt_register irq handler tbl =
     (if irq > IRQ_MAX then (BadIrq, tbl)
      else
        (let handler = (case handler of None \<Rightarrow> interrupt_default_handler | Some h \<Rightarrow> h)
         in (OldHandler (tbl irq), tbl(irq := handler))))"

definition interrupt_init :: "u32 option list \<Rightarrow> (nat \<Rightarrow> interrupt_handler) \<Rightarrow> port_trace \<Rightarrow>
    (gate list \<times> (nat \<Rightarrow> interrupt_handler) \<times> port_trace) result" where
  "interrupt_init isr tbl tr =
     (let tbl = (\<lambda>i. if i \<le> IRQ_MAX then interrupt_default_handler else tbl i)
      in rbind (idt_init isr) (\<lambda>idt. Ok (idt, tbl, pic_init tr)))"

definition PIT_HZ :: nat where "PIT_HZ = 1193180"

definition PIT_IRQ :: nat where "PIT_IRQ = 32"

definition PIT_PORT_CTRL :: u16 where [simp]: "PIT_PORT_CTRL = 0x43"
definition PIT_CHAN :: u8 where [simp]: "PIT_CHAN = 0"
definition PIT_LSB_MSB :: u8 where [simp]: "PIT_LSB_MSB = 3"
definition PIT_SQUARE :: u8 where [simp]: "PIT_SQUARE = 3"
definition PIT_PORT_CHAN :: u16 where [simp]: "PIT_PORT_CHAN = 0x40"

definition pit_init :: "nat \<Rightarrow> (u16 \<Rightarrow> u8) \<Rightarrow> (nat \<Rightarrow> interrupt_handler) \<Rightarrow> port_trace \<Rightarrow>
    (nat \<Rightarrow> interrupt_handler) \<times> port_trace" where
  "pit_init hz inb tbl tr =
     (let divisor = of_nat (PIT_HZ div hz) :: u32;
          tr = outb (push_bit 6 PIT_CHAN OR push_bit 4 PIT_LSB_MSB OR push_bit 1 PIT_SQUARE) PIT_PORT_CTRL tr;
          tr = outb (ucast divisor) PIT_PORT_CHAN tr;
          tr = outb (ucast (drop_bit 8 divisor)) PIT_PORT_CHAN tr;
          tbl = snd (interrupt_register PIT_IRQ (Some pit_handler) tbl)
      in (tbl, pic_enable inb (of_nat PIT_IRQ) tr))"

section \<open>Registers and stack frames\<close>

type_synonym wmem = "u32 \<Rightarrow> u32"

record cpu =
  eax :: u32
  ebx :: u32
  ecx :: u32
  edx :: u32
  esi :: u32
  edi :: u32
  ebp :: u32
  esp :: u32
  eip :: u32
  eflags :: u32
  seg_cs :: u16

definition CPU_FLAG_IF :: u32 where "CPU_FLAG_IF = 0x200"

definition push_word :: "u32 \<Rightarrow> cpu \<times> wmem \<Rightarrow> cpu \<times> wmem" where
  "push_word v cm = (case cm of (c, m) \<Rightarrow> (c\<lparr>esp := esp c - 4\<rparr>, m(esp c - 4 := v)))"

text \<open>\<open>save_context\<close>: the \<open>pusha\<close> instruction stores the registers and the stack pointer from before it.\<close>

definition save_context :: "cpu \<times> wmem \<Rightarrow> cpu \<times> wmem" where
  "save_context cm =
     (let c = fst cm in
      push_word (edi c) (push_word (esi c) (push_word (ebp c) (push_word (esp c) (push_word (ebx c) (push_word (edx c) (push_word (ecx c) (push_word (eax c) cm))))))))"

text \<open>The first half of \<open>arch_context_switch\<close>: it builds an interrupt frame that returns to its caller.\<close>

definition context_switch_save :: "cpu \<times> wmem \<Rightarrow> cpu \<times> wmem" where
  "context_switch_save cm =
     (case cm of (c, m) \<Rightarrow>
        (let c = c\<lparr>eax := m (esp c), esp := esp c + 4\<rparr>
         in save_context (push_word 0 (push_word 0 (push_word (eax c) (push_word (ucast (seg_cs c)) (push_word (eflags c) (c, m))))))))"

text \<open>\<open>restore\<close>: \<open>popa\<close> (which skips the saved stack pointer), the two words of number and error code, \<open>iret\<close>.\<close>

definition isr_restore :: "cpu \<times> wmem \<Rightarrow> cpu \<times> wmem" where
  "isr_restore cm =
     (case cm of (c, m) \<Rightarrow>
        (let p = esp c in
         (c\<lparr>edi := m p, esi := m (p + 4), ebp := m (p + 8), ebx := m (p + 16), edx := m (p + 20), ecx := m (p + 24),
            eax := m (p + 28), eip := m (p + 40), seg_cs := ucast (m (p + 44)), eflags := m (p + 48), esp := p + 52\<rparr>, m)))"

text \<open>
  \<open>arch_pthread_init\<close> on a stack that ends at \<open>stack\<close>; the result is the saved stack pointer of the thread.  The frame is a
  \<open>struct interrupt_context\<close> of 13 words, of which only five fields are written.
\<close>

definition arch_pthread_init :: "u32 \<Rightarrow> u32 \<Rightarrow> u32 \<Rightarrow> u32 \<Rightarrow> u32 \<Rightarrow> u32 \<Rightarrow> wmem \<Rightarrow> u32 \<times> wmem" where
  "arch_pthread_init stack_addr stack_size wrapper start_routine arg abort m =
     (let stack = stack_addr + stack_size;
          m = m(stack - 4 := arg);
          m = m(stack - 8 := start_routine);
          m = m(stack - 12 := abort);
          ctx = stack - 12 - 52;
          m = m(ctx + 40 := wrapper);
          m = m(ctx + 8 := stack - 4);
          m = m(ctx + 12 := stack - 12);
          m = m(ctx + 44 := m (ctx + 44) AND 0xffff0000 OR ucast KERNEL_CS);
          m = m(ctx + 48 := CPU_FLAG_IF)
      in (ctx, m))"

section \<open>Descriptors decode to what was asked for\<close>

text \<open>How the processor reads a descriptor.\<close>

definition gd_base :: "gd \<Rightarrow> u32" where
  "gd_base gd = ucast (gd_base_addr_low gd) OR push_bit 16 (ucast (gd_base_addr_mid gd)) OR push_bit 24 (ucast (gd_base_addr_high gd))"

definition gd_limit :: "gd \<Rightarrow> u32" where
  "gd_limit gd = ucast (gd_limit_low gd) OR push_bit 16 (ucast (gd_limit_high gd))"

definition gate_addr :: "gate \<Rightarrow> u32" where
  "gate_addr d = ucast (id_base_addr_low d) OR push_bit 16 (ucast (id_base_addr_high d))"

lemma gd_base_set: "gd_base (gd_set_base_addr base gd) = base"
proof (rule bit_word_eqI)
  show "bit (gd_base (gd_set_base_addr base gd)) n = bit base n" if "n < LENGTH(32)" for n
    using that by (cases "n < 24") (auto simp: gd_base_def gd_set_base_addr_def bit_simps)
qed

lemma gd_limit_set: "gd_limit (gd_set_limit limit gd) = limit AND 0xfffff"
proof (rule bit_word_eqI)
  have m: "(0xfffff :: u32) = mask 20"
    by (simp add: mask_eq_exp_minus_1)
  show "bit (gd_limit (gd_set_limit limit gd)) n = bit (limit AND 0xfffff) n" for n
    unfolding m by (auto simp: gd_limit_def gd_set_limit_def bit_simps)
qed

lemma gate_addr_set: "gate_addr (id_set addr p ty d) = addr"
  by (rule bit_word_eqI) (auto simp: gate_addr_def id_set_def bit_simps)

lemma gate_set_fields:
  "id_seg_sel (id_set addr p ty d) = KERNEL_CS" "id_present (id_set addr p ty d) = 1"
  "id_type_field (id_set addr p ty d) = id_type_bits ty" "id_privilege (id_set addr p ty d) = ucast p"
  by (simp_all add: id_set_def)

lemma idt_fill_spec:
  assumes "i + length isr \<le> length idt"
  shows "\<exists>idt'. idt_fill i isr idt = Ok idt' \<and> length idt' = length idt \<and>
    (\<forall>k < length idt. idt' ! k =
      (if i \<le> k \<and> k < i + length isr then
         (case isr ! (k - i) of None \<Rightarrow> idt ! k | Some a \<Rightarrow> id_set a 0 ID_TYPE_INTERRUPT_GATE (idt ! k))
       else idt ! k))"
  using assms
proof (induction i isr idt rule: idt_fill.induct)
  case (2 i isr idt)
  then obtain idt' where i: "idt_fill (i + 1) isr idt = Ok idt'" "length idt' = length idt"
    "\<forall>k < length idt. idt' ! k =
      (if i + 1 \<le> k \<and> k < i + 1 + length isr then
         (case isr ! (k - (i + 1)) of None \<Rightarrow> idt ! k | Some a \<Rightarrow> id_set a 0 ID_TYPE_INTERRUPT_GATE (idt ! k))
       else idt ! k)"
    by fastforce
  then show ?case
    by (intro exI [of _ idt']) (auto simp: nth_Cons')
next
  case (3 i a isr idt)
  let ?idt = "idt[i := id_set a 0 ID_TYPE_INTERRUPT_GATE (idt ! i)]"
  have s: "setup_isr i a 0 ID_TYPE_INTERRUPT_GATE idt = Ok ?idt"
    using "3.prems" by (simp add: setup_isr_def)
  from "3.IH" [of ?idt] "3.prems" obtain idt' where i: "idt_fill (i + 1) isr ?idt = Ok idt'" "length idt' = length idt"
    "\<forall>k < length idt. idt' ! k =
      (if i + 1 \<le> k \<and> k < i + 1 + length isr then
         (case isr ! (k - (i + 1)) of None \<Rightarrow> ?idt ! k | Some a \<Rightarrow> id_set a 0 ID_TYPE_INTERRUPT_GATE (?idt ! k))
       else ?idt ! k)"
    by auto
  have "idt' ! k =
      (if i \<le> k \<and> k < i + length (Some a # isr) then
         (case (Some a # isr) ! (k - i) of None \<Rightarrow> idt ! k | Some a \<Rightarrow> id_set a 0 ID_TYPE_INTERRUPT_GATE (idt ! k))
       else idt ! k)" if "k < length idt" for k
    using i(3) [rule_format, OF that] that by (cases "k = i") (simp_all add: nth_Cons' cong: option.case_cong)
  with s i(1,2) show ?case
    by (intro exI [of _ idt']) simp
qed auto

section \<open>Interrupt masks\<close>

text \<open>\<open>pic_enable\<close> and \<open>pic_disable\<close> change the mask bit of one line of one controller.\<close>

lemma pic_enable_bit:
  assumes "32 \<le> irq" and "irq < 48" and "irq \<noteq> 34"
  shows "\<exists>v port. pic_enable inb (of_nat irq) tr = tr @ [(v, port)] \<and> port = (if irq < 40 then 0x21 else 0xa1) \<and>
    (\<forall>k < 8. bit v k \<longleftrightarrow> bit (inb port) k \<and> k \<noteq> (irq - 32) mod 8)"
proof -
  have n: "unat (of_nat k :: u32) = k" if "k < 48" for k
    using that by (simp add: unat_of_nat take_bit_nat_eq_self)
  have u: "of_nat irq - 32 = (of_nat (irq - 32) :: u32)" "unat (of_nat (irq - 32) :: u32) = irq - 32"
    using assms n [of "irq - 32"] by (simp_all add: of_nat_diff)
  have l: "(of_nat (irq - 32) :: u32) < 8 \<longleftrightarrow> irq < 40" "(of_nat (irq - 32) :: u32) = 2 \<longleftrightarrow> irq = 34"
    using u(2) assms by (auto simp: word_less_nat_alt word_unat_eq_iff)
  have h: "unat ((of_nat (irq - 32) :: u32) - 8) = irq - 40" if "40 \<le> irq"
    using u(2) l(1) that by (subst unat_sub) (auto simp: word_le_nat_alt)
  show ?thesis
  proof (cases "irq < 40")
    case True
    then show ?thesis
      using assms u l by (simp add: pic_enable_def outb_def Let_def bit_simps)
  next
    case False
    then have "(irq - 32) mod 8 = irq - 40"
      using assms(2) by (simp add: mod_if)
    with False show ?thesis
      using assms u l h by (simp add: pic_enable_def outb_def Let_def bit_simps)
  qed
qed

section \<open>Thread frames\<close>

lemma half_ucast: "ucast (ucast (x :: u16) :: u32) = x"
  by (rule bit_word_eqI) (simp add: bit_simps)

lemma low_half_store: "ucast ((x :: u32) AND 0xffff0000 OR ucast (y :: u16)) = y"
proof (rule bit_word_eqI)
  have m: "(0xffff0000 :: u32) = push_bit 16 (mask 16)"
    by (simp add: mask_eq_exp_minus_1 push_bit_eq_mult)
  show "bit (ucast (x AND 0xffff0000 OR ucast y) :: u16) n = bit y n" if "n < LENGTH(16)" for n
    using that unfolding m by (auto simp: bit_simps)
qed

text \<open>
  The first switch to a new thread enters \<open>wrapper\<close> as if it had been called with \<open>start_routine\<close> and \<open>arg\<close>, with
  interrupts enabled and \<open>abort\<close> as the return address.
\<close>

lemma new_frame:
  assumes "arch_pthread_init stack_addr stack_size wrapper start_routine arg abort m = (sp, m')"
    and "isr_restore (c\<lparr>esp := sp\<rparr>, m') = (c', m'')"
  shows "eip c' = wrapper \<and> seg_cs c' = KERNEL_CS \<and> eflags c' = CPU_FLAG_IF \<and> m'' (esp c') = abort \<and>
    m'' (esp c' + 4) = start_routine \<and> m'' (esp c' + 8) = arg"
  using assms by (auto simp: arch_pthread_init_def isr_restore_def Let_def low_half_store)

text \<open>Restoring depends on the 13 words of the frame only.\<close>

lemma restore_frame:
  assumes "\<And>i. i < 13 \<Longrightarrow> m2 (esp c + 4 * of_nat i) = m1 (esp c + 4 * of_nat i)"
  shows "fst (isr_restore (c, m2)) = fst (isr_restore (c, m1))"
  using assms [of 0] assms [of 1] assms [of 2] assms [of 4] assms [of 5] assms [of 6] assms [of 7] assms [of 10] assms [of 11] assms [of 12]
  by (simp add: isr_restore_def Let_def)

text \<open>A thread that is switched away and back continues at its return address with its registers.\<close>

lemma switch_roundtrip:
  assumes "context_switch_save (c, m) = (c1, m1)" and "\<And>i. i < 13 \<Longrightarrow> m2 (esp c1 + 4 * of_nat i) = m1 (esp c1 + 4 * of_nat i)"
    and "isr_restore (c2\<lparr>esp := esp c1\<rparr>, m2) = (c', m')"
  shows "eip c' = m (esp c) \<and> esp c' = esp c + 4 \<and> eflags c' = eflags c \<and> seg_cs c' = seg_cs c \<and>
    ebx c' = ebx c \<and> ecx c' = ecx c \<and> edx c' = edx c \<and> esi c' = esi c \<and> edi c' = edi c \<and> ebp c' = ebp c"
proof -
  have "c' = fst (isr_restore (c2\<lparr>esp := esp c1\<rparr>, m1))"
    using restore_frame [of m2 "c2\<lparr>esp := esp c1\<rparr>" m1] assms(2,3) by simp
  with assms(1) show ?thesis
    by (auto simp: context_switch_save_def save_context_def push_word_def isr_restore_def Let_def half_ucast)
qed

end
