(* ===== verification/Keyboard.thy ===== *)
theory Keyboard
  imports Machine Timer CircBuf Stdio
begin

text \<open>
  The keyboard driver \<open>src/arch/i386/drivers/keyboard.c\<close>: modifier keys and lock lights, the translation of scan codes to
  characters and escape sequences, the ring of characters between the interrupt handler and \<open>getchar\<close>, and the reboot
  key.  The handler is given the scan code that \<open>inb\<close> reads from the data port; the bytes the status port will return
  are a list, so that waiting for the controller ends when the list has a byte that says so.

  Shown: for every scan code the table accesses are in bounds and what is put into the ring is a whole character or
  escape sequence or nothing; a reader asleep in \<open>getchar\<close> is made runnable by the next key.
\<close>

section \<open>State\<close>

record keyboard =
  scroll_lock_led :: bool
  num_lock_led :: bool
  caps_lock_led :: bool
  key_l_ctrl :: bool
  key_r_ctrl :: bool
  key_l_shift :: bool
  key_r_shift :: bool
  key_l_alt :: bool
  key_r_alt :: bool
  esc :: u8
  kcb :: circular_buffer
  kb_waiter :: "tid option"

text \<open>The byte the bit fields of \<open>led\<close> share.\<close>

definition led_value :: "keyboard \<Rightarrow> u8" where
  "led_value kb = of_bool (scroll_lock_led kb) OR push_bit 1 (of_bool (num_lock_led kb)) OR push_bit 2 (of_bool (caps_lock_led kb))"

text \<open>The outside world: ports written, status bytes to come, characters printed.\<close>

record io =
  io_ports :: port_trace
  io_status :: "u8 list"
  io_text :: outp

type_synonym kbd = "keyboard \<times> io"

section \<open>Tables\<close>

text \<open>The characters of a row of keys by their codes; zero for a key without one.\<close>

definition scan_code :: "nat \<Rightarrow> u8 list" where
  "scan_code i =
     (if i = 0 then
        [0, 0x1b] @ map of_char ''1234567890-='' @ [0x08, 0x09] @ map of_char ''qwertyuiop[]'' @ [0x0a, 0] @
        map of_char ''asdfghjkl;'' @ [0x27, 0x60, 0, 0x5c] @ map of_char ''zxcvbnm,./'' @ [0, 0x2a, 0, 0x20]
      else if i = 1 then
        [0, 0x1b] @ map of_char ''!@#$%^&*()_+'' @ [0x08, 0x09] @ map of_char ''QWERTYUIOP{}'' @ [0x0a, 0] @
        map of_char ''ASDFGHJKL:'' @ [0x22, 0x7e, 0, 0x7c] @ map of_char ''ZXCVBNM<>?'' @ [0, 0x2a, 0, 0x20]
      else
        [0, 0, 0, 0x40, 0, 0x24, 0, 0, 0x7b, 0x5b, 0x5d, 0x7d, 0x5c, 0, 0] @ replicate 12 0 @ [0x7e, 0x0d] @ replicate 29 0)"

definition scan_code_keypad :: "nat \<Rightarrow> u8 list" where
  "scan_code_keypad i =
     (if i = 0 then
        [0x48, 0x41, 0x35 OR 0x80, 0x2d, 0x44, 0x35, 0x43, 0x2b, 0x34 OR 0x80, 0x42, 0x36 OR 0x80, 0x32 OR 0x80, 0x7f]
      else map of_char ''789-456+1230.'')"

section \<open>Key handlers\<close>

abbreviation pressed :: "u8 \<Rightarrow> bool" where
  "pressed code \<equiv> code AND 0x80 = 0"

definition put_keys :: "u8 list \<Rightarrow> keyboard \<Rightarrow> keyboard" where
  "put_keys bs kb = kb\<lparr>kcb := snd (circular_buffer_write (kcb kb) bs)\<rparr>"

definition chr_char :: "nat \<Rightarrow> u8 \<Rightarrow> keyboard \<Rightarrow> u8" where
  "chr_char i code kb =
     (let ctl = key_l_ctrl kb \<or> key_r_ctrl kb;
          code = (if i \<noteq> 1 \<and> (caps_lock_led kb \<or> ctl) \<and> islower (uint code) then word_of_int (toupper (uint code)) else code);
          code = (if ctl then
                    (if 0x40 \<le> code \<and> code < 0x40 + 0x20 then code - 0x40 else if code = 0x3f then 0x7f else code)
                  else code)
      in if key_l_alt kb then code OR 0x80 else code)"

definition chr :: "u8 \<Rightarrow> kbd \<Rightarrow> kbd result" where
  "chr code ki =
     (case ki of (kb, io) \<Rightarrow>
        if pressed code then
          (let i = (if \<not> key_r_alt kb then of_bool (key_l_shift kb \<or> key_r_shift kb) else 2) in
           rguard (unat code < length (scan_code i)) OutOfBounds
            (let code = scan_code i ! unat code in
             if code \<noteq> 0 then Ok (put_keys [chr_char i code kb] kb, io) else Ok (kb, io)))
        else Ok (kb, io))"

definition ctrl :: "u8 \<Rightarrow> kbd \<Rightarrow> kbd result" where
  "ctrl code ki =
     (case ki of (kb, io) \<Rightarrow>
        if esc kb \<noteq> 0 then Ok (kb\<lparr>key_r_ctrl := pressed code\<rparr>, io) else Ok (kb\<lparr>key_l_ctrl := pressed code\<rparr>, io))"

definition l_shift :: "u8 \<Rightarrow> kbd \<Rightarrow> kbd result" where
  "l_shift code ki = (case ki of (kb, io) \<Rightarrow> Ok (kb\<lparr>key_l_shift := pressed code\<rparr>, io))"

definition r_shift :: "u8 \<Rightarrow> kbd \<Rightarrow> kbd result" where
  "r_shift code ki = (case ki of (kb, io) \<Rightarrow> Ok (kb\<lparr>key_r_shift := pressed code\<rparr>, io))"

definition alt :: "u8 \<Rightarrow> kbd \<Rightarrow> kbd result" where
  "alt code ki =
     (case ki of (kb, io) \<Rightarrow>
        if esc kb \<noteq> 0 then Ok (kb\<lparr>key_r_alt := pressed code\<rparr>, io) else Ok (kb\<lparr>key_l_alt := pressed code\<rparr>, io))"

fun wait_ready :: "u8 list \<Rightarrow> u8 list option" where
  "wait_ready [] = None"
| "wait_ready (b # bs) = (if b AND 2 \<noteq> 0 then wait_ready bs else Some bs)"

definition keyboard_wait :: "io \<Rightarrow> io result" where
  "keyboard_wait io = (case wait_ready (io_status io) of None \<Rightarrow> Fault Diverge | Some bs \<Rightarrow> Ok (io\<lparr>io_status := bs\<rparr>))"

definition out_port :: "u8 \<Rightarrow> u16 \<Rightarrow> io \<Rightarrow> io" where
  "out_port v port io = io\<lparr>io_ports := outb v port (io_ports io)\<rparr>"

definition keyboard_update_led :: "kbd \<Rightarrow> kbd result" where
  "keyboard_update_led ki =
     (case ki of (kb, io) \<Rightarrow>
        rbind (keyboard_wait io) (\<lambda>io.
          rbind (keyboard_wait (out_port 0xed 0x60 io)) (\<lambda>io. Ok (kb, out_port (led_value kb) 0x60 io))))"

definition caps_lock :: "u8 \<Rightarrow> kbd \<Rightarrow> kbd result" where
  "caps_lock code ki =
     (case ki of (kb, io) \<Rightarrow>
        if pressed code then keyboard_update_led (kb\<lparr>caps_lock_led := \<not> caps_lock_led kb\<rparr>, io) else Ok (kb, io))"

definition num_lock :: "u8 \<Rightarrow> kbd \<Rightarrow> kbd result" where
  "num_lock code ki =
     (case ki of (kb, io) \<Rightarrow>
        if pressed code then keyboard_update_led (kb\<lparr>num_lock_led := \<not> num_lock_led kb\<rparr>, io) else Ok (kb, io))"

text \<open>As in the source, this key toggles the number lock.\<close>

definition scroll_lock :: "u8 \<Rightarrow> kbd \<Rightarrow> kbd result" where
  "scroll_lock code ki =
     (case ki of (kb, io) \<Rightarrow>
        if pressed code then keyboard_update_led (kb\<lparr>num_lock_led := \<not> num_lock_led kb\<rparr>, io) else Ok (kb, io))"

definition sysrq :: "u8 \<Rightarrow> kbd \<Rightarrow> kbd result" where
  "sysrq code ki = Ok ki"

definition reboot :: "io \<Rightarrow> io result" where
  "reboot io =
     rbind (kprintf (map of_char ''Rebooting...'' @ [0x0a]) [] (io_text io)) (\<lambda>out.
       rbind (keyboard_wait (io\<lparr>io_text := out\<rparr>)) (\<lambda>io. Ok (out_port 0xfe 0x64 io)))"

definition keypad_plain :: "u8 \<Rightarrow> keyboard \<Rightarrow> keyboard result" where
  "keypad_plain code kb =
     (if code = 0x37 then Ok kb
      else
        rguard (unat (code - 0x47) < length (scan_code_keypad 0)) OutOfBounds
         (let code = scan_code_keypad 0 ! unat (code - 0x47) in
          if code AND 0x80 \<noteq> 0 then
            (if circular_buffer_space (kcb kb) \<ge> 4
             then Ok (put_keys [0x7e] (put_keys [code AND 0x7f] (put_keys [0x1b, 0x5b] kb))) else Ok kb)
          else if isupper (uint code) then
            (if circular_buffer_space (kcb kb) \<ge> 3 then Ok (put_keys [code] (put_keys [0x1b, 0x5b] kb)) else Ok kb)
          else Ok (put_keys [code] kb)))"

definition keypad_number :: "u8 \<Rightarrow> keyboard \<Rightarrow> keyboard result" where
  "keypad_number code kb =
     (if code = 0x37 then Ok (put_keys [0x2a] kb)
      else
        rguard (unat (code - 0x47) < length (scan_code_keypad 1)) OutOfBounds
         (Ok (put_keys [scan_code_keypad 1 ! unat (code - 0x47)] kb)))"

definition keypad :: "u8 \<Rightarrow> kbd \<Rightarrow> kbd result" where
  "keypad code ki =
     (case ki of (kb, io) \<Rightarrow>
        if \<not> pressed code then Ok (kb, io)
        else if code = 0x53 \<and> (key_l_ctrl kb \<or> key_r_ctrl kb) \<and> (key_l_alt kb \<or> key_r_alt kb) then
          rbind (reboot io) (\<lambda>io. Ok (kb, io))
        else if esc kb = 0xe0 \<or> \<not> num_lock_led kb \<or> key_l_shift kb \<or> key_r_shift kb then
          rbind (keypad_plain code kb) (\<lambda>kb. Ok (kb, io))
        else rbind (keypad_number code kb) (\<lambda>kb. Ok (kb, io)))"

definition fn :: "u8 \<Rightarrow> kbd \<Rightarrow> kbd result" where
  "fn code ki =
     (case ki of (kb, io) \<Rightarrow>
        if pressed code \<and> circular_buffer_space (kcb kb) \<ge> 4
        then Ok (put_keys [code - 0x3b + 0x41] (put_keys [0x1b, 0x5b, 0x5b] kb), io) else Ok (kb, io))"

definition chr_keypad :: "u8 \<Rightarrow> kbd \<Rightarrow> kbd result" where
  "chr_keypad code ki =
     (case ki of (kb, io) \<Rightarrow> if esc kb = 0xe0 then Ok (put_keys [0x2f] kb, io) else chr code (kb, io))"

definition transcode_func_table :: "(u8 \<Rightarrow> kbd \<Rightarrow> kbd result) list" where
  "transcode_func_table =
     replicate 29 chr @ [ctrl] @ replicate 12 chr @ [l_shift, chr] @ replicate 9 chr @
     [chr_keypad, r_shift, keypad, alt, chr, caps_lock] @ replicate 10 fn @ [num_lock, scroll_lock] @
     replicate 13 keypad @ [sysrq]"

section \<open>Interrupt and reader\<close>

definition transcode :: "u8 \<Rightarrow> kbd \<Rightarrow> kbd result" where
  "transcode code ki =
     (let bare_code = code AND 0x7f in
      if unat bare_code < length transcode_func_table then (transcode_func_table ! unat bare_code) code ki else Ok ki)"

definition keyboard_handler :: "u8 \<Rightarrow> kbd \<Rightarrow> 'a kernel_scheme \<Rightarrow> (kbd \<times> 'a kernel_scheme) result" where
  "keyboard_handler code ki s =
     (if code = 0xe0 \<or> code = 0xe1 then (case ki of (kb, io) \<Rightarrow> Ok ((kb\<lparr>esc := code\<rparr>, io), s))
      else
        rbind (transcode code ki) (\<lambda>(kb, io).
          let kb = kb\<lparr>esc := 0\<rparr> in
          case kb_waiter kb of
            None \<Rightarrow> Ok ((kb, io), s)
          | Some t \<Rightarrow> rbind (wake_up t s) (\<lambda>s. Ok ((kb, io), s))))"

text \<open>\<open>interrupt_dispatch\<close> around the handler, then the exit path.\<close>

definition keyboard_interrupt :: "u8 \<Rightarrow> kbd \<Rightarrow> 'a kernel_scheme \<Rightarrow> (kbd \<times> 'a kernel_scheme) result" where
  "keyboard_interrupt code ki s =
     rbind (keyboard_handler code ki (s\<lparr>in_irq := True\<rparr>)) (\<lambda>((kb, io), s).
       let s = s\<lparr>in_irq := False\<rparr>;
           io = io\<lparr>io_ports := pic_ack 33 (io_ports io)\<rparr>
       in rbind (isr_exit s) (\<lambda>s. Ok ((kb, io), s)))"

text \<open>\<open>getchar\<close> up to its result or its call of \<open>schedule\<close>, and from there on.\<close>

definition getchar :: "keyboard \<Rightarrow> 'a kernel_scheme \<Rightarrow> (u8 option \<times> keyboard \<times> 'a kernel_scheme) result" where
  "getchar kb s =
     (case circular_buffer_read (kcb kb) 1 of
        (b # bs, cb) \<Rightarrow> Ok (Some b, kb\<lparr>kcb := cb\<rparr>, s)
      | ([], cb) \<Rightarrow>
         rguard (kb_waiter kb = None) AssertFail
          (let kb = kb\<lparr>kcb := cb, kb_waiter := Some (pthread_current s)\<rparr>;
               s = set_state (pthread_current s) PTHREAD_STATE_SLEEPING s
           in rbind (schedule s) (\<lambda>s. Ok (None, kb, s))))"

definition getchar_resume :: "keyboard \<Rightarrow> 'a kernel_scheme \<Rightarrow> (u8 option \<times> keyboard \<times> 'a kernel_scheme) result" where
  "getchar_resume kb s = getchar (kb\<lparr>kb_waiter := None\<rparr>) s"

definition keyboard_init :: "(u16 \<Rightarrow> u8) \<Rightarrow> (nat \<Rightarrow> u8) \<Rightarrow> kbd \<Rightarrow> (nat \<Rightarrow> interrupt_handler) \<Rightarrow> kbd \<times> (nat \<Rightarrow> interrupt_handler)" where
  "keyboard_init inb buffer ki tbl =
     (case ki of (kb, io) \<Rightarrow>
        ((kb\<lparr>kcb := circular_buffer_init buffer 1024\<rparr>, io\<lparr>io_ports := pic_enable inb 33 (io_ports io)\<rparr>),
         snd (interrupt_register 33 (Some keyboard_irq_handler) tbl)))"

section \<open>Whole sequences\<close>

definition key_seq :: "u8 list \<Rightarrow> bool" where
  "key_seq xs \<longleftrightarrow> length xs \<le> 1 \<or> (\<exists>c. xs = [0x1b, 0x5b, c] \<and> isupper (uint c)) \<or>
     (\<exists>c. xs = [0x1b, 0x5b, c, 0x7e]) \<or> (\<exists>c. xs = [0x1b, 0x5b, 0x5b, c])"

text \<open>What a key may do to the ring: append one whole sequence.\<close>

definition keyed :: "keyboard \<Rightarrow> keyboard \<Rightarrow> bool" where
  "keyed kb kb' \<longleftrightarrow> cb_ok (kcb kb') \<and> cb_size (kcb kb') = cb_size (kcb kb) \<and> kb_waiter kb' = kb_waiter kb \<and>
     (\<exists>xs. key_seq xs \<and> cb_bytes (kcb kb') = cb_bytes (kcb kb) @ xs)"

lemma keyed_same: "cb_ok (kcb kb) \<Longrightarrow> kcb kb' = kcb kb \<Longrightarrow> kb_waiter kb' = kb_waiter kb \<Longrightarrow> keyed kb kb'"
  by (auto simp: keyed_def key_seq_def)

lemma put_keys_spec:
  assumes "cb_ok (kcb kb)"
  shows "cb_ok (kcb (put_keys xs kb)) \<and> cb_size (kcb (put_keys xs kb)) = cb_size (kcb kb) \<and>
    kb_waiter (put_keys xs kb) = kb_waiter kb \<and>
    cb_bytes (kcb (put_keys xs kb)) = cb_bytes (kcb kb) @ take (circular_buffer_space (kcb kb)) xs"
  using cb_write_spec [OF assms, of xs] by (cases "circular_buffer_write (kcb kb) xs") (auto simp: put_keys_def min_def)

lemma put_keys_room:
  assumes "cb_ok (kcb kb)" and "length xs \<le> circular_buffer_space (kcb kb)"
  shows "cb_ok (kcb (put_keys xs kb))" and "cb_size (kcb (put_keys xs kb)) = cb_size (kcb kb)"
    and "kb_waiter (put_keys xs kb) = kb_waiter kb" and "cb_bytes (kcb (put_keys xs kb)) = cb_bytes (kcb kb) @ xs"
    and "circular_buffer_space (kcb (put_keys xs kb)) = circular_buffer_space (kcb kb) - length xs"
proof -
  note s = put_keys_spec [OF assms(1), of xs]
  show "cb_ok (kcb (put_keys xs kb))" "cb_size (kcb (put_keys xs kb)) = cb_size (kcb kb)"
    "kb_waiter (put_keys xs kb) = kb_waiter kb" and b: "cb_bytes (kcb (put_keys xs kb)) = cb_bytes (kcb kb) @ xs"
    using s assms(2) by simp_all
  have "cb_len (kcb (put_keys xs kb)) = cb_len (kcb kb) + length xs"
    using arg_cong [OF b, of length] by simp
  with s show "circular_buffer_space (kcb (put_keys xs kb)) = circular_buffer_space (kcb kb) - length xs"
    by (simp add: circular_buffer_space_def)
qed

lemma keyed_one: "cb_ok (kcb kb) \<Longrightarrow> keyed kb (put_keys [x] kb)"
  using put_keys_spec [of kb "[x]"] by (force simp: keyed_def key_seq_def)

lemma keyed_seq:
  assumes "cb_ok (kcb kb)" and "length xs + length ys + length zs \<le> circular_buffer_space (kcb kb)" and "key_seq (xs @ ys @ zs)"
  shows "keyed kb (put_keys zs (put_keys ys (put_keys xs kb)))"
proof -
  note p = put_keys_room [OF assms(1), of xs]
  note q = put_keys_room [OF p(1), of ys]
  note r = put_keys_room [OF q(1), of zs]
  show ?thesis
    using assms p q r by (auto simp: keyed_def)
qed

lemma put_keys_Nil [simp]: "put_keys [] kb = kb"
  by (simp add: put_keys_def)

lemmas keyed_seq2 = keyed_seq [where zs = "[]", simplified]

section \<open>Waiting for the controller\<close>

definition ready :: "nat \<Rightarrow> io \<Rightarrow> bool" where
  "ready n io \<longleftrightarrow> n \<le> length (filter (\<lambda>b. b AND 2 = 0) (io_status io))"

lemma wait_ready_some:
  "Suc n \<le> length (filter (\<lambda>b. b AND 2 = 0) bs) \<Longrightarrow>
    \<exists>bs'. wait_ready bs = Some bs' \<and> n \<le> length (filter (\<lambda>b. b AND 2 = 0) bs')"
  by (induction bs) auto

lemma keyboard_wait_ok: "ready (Suc n) io \<Longrightarrow> \<exists>io'. keyboard_wait io = Ok io' \<and> ready n io'"
  using wait_ready_some [of n "io_status io"] by (auto simp: keyboard_wait_def ready_def)

lemma ready_mono: "ready n io \<Longrightarrow> k \<le> n \<Longrightarrow> ready k io"
  by (simp add: ready_def)

lemma ready_out_port [simp]: "ready n (out_port v p io) = ready n io" "ready n (io\<lparr>io_text := t\<rparr>) = ready n io"
  by (simp_all add: ready_def out_port_def)

lemma update_led_ok: "ready 2 io \<Longrightarrow> \<exists>io'. keyboard_update_led (kb, io) = Ok (kb, io')"
proof -
  assume "ready 2 io"
  then have "ready (Suc 1) io"
    by (simp add: numeral_2_eq_2)
  from keyboard_wait_ok [OF this] obtain io1 where 1: "keyboard_wait io = Ok io1" "ready (Suc 0) io1"
    by auto
  from 1(2) have "ready (Suc 0) (out_port 0xed 0x60 io1)"
    by simp
  from keyboard_wait_ok [OF this] 1 show ?thesis
    by (auto simp: keyboard_update_led_def)
qed

section \<open>Every key\<close>

lemma bare_pressed:
  fixes code :: u8
  shows "code AND 0x80 = 0 \<Longrightarrow> code AND 0x7f = code"
proof (rule bit_word_eqI)
  have m: "(0x7f :: u8) = mask 7" "(0x80 :: u8) = push_bit 7 1"
    by (simp_all add: mask_eq_exp_minus_1 push_bit_eq_mult)
  assume "code AND 0x80 = 0"
  then have "\<not> bit (code AND 0x80) 7"
    by simp
  then have "\<not> bit code 7"
    unfolding m by (simp add: bit_simps)
  then show "bit (code AND 0x7f) n = bit code n" if "n < LENGTH(8)" for n
    using that unfolding m by (cases "n = 7") (auto simp: bit_simps)
qed

lemma scan_code_length [simp]: "length (scan_code i) = 58" "length (scan_code_keypad i) = 13"
  by (simp_all add: scan_code_def scan_code_keypad_def)

lemma chr_ok:
  assumes "cb_ok (kcb kb)" and "pressed code \<Longrightarrow> unat code < 58"
  shows "\<exists>kb' io'. chr code (kb, io) = Ok (kb', io') \<and> keyed kb kb'"
  using assms keyed_one [OF assms(1)] keyed_same [OF assms(1), of kb] by (auto simp: chr_def Let_def)

lemma keypad_plain_ok:
  assumes "cb_ok (kcb kb)" and "unat code = 0x37 \<or> 0x47 \<le> unat code \<and> unat code \<le> 0x53"
  shows "\<exists>kb'. keypad_plain code kb = Ok kb' \<and> keyed kb kb'" "\<exists>kb'. keypad_number code kb = Ok kb' \<and> keyed kb kb'"
proof -
  have u: "unat (code - 0x47) < 13" if "code \<noteq> 0x37"
  proof -
    from that assms(2) have "0x47 \<le> unat code" "unat code \<le> 0x53"
      by (auto simp: word_unat_eq_iff)
    then show ?thesis
      by (subst unat_sub) (simp_all add: word_le_nat_alt)
  qed
  define key where "key = scan_code_keypad 0 ! unat (code - 0x47)"
  have esc4: "keyed kb (put_keys [0x7e] (put_keys [key AND 0x7f] (put_keys [0x1b, 0x5b] kb)))"
    if "4 \<le> circular_buffer_space (kcb kb)"
    using that by (intro keyed_seq [OF assms(1)]) (simp_all add: key_seq_def)
  have esc3: "keyed kb (put_keys [key] (put_keys [0x1b, 0x5b] kb))"
    if "3 \<le> circular_buffer_space (kcb kb)" "isupper (uint key)"
    using that by (intro keyed_seq2 [OF assms(1)]) (simp_all add: key_seq_def)
  show "\<exists>kb'. keypad_plain code kb = Ok kb' \<and> keyed kb kb'"
    unfolding keypad_plain_def Let_def scan_code_length key_def [symmetric]
    using u esc4 esc3 keyed_one [OF assms(1)] keyed_same [OF assms(1), of kb] by simp
  show "\<exists>kb'. keypad_number code kb = Ok kb' \<and> keyed kb kb'"
    using u keyed_one [OF assms(1)] by (simp add: keypad_number_def)
qed

lemma reboot_ok: "ready 1 io \<Longrightarrow> \<exists>io'. reboot io = Ok io'"
proof -
  assume "ready 1 io"
  then have "ready (Suc 0) (io\<lparr>io_text := t\<rparr>)" for t
    by simp
  note k = keyboard_wait_ok [OF this]
  have "kprintf (map of_char ''Rebooting...'' @ [0x0a]) [] (io_text io) = Ok (io_text io @ map uint (map of_char ''Rebooting...'' @ [0x0a :: u8]))"
    by (rule kprintf_lit) simp
  with k [of "io_text io @ map uint (map of_char ''Rebooting...'' @ [0x0a :: u8])"] show ?thesis
    by (auto simp: reboot_def)
qed

lemma keypad_ok:
  assumes "cb_ok (kcb kb)" and "ready 2 io"
    and "pressed code \<Longrightarrow> unat code = 0x37 \<or> 0x47 \<le> unat code \<and> unat code \<le> 0x53"
  shows "\<exists>kb' io'. keypad code (kb, io) = Ok (kb', io') \<and> keyed kb kb'"
proof (cases "pressed code")
  case True
  note k = keypad_plain_ok [OF assms(1) assms(3) [OF True]]
  obtain io' where "reboot io = Ok io'"
    using reboot_ok ready_mono [OF assms(2), of 1] by auto
  with k True keyed_same [OF assms(1), of kb] show ?thesis
    by (auto simp: keypad_def)
qed (use keyed_same [OF assms(1), of kb] in \<open>simp add: keypad_def\<close>)

lemma fn_ok: "cb_ok (kcb kb) \<Longrightarrow> \<exists>kb' io'. fn code (kb, io) = Ok (kb', io') \<and> keyed kb kb'"
  using keyed_seq2 [of kb "[0x1b, 0x5b, 0x5b]" "[code - 0x3b + 0x41]"] keyed_same [of kb kb]
  by (auto simp: fn_def key_seq_def)

lemma lock_key_ok:
  assumes "cb_ok (kcb kb)" and "ready 2 io"
  shows "\<exists>kb' io'. caps_lock code (kb, io) = Ok (kb', io') \<and> keyed kb kb'"
    "\<exists>kb' io'. num_lock code (kb, io) = Ok (kb', io') \<and> keyed kb kb'"
    "\<exists>kb' io'. scroll_lock code (kb, io) = Ok (kb', io') \<and> keyed kb kb'"
  using update_led_ok [OF assms(2)] keyed_same [OF assms(1)]
  by (fastforce simp: caps_lock_def num_lock_def scroll_lock_def)+

lemma modifier_ok:
  assumes "cb_ok (kcb kb)"
  shows "\<exists>kb' io'. ctrl code (kb, io) = Ok (kb', io') \<and> keyed kb kb'" "\<exists>kb' io'. alt code (kb, io) = Ok (kb', io') \<and> keyed kb kb'"
    "\<exists>kb' io'. l_shift code (kb, io) = Ok (kb', io') \<and> keyed kb kb'" "\<exists>kb' io'. r_shift code (kb, io) = Ok (kb', io') \<and> keyed kb kb'"
    "\<exists>kb' io'. sysrq code (kb, io) = Ok (kb', io') \<and> keyed kb kb'"
  using keyed_same [OF assms] by (simp_all add: ctrl_def alt_def l_shift_def r_shift_def sysrq_def)

text \<open>The table, by ranges of codes.\<close>

lemma table_length [simp]: "length transcode_func_table = 85"
  by (simp add: transcode_func_table_def)

lemma table_nth:
  assumes "n < 85"
  shows "transcode_func_table ! n =
    (if n = 29 then ctrl else if n = 42 then l_shift else if n = 53 then chr_keypad else if n = 54 then r_shift
     else if n = 55 \<or> 71 \<le> n \<and> n \<le> 83 then keypad else if n = 56 then alt else if n < 58 then chr
     else if n = 58 then caps_lock else if n < 69 then fn else if n = 69 then num_lock else if n = 70 then scroll_lock
     else sysrq)"
  using assms by (auto simp: transcode_func_table_def nth_append nth_Cons' split: if_splits)

lemma transcode_ok:
  assumes "cb_ok (kcb kb)" and "ready 2 io"
  shows "\<exists>kb' io'. transcode code (kb, io) = Ok (kb', io') \<and> keyed kb kb'"
proof (cases "unat (code AND 0x7f) < 85")
  case True
  define n where "n = unat (code AND 0x7f)"
  have p: "unat code = n" if "pressed code"
    using bare_pressed [OF that] by (simp add: n_def)
  have t: "transcode code (kb, io) = (transcode_func_table ! n) code (kb, io)"
    using True by (simp add: transcode_def n_def)
  have "n < 85"
    using True by (simp add: n_def)
  have ck: "\<exists>kb' io'. chr_keypad code (kb, io) = Ok (kb', io') \<and> keyed kb kb'" if "n = 53"
    using chr_ok [OF assms(1), of code io] p that keyed_one [OF assms(1)] by (auto simp: chr_keypad_def)
  show ?thesis
    unfolding t table_nth [OF \<open>n < 85\<close>]
    using p chr_ok [OF assms(1), of code io] keypad_ok [OF assms, of code] ck fn_ok [OF assms(1), of code io]
      lock_key_ok [OF assms, of code] modifier_ok [OF assms(1), of code io]
    by simp
next
  case False
  then show ?thesis
    using keyed_same [OF assms(1), of kb] by (simp add: transcode_def)
qed

section \<open>The reader\<close>

lemma handler_ok:
  assumes "cb_ok (kcb kb)" and "ready 2 io" and "irq_inv (s :: 'a tkernel_scheme)"
  shows "\<exists>kb' io' s'. keyboard_handler code (kb, io) s = Ok ((kb', io'), s') \<and> keyed kb kb' \<and> irq_inv s' \<and>
    (if code = 0xe0 \<or> code = 0xe1 then s' = s
     else case kb_waiter kb of None \<Rightarrow> s' = s | Some t \<Rightarrow> pthread_next s' = None \<and> woken {t} s s' \<and> tctx s' = tctx s)"
proof (cases "code = 0xe0 \<or> code = 0xe1")
  case True
  then show ?thesis
    using assms(3) keyed_same [OF assms(1)] by (auto simp: keyboard_handler_def)
next
  case False
  from transcode_ok [OF assms(1,2)] obtain kb' io' where t: "transcode code (kb, io) = Ok (kb', io')" "keyed kb kb'"
    by blast
  then have k: "keyed kb (kb'\<lparr>esc := 0\<rparr>)" "kb_waiter kb' = kb_waiter kb"
    by (auto simp: keyed_def)
  show ?thesis
  proof (cases "kb_waiter kb")
    case None
    with False t(1) k assms(3) show ?thesis
      by (auto simp: keyboard_handler_def Let_def)
  next
    case (Some t)
    from irq_wake_up [OF assms(3), of t] obtain s' where "wake_up t s = Ok s'" "irq_inv s'" "pthread_next s' = None"
      "woken {t} s s'" "tctx s' = tctx s"
      by blast
    with False Some t(1) k show ?thesis
      by (auto simp: keyboard_handler_def Let_def)
  qed
qed

lemma keyboard_interrupt_ok:
  assumes "cb_ok (kcb kb)" and "ready 2 io" and "kinv (s :: 'a tkernel_scheme)"
  shows "\<exists>kb' io' s'. keyboard_interrupt code (kb, io) s = Ok ((kb', io'), s') \<and> keyed kb kb' \<and> kinv s' \<and>
    (case kb_waiter kb of
       None \<Rightarrow> \<forall>x. thstate s' x = thstate s x
     | Some t \<Rightarrow> code \<noteq> 0xe0 \<and> code \<noteq> 0xe1 \<longrightarrow>
        sched_done s' \<and> (\<forall>x. thstate s' x = (if x = t then PTHREAD_STATE_RUNNING else thstate s x)))"
proof -
  let ?s = "s\<lparr>in_irq := True\<rparr>"
  from handler_ok [OF assms(1,2) kinv_irq [OF assms(3)], of code] obtain kb' io' s1 where
    h: "keyboard_handler code (kb, io) ?s = Ok ((kb', io'), s1)" "keyed kb kb'" "irq_inv s1"
      "if code = 0xe0 \<or> code = 0xe1 then s1 = ?s
       else case kb_waiter kb of None \<Rightarrow> s1 = ?s | Some t \<Rightarrow> pthread_next s1 = None \<and> woken {t} ?s s1 \<and> tctx s1 = tctx ?s"
    by blast
  from irq_exit [OF h(3)] obtain s' where e: "isr_exit (s1\<lparr>in_irq := False\<rparr>) = Ok s'" "kinv s'"
      "sched_frame (s1\<lparr>in_irq := False\<rparr>) s'" "if pthread_next s1 = None then sched_done s' else pthread_current s' = pthread_current s1"
    by blast
  have st: "thstate s' x = thstate s1 x" for x
    using sched_frameD(1) [OF e(3), of x] by simp
  have w: "thstate s1 x = (if x = t then PTHREAD_STATE_RUNNING else thstate s x)" if "woken {t} ?s s1" for t x
  proof -
    from that have "th_core (threads s1 x) = th_core (if x = t then (threads s x)\<lparr>th_state := PTHREAD_STATE_RUNNING\<rparr> else threads s x)"
      by (simp add: woken_def)
    then have "th_state (th_core (threads s1 x)) = th_state (th_core (if x = t then (threads s x)\<lparr>th_state := PTHREAD_STATE_RUNNING\<rparr> else threads s x))"
      by simp
    then show ?thesis
      by (simp add: th_core_def split: if_splits)
  qed
  have "case kb_waiter kb of
       None \<Rightarrow> \<forall>x. thstate s' x = thstate s x
     | Some t \<Rightarrow> code \<noteq> 0xe0 \<and> code \<noteq> 0xe1 \<longrightarrow>
        sched_done s' \<and> (\<forall>x. thstate s' x = (if x = t then PTHREAD_STATE_RUNNING else thstate s x))"
    using h(4) e(4) st w by (auto split: option.splits if_splits)
  with h e show ?thesis
    by (simp add: keyboard_interrupt_def Let_def)
qed

text \<open>\<open>getchar\<close> takes the oldest character, or suspends its caller as the one reader.\<close>

lemma getchar_takes:
  assumes "cb_ok (kcb kb)" and "cb_bytes (kcb kb) = b # bs"
  shows "\<exists>kb'. getchar kb s = Ok (Some b, kb', s) \<and> cb_ok (kcb kb') \<and> cb_bytes (kcb kb') = bs \<and> kb_waiter kb' = kb_waiter kb"
proof -
  obtain r cb where r: "circular_buffer_read (kcb kb) 1 = (r, cb)"
    by fastforce
  from cb_read_spec [OF assms(1) r] assms(2) show ?thesis
    unfolding getchar_def r by auto
qed

lemma getchar_blocks:
  assumes "cb_ok (kcb kb)" and "cb_bytes (kcb kb) = []" and "kb_waiter kb = None" and "kinv s" and "pthread_current s = c"
    and "c \<noteq> pthread_idle" and "sleep_on (threads s c) = None"
  shows "\<exists>kb' s'. getchar kb s = Ok (None, kb', s') \<and> cb_ok (kcb kb') \<and> cb_bytes (kcb kb') = [] \<and> kb_waiter kb' = Some c \<and>
    kinv s' \<and> sched_done s' \<and> thstate s' c = PTHREAD_STATE_SLEEPING \<and> pthread_current s' \<noteq> c"
proof -
  obtain r cb where r: "circular_buffer_read (kcb kb) 1 = (r, cb)"
    by fastforce
  from cb_read_spec [OF assms(1) r] assms(2) have cb: "r = []" "cb_ok cb" "cb_bytes cb = []"
    by auto
  have "kpre (set_state c PTHREAD_STATE_SLEEPING s)"
    by (rule kpre_block [OF assms(4) assms(5) [symmetric] assms(6,7)]) simp
  from kinv_schedule [OF this] obtain s' where s': "schedule (set_state c PTHREAD_STATE_SLEEPING s) = Ok s'" "kinv s'"
      "sched_done s'" "sched_frame (set_state c PTHREAD_STATE_SLEEPING s) s'"
    by blast
  have st: "thstate s' c = PTHREAD_STATE_SLEEPING"
    using sched_frameD(1) [OF s'(4), of c] by simp
  with s'(2) have "pthread_current s' \<noteq> c"
    using kinvD(7) [OF s'(2)] by auto
  with s' st cb assms(3,5) show ?thesis
    unfolding getchar_def r by simp
qed

end
