(* ===== verification/System.thy ===== *)
theory System
  imports Kernel Keyboard
begin

text \<open>
  The kernel and the keyboard driver together.  A step of the system is a step of the kernel, a call of \<open>getchar\<close> by the current
  thread or its continuation, or a keyboard interrupt, for which the controller delivers the scan code and the bytes its status
  port will show.

  Shown: the invariants of both parts hold in every reachable state, at most one thread waits for a character, and it
  never sleeps while there is one in the ring; only the current thread falls asleep in a step of the kernel.
\<close>

section \<open>Only the current thread falls asleep\<close>

definition quiet :: "tid \<Rightarrow> ksys \<Rightarrow> ksys \<Rightarrow> bool" where
  "quiet c s s' \<longleftrightarrow> fr s' = fr s \<and>
     (\<forall>t. t \<noteq> c \<longrightarrow> thstate s' t = PTHREAD_STATE_SLEEPING \<longrightarrow> thstate s t = PTHREAD_STATE_SLEEPING)"

lemma quiet_refl [simp]: "quiet c s s"
  by (simp add: quiet_def)

lemma quiet_sp: "sp_frame e s' \<Longrightarrow> quiet c s e \<Longrightarrow> quiet c s s'"
  by (simp add: quiet_def sp_frameD(1) more_fr [OF sp_frameD(10)])

lemma quiet_trans: "quiet c s e \<Longrightarrow> quiet c e s' \<Longrightarrow> quiet c s s'"
  by (simp add: quiet_def)

lemma quiet_update:
  "quiet c s (set_state t PTHREAD_STATE_RUNNING s)" "quiet c s (set_state t PTHREAD_STATE_NONE s)"
  "quiet c s (set_state c st s)" "quiet c s (upd_mx m f s)" "quiet c s (upd_cv v g s)" "quiet c s (s\<lparr>tctx := h\<rparr>)"
  "(\<And>th. th_state (u th) = th_state th) \<Longrightarrow> quiet c s (upd_th t u s)"
  by (auto simp: quiet_def)

lemma quiet_schedule: "schedule s = Ok s' \<Longrightarrow> quiet c s s'"
  by (rule quiet_sp [OF schedule_sp quiet_refl])

lemma quiet_effects:
  "quiet (pthread_current s) s (lock_asleep m s)" "quiet (pthread_current s) s (mutex_own m s)"
  "quiet (pthread_current s) s (lock_taken m s)" "quiet (pthread_current s) s (lock_released m s)"
  "quiet (pthread_current s) s (exit_effect r s)" "quiet c s (detach_effect t s)"
  by (auto simp: quiet_def lock_asleep_def mutex_own_def lock_taken_def lock_released_def exit_effect_def detach_effect_def Let_def
      split: option.splits if_splits)

lemma quiet_lock: "pthread_mutex_lock m s = Ok (b, s') \<Longrightarrow> quiet (pthread_current s) s s'"
  by (rule quiet_sp, erule lock_sp(1))
    (auto simp: quiet_def lock_effect_def lock_asleep_def lock_waiting_def mutex_own_def Let_def)

lemma quiet_loop: "pthread_mutex_lock_loop m s = Ok (b, s') \<Longrightarrow> quiet (pthread_current s) s s'"
  by (rule quiet_sp, erule lock_loop_sp) (simp add: quiet_effects)

lemma quiet_unlock: "pthread_mutex_unlock m s = Ok s' \<Longrightarrow> quiet (pthread_current s) s s'"
proof -
  assume a: "pthread_mutex_unlock m s = Ok s'"
  show ?thesis
  proof (cases "recursive_count (mutexes s m) = 1")
    case True
    with unlock_sp [OF a] show ?thesis
      by (auto split: option.splits elim!: quiet_sp intro: quiet_effects quiet_trans [OF quiet_effects(4)] quiet_update)
  next
    case False
    with unlock_sp [OF a] show ?thesis
      by (simp add: quiet_update)
  qed
qed

lemma quiet_timeout:
  "schedule_timeout_begin d s = Ok s' \<Longrightarrow> quiet c s s'" "schedule_timeout_end s = Ok (r, s') \<Longrightarrow> quiet c s s'"
  by (auto simp: schedule_timeout_begin_def schedule_timeout_end_def Let_def result_simps
      dest!: schedule_sp intro: quiet_sp quiet_update)

lemma quiet_wake_all: "cond_wake_all v ws s = Ok s' \<Longrightarrow> quiet c s s'"
proof (induction ws arbitrary: s)
  case (Cons w ws)
  then obtain s1 where "pthread_set_running w (upd_cv v (cond_wq_update (\<lambda>_. ws)) s) = Ok s1" "cond_wake_all v ws s1 = Ok s'"
    by (auto simp: result_simps)
  note s1 = this
  have "quiet c s (set_state w PTHREAD_STATE_RUNNING (upd_cv v (cond_wq_update (\<lambda>_. ws)) s))"
    by (rule quiet_trans [OF quiet_update(5) quiet_update(1)])
  from quiet_trans [OF quiet_sp [OF set_running_sp [OF s1(1)] this] Cons.IH [OF s1(2)]] show ?case .
qed simp

lemma quiet_join: "pthread_join_pass t s = Ok (r, s') \<Longrightarrow> quiet (pthread_current s) s s'"
proof -
  assume a: "pthread_join_pass t s = Ok (r, s')"
  show ?thesis
  proof (cases "r = JoinBlocked")
    case True
    show ?thesis
      by (rule quiet_sp [OF join_sp(1) [OF a True]]) (simp add: quiet_def)
  next
    case False
    from join_sp(2) [OF a False] show ?thesis
      by (auto simp: quiet_def split: if_splits)
  qed
qed

text \<open>A step of the kernel: the other threads keep their frames, and none of them falls asleep.\<close>

definition others_quiet :: "tid \<Rightarrow> ksys \<Rightarrow> ksys \<Rightarrow> bool" where
  "others_quiet c s s' \<longleftrightarrow> (fr s' c = FRead \<longrightarrow> fr s c = FRead) \<and>
     (\<forall>t. t \<noteq> c \<longrightarrow> fr s' t = fr s t \<and> (thstate s' t = PTHREAD_STATE_SLEEPING \<longrightarrow> thstate s t = PTHREAD_STATE_SLEEPING))"

lemma others_quiet: "quiet c s s' \<Longrightarrow> others_quiet c s s'" "quiet c s s' \<Longrightarrow> f \<noteq> FRead \<Longrightarrow> others_quiet c s (set_fr c f s')"
  "quiet c s s' \<Longrightarrow> f \<noteq> FRead \<Longrightarrow> others_quiet c s (set_fr c f (cond_wait_finish v s'))"
  by (auto simp: quiet_def others_quiet_def cond_wait_finish_def)

lemma tick_quiet:
  assumes "kernel_ok s" and "timer_interrupt s = Ok s'"
  shows "fr s' = fr s" and "thstate s' t = PTHREAD_STATE_SLEEPING \<Longrightarrow> thstate s t = PTHREAD_STATE_SLEEPING"
proof -
  note k = kernel_okD [OF assms(1)]
  have tk: "timer_ok (ticks s) (tctx s)"
    using k(4) by (simp add: tm_ok_def)
  from timer_interrupt_spec [OF k(1) tk] assms(2)
  have st: "\<And>t. thstate s' t = (if t \<in> due_threads (ticks s) 1 (tctx s) then PTHREAD_STATE_RUNNING else thstate s t)"
    and f: "tick_frame s s'"
    by auto
  show "fr s' = fr s"
    using f by (cases s; cases s') (simp add: tick_frame_def)
  show "thstate s t = PTHREAD_STATE_SLEEPING" if "thstate s' t = PTHREAD_STATE_SLEEPING"
    using that st [of t] by (simp split: if_splits)
qed

lemma step_quiet:
  assumes "step s s'" and "kernel_ok s"
  shows "others_quiet (pthread_current s) s s'"
  using assms
proof (induction rule: step.induct)
  case (Lock s c m b s')
  then show ?case using others_quiet(2) [OF quiet_lock [OF Lock(4)]] by simp
next
  case (LockResume s c m b s')
  then show ?case using others_quiet(2) [OF quiet_loop [OF LockResume(3)]] by simp
next
  case (Trylock s m e s')
  then have "quiet (pthread_current s) s s'"
    by (auto simp: pthread_mutex_trylock_def Let_def quiet_def mutex_own_def split: if_splits)
  then show ?case by (rule others_quiet)
next
  case (Unlock s m s')
  then show ?case using others_quiet(1) [OF quiet_unlock] by blast
next
  case (Yield s s')
  then show ?case using others_quiet(1) [OF quiet_schedule, of s s'] by (simp add: pthread_yield_def)
next
  case (Setprio s p t s')
  from setschedprio_kinv(2) [OF kernel_okD(1) [OF Setprio(5)] Setprio(2-4)] show ?case
    by (auto intro!: others_quiet elim!: quiet_sp intro: quiet_update)
next
  case (Create s attr e r s')
  then show ?case using create_sp [OF Create(3)]
    by (auto split: option.splits intro!: others_quiet elim!: quiet_sp simp: quiet_def)
next
  case (Exit s c r s')
  then show ?case using quiet_sp [OF exit_sp [OF Exit(5)]] quiet_effects(5) by (auto intro!: others_quiet)
next
  case (Detach s t e s')
  then show ?case using quiet_sp [OF detach_sp [OF Detach(2)]] quiet_effects(6) by (auto intro!: others_quiet)
next
  case (Join s c t r s')
  then show ?case using others_quiet(2) [OF quiet_join, of t s r s'] by (simp add: pthread_join_def)
next
  case (JoinResume s c t r s')
  let ?s = "upd_th t (waiter_update (\<lambda>_. None)) s"
  have "quiet c ?s s'"
    using JoinResume quiet_join [of t ?s r s'] by (simp add: pthread_join_resume_def)
  then have "quiet c s s'"
    by (rule quiet_trans [rotated]) (simp add: quiet_def)
  with JoinResume(1) show ?case by (simp add: others_quiet(2))
next
  case (Signal s v s')
  then show ?case using cond_signal_sp [OF Signal(2)]
    by (auto split: option.splits intro!: others_quiet elim!: quiet_sp simp: quiet_def)
next
  case (Broadcast s v s')
  then show ?case
    by (auto simp: pthread_cond_broadcast_def result_simps split: if_splits dest!: schedule_sp intro!: others_quiet
        intro: quiet_sp quiet_wake_all)
next
  case (CondWait s c m v s' abstime)
  let ?s = "set_state c PTHREAD_STATE_SLEEPING (upd_cv v (cond_wq_update (\<lambda>q. q @ [c])) s)"
  have "quiet c ?s s'"
    using quiet_unlock [OF cond_wait_begin_sp [OF CondWait(6)]] CondWait(1) by simp
  then have "quiet c s s'"
    by (rule quiet_trans [rotated]) (simp add: quiet_def)
  with CondWait(1) show ?case by (simp add: others_quiet(2))
next
  case (CondBlock s c v m abstime p s')
  then have "quiet c s s'"
    by (auto simp: cond_wait_block_def result_simps split: option.splits sum.splits
        dest!: schedule_sp intro: quiet_sp quiet_timeout)
  with CondBlock(1) show ?case by (simp add: others_quiet(2) frame_of_def split: wait_point.split)
next
  case (CondTimed s c v m e s')
  then have "quiet c s s'"
    by (auto simp: cond_wait_timed_end_def result_simps intro: quiet_timeout)
  with CondTimed(1) show ?case by (simp add: others_quiet(2))
next
  case (CondLock s c v m b s')
  then show ?case using others_quiet(2,3) [OF quiet_lock [OF CondLock(3)]] by simp
next
  case (CondLockResume s c v m b s')
  then show ?case using others_quiet(2,3) [OF quiet_loop [OF CondLockResume(3)]] by simp
next
  case (Sleep s c secs s')
  then have "quiet c (set_state c PTHREAD_STATE_SLEEPING s) s'"
    by (auto simp: sleep_begin_def intro: quiet_timeout)
  then have "quiet c s s'"
    by (rule quiet_trans [rotated]) (simp add: quiet_def)
  with Sleep(1) show ?case by (simp add: others_quiet(2))
next
  case (SleepResume s c r s')
  then have "quiet c s s'"
    by (auto simp: sleep_end_def result_simps intro: quiet_timeout)
  with SleepResume(1) show ?case by (simp add: others_quiet(2))
next
  case (Tick s s')
  with tick_quiet show ?case by (auto simp: others_quiet_def)
qed

section \<open>Kernel and keyboard\<close>

text \<open>The machine: kernel state, keyboard driver, ports, handler table, and the descriptor tables that were loaded and the screen.\<close>

record board =
  b_kernel :: ksys
  b_kbd :: keyboard
  b_io :: io
  b_handlers :: "nat \<Rightarrow> interrupt_handler"
  b_gdt :: "gd list"
  b_idt :: "gate list"
  b_screen :: text_buffer

text \<open>
  A hardware interrupt with its exit path.  \<open>code\<close> and \<open>status\<close> are what the keyboard controller delivers; the keyboard
  handler is registered for interrupt 33 alone.  The default handler halts with interrupts disabled.
\<close>

definition interrupt_dispatch :: "nat \<Rightarrow> u8 \<Rightarrow> u8 list \<Rightarrow> board \<Rightarrow> board result" where
  "interrupt_dispatch irq code status b =
     (case b_handlers b irq of
        interrupt_default_handler \<Rightarrow> Fault Diverge
      | pit_handler \<Rightarrow>
          rbind (timer_interrupt (b_kernel b)) (\<lambda>s.
            Ok (b\<lparr>b_kernel := s, b_io := (b_io b)\<lparr>io_ports := if irq \<ge> 32 then pic_ack irq (io_ports (b_io b)) else io_ports (b_io b)\<rparr>\<rparr>))
      | keyboard_irq_handler \<Rightarrow>
          rbind (keyboard_interrupt code (b_kbd b, (b_io b)\<lparr>io_status := status\<rparr>) (b_kernel b)) (\<lambda>((kb, io), s).
            Ok (b\<lparr>b_kernel := s, b_kbd := kb, b_io := io\<rparr>)))"

inductive sys_step :: "board \<Rightarrow> board \<Rightarrow> bool" where
  KernelStep: "step (b_kernel b) s' \<Longrightarrow> sys_step b (b\<lparr>b_kernel := s'\<rparr>)"
| Getchar: "\<lbrakk>pthread_current (b_kernel b) = c; fr (b_kernel b) c = FRun; c \<noteq> pthread_idle;
    getchar (b_kbd b) (b_kernel b) = Ok (r, kb, s')\<rbrakk> \<Longrightarrow>
    sys_step b (b\<lparr>b_kernel := set_fr c (if r = None then FRead else FRun) s', b_kbd := kb\<rparr>)"
| GetcharResume: "\<lbrakk>pthread_current (b_kernel b) = c; fr (b_kernel b) c = FRead;
    getchar_resume (b_kbd b) (b_kernel b) = Ok (r, kb, s')\<rbrakk> \<Longrightarrow>
    sys_step b (b\<lparr>b_kernel := set_fr c (if r = None then FRead else FRun) s', b_kbd := kb\<rparr>)"
| Interrupt: "\<lbrakk>ready 2 ((b_io b)\<lparr>io_status := status\<rparr>); interrupt_dispatch irq code status b = Ok b'\<rbrakk> \<Longrightarrow> sys_step b b'"

definition sys_ok :: "board \<Rightarrow> bool" where
  "sys_ok b \<longleftrightarrow> kernel_ok (b_kernel b) \<and> cb_ok (kcb (b_kbd b)) \<and>
     (\<forall>t. fr (b_kernel b) t = FRead \<longleftrightarrow> kb_waiter (b_kbd b) = Some t) \<and>
     (\<forall>t. kb_waiter (b_kbd b) = Some t \<and> thstate (b_kernel b) t = PTHREAD_STATE_SLEEPING \<longrightarrow> cb_bytes (kcb (b_kbd b)) = [])"

lemma sys_okD:
  assumes "sys_ok b"
  shows "kernel_ok (b_kernel b)" "cb_ok (kcb (b_kbd b))" "fr (b_kernel b) t = FRead \<longleftrightarrow> kb_waiter (b_kbd b) = Some t"
    "kb_waiter (b_kbd b) = Some t \<Longrightarrow> thstate (b_kernel b) t = PTHREAD_STATE_SLEEPING \<Longrightarrow> cb_bytes (kcb (b_kbd b)) = []"
  using assms by (auto simp: sys_ok_def)

text \<open>The kernel neither starts nor ends a wait for a character.\<close>

inductive_cases sys_stepE: "sys_step b b'"

lemma step_frame_current:
  assumes "step s s'" and "fr s (pthread_current s) = FRead"
  shows "timer_interrupt s = Ok s'"
  using assms by cases simp_all

lemma step_readers:
  assumes "step s s'" and "kernel_ok s"
  shows "fr s' t = FRead \<longleftrightarrow> fr s t = FRead"
    and "fr s t = FRead \<Longrightarrow> thstate s' t = PTHREAD_STATE_SLEEPING \<Longrightarrow> thstate s t = PTHREAD_STATE_SLEEPING"
proof -
  note q = step_quiet [OF assms]
  have tick: "fr s' = fr s" "thstate s' t = PTHREAD_STATE_SLEEPING \<Longrightarrow> thstate s t = PTHREAD_STATE_SLEEPING"
    if "fr s (pthread_current s) = FRead"
    using tick_quiet [OF assms(2) step_frame_current [OF assms(1) that]] by auto
  show "fr s' t = FRead \<longleftrightarrow> fr s t = FRead"
    using q tick(1) by (cases "t = pthread_current s") (auto simp: others_quiet_def)
  show "thstate s t = PTHREAD_STATE_SLEEPING" if "fr s t = FRead" "thstate s' t = PTHREAD_STATE_SLEEPING"
    using q tick(2) that by (cases "t = pthread_current s") (auto simp: others_quiet_def)
qed

lemma sys_kernel_step:
  assumes "sys_ok b" and "step (b_kernel b) s'"
  shows "sys_ok (b\<lparr>b_kernel := s'\<rparr>)"
proof -
  note o = sys_okD [OF assms(1)] and r = step_readers [OF assms(2) sys_okD(1) [OF assms(1)]]
  have "cb_bytes (kcb (b_kbd b)) = []" if "kb_waiter (b_kbd b) = Some t" "thstate s' t = PTHREAD_STATE_SLEEPING" for t
    using o(3,4) r(2) that by blast
  with o r(1) step_kernel_ok [OF assms(2)] show ?thesis
    by (simp add: sys_ok_def)
qed

section \<open>Reading a character\<close>

text \<open>A thread outside every other wait suspends itself in \<open>getchar\<close>.\<close>

lemma keep_read:
  assumes "kernel_ok s" and "pthread_current s = c" and "fr s c = FRun \<or> fr s c = FRead" and "c \<noteq> pthread_idle"
    and "schedule (set_state c PTHREAD_STATE_SLEEPING s) = Ok s'"
  shows "kernel_ok (set_fr c FRead s')" and "fr s' = fr s" and "thstate s' = (thstate s)(c := PTHREAD_STATE_SLEEPING)"
proof -
  note k = kernel_okD [OF assms(1)] and sp = schedule_sp [OF assms(5)]
  let ?s = "set_state c PTHREAD_STATE_SLEEPING s"
  have ci: "c < pthread_idle"
    using k(6) assms(2,4) by simp
  have so: "sleep_on (threads s c) = None"
    using fr_okD(1) [OF k(3), of c] assms(3) by auto
  have nv: "\<And>w. c \<notin> set (cond_wq (conds s w))"
    using fr_okD(7) [OF k(3), of c] assms(3) by auto
  have nw: "\<And>x. waiter (threads s x) \<noteq> Some c"
    using fr_okD(2) [OF k(3)] assms(3) by auto
  have kp: "kpre ?s"
    by (rule kpre_block [OF k(1)]) (use assms(2,4) so in auto)
  from kinv_schedule [OF kp] assms(5) have "kinv s'"
    by auto
  moreover have "fr_ok (set_fr c FRead ?s)"
    using k(3) ci nv nw so unfolding fr_ok_def by (auto simp: alive_def)
  moreover have "tm_ok (set_fr c FRead ?s)"
    using k(4) assms(3) by (auto intro!: tm_ok_set_fr)
  ultimately show "kernel_ok (set_fr c FRead s')"
    using kernel_okI_fr [OF _ sp] k(2) by simp
  show "fr s' = fr s"
    using more_fr [OF sp_frameD(10) [OF sp]] by simp
  show "thstate s' = (thstate s)(c := PTHREAD_STATE_SLEEPING)"
    using sp_frameD(1) [OF sp] by (auto simp: fun_eq_iff)
qed

lemma keep_read_done:
  assumes "kernel_ok s" and "pthread_current s = c" and "fr s c = FRead"
  shows "kernel_ok (set_fr c FRun s)"
proof -
  note k = kernel_okD [OF assms(1)]
  have "fr_ok (set_fr c FRun s)"
    using k(3) kinvD(7) [OF k(1)] assms(2,3) fr_okD(7) [OF k(3), of c] unfolding fr_ok_def by (auto simp: alive_def)
  moreover have "tm_ok (set_fr c FRun s)"
    using k(4) assms(3) by (auto intro!: tm_ok_set_fr)
  ultimately show ?thesis
    using k(1,2) by (simp add: kernel_ok_def)
qed

text \<open>The two outcomes of \<open>getchar\<close>.\<close>

lemma getchar_cases:
  assumes "getchar kb s = Ok (r, kb', s')" and "cb_ok (kcb kb)"
  obtains (taken) x where "r = Some x" "s' = s" "cb_bytes (kcb kb) = x # cb_bytes (kcb kb')" "cb_ok (kcb kb')" "kb_waiter kb' = kb_waiter kb"
  | (blocked) "r = None" "cb_bytes (kcb kb) = []" "cb_bytes (kcb kb') = []" "cb_ok (kcb kb')" "kb_waiter kb = None"
      "kb_waiter kb' = Some (pthread_current s)" "schedule (set_state (pthread_current s) PTHREAD_STATE_SLEEPING s) = Ok s'"
proof -
  obtain xs cb where r: "circular_buffer_read (kcb kb) 1 = (xs, cb)"
    by fastforce
  note c = cb_read_spec [OF assms(2) r]
  show ?thesis
  proof (cases "cb_bytes (kcb kb)")
    case Nil
    with c have "xs = []"
      by simp
    with c Nil assms(1) r show ?thesis
      by (intro blocked) (auto simp: getchar_def Let_def result_simps)
  next
    case (Cons x ys)
    with c have "xs = [x]" "cb_bytes cb = ys" "cb_ok cb"
      by auto
    moreover from this assms(1) r have "r = Some x" "s' = s" "kb' = kb\<lparr>kcb := cb\<rparr>"
      by (auto simp: getchar_def)
    ultimately show ?thesis
      using Cons by (intro taken [of x]) simp_all
  qed
qed

lemma sys_getchar:
  assumes "sys_ok b" and "pthread_current (b_kernel b) = c" and "fr (b_kernel b) c = FRun \<or> fr (b_kernel b) c = FRead" and "c \<noteq> pthread_idle"
    and "getchar (if fr (b_kernel b) c = FRead then (b_kbd b)\<lparr>kb_waiter := None\<rparr> else b_kbd b) (b_kernel b) = Ok (r, kb, s')"
  shows "sys_ok (b\<lparr>b_kernel := set_fr c (if r = None then FRead else FRun) s', b_kbd := kb\<rparr>)"
proof -
  note o = sys_okD [OF assms(1)]
  let ?kb = "if fr (b_kernel b) c = FRead then (b_kbd b)\<lparr>kb_waiter := None\<rparr> else b_kbd b"
  have cb: "cb_ok (kcb ?kb)"
    using o(2) by simp
  have w: "fr (b_kernel b) t = FRead \<and> t \<noteq> c \<longleftrightarrow> kb_waiter ?kb = Some t" for t
    using o(3) [of t] o(3) [of c] by auto
  from assms(5) cb show ?thesis
  proof (cases rule: getchar_cases)
    case (taken x)
    have "kernel_ok (set_fr c FRun (b_kernel b))"
      using assms(2,3) o(1) keep_read_done set_fr_same [of "b_kernel b" c FRun] by fastforce
    moreover have "thstate (b_kernel b) t \<noteq> PTHREAD_STATE_SLEEPING" if "kb_waiter kb = Some t" for t
      using that o(3,4) [of t] taken(3) unfolding taken(5) by (auto split: if_splits)
    moreover have "fr (set_fr c FRun (b_kernel b)) t = FRead \<longleftrightarrow> kb_waiter kb = Some t" for t
      unfolding taken(5) w [of t, symmetric] by simp
    ultimately show ?thesis
      using taken(1,2,4) by (auto simp: sys_ok_def simp del: set_fr_simps(5))
  next
    case blocked
    then have "schedule (set_state c PTHREAD_STATE_SLEEPING (b_kernel b)) = Ok s'"
      using assms(2) by simp
    note k = keep_read [OF o(1) assms(2-4) this]
    have "fr (set_fr c FRead s') t = FRead \<longleftrightarrow> kb_waiter kb = Some t" for t
      using w [of t] blocked(5,6) assms(2) k(2) by auto
    with blocked k(1) show ?thesis
      by (simp add: sys_ok_def del: set_fr_simps(5))
  qed
qed

section \<open>A key\<close>

lemma isr_exit_sp: "isr_exit s = Ok s' \<Longrightarrow> sp_frame s s'"
  by (auto simp: isr_exit_def arch_context_switch_def result_simps split: if_splits option.splits
      dest!: schedule_locked_frame sched_frame_sp)

text \<open>The effect of a keyboard interrupt on the kernel: the reader, if there is one, becomes runnable.\<close>

definition key_effect :: "u8 \<Rightarrow> keyboard \<Rightarrow> 'a kernel_scheme \<Rightarrow> 'a kernel_scheme" where
  "key_effect code kb s =
     (if code = 0xe0 \<or> code = 0xe1 then s
      else case kb_waiter kb of None \<Rightarrow> s | Some t \<Rightarrow> set_state t PTHREAD_STATE_RUNNING s)"

lemma sp_frame_irq: "sp_frame (e\<lparr>in_irq := True\<rparr>) s' \<Longrightarrow> \<not> in_irq e \<Longrightarrow> sp_frame e (s'\<lparr>in_irq := False\<rparr>)"
  by (simp add: sp_frame_def)

lemma set_state_irq: "set_state t st (s\<lparr>in_irq := x\<rparr>) = (set_state t st s)\<lparr>in_irq := x\<rparr>"
  by (simp add: upd_th_def)

lemma keyboard_interrupt_spec:
  assumes "cb_ok (kcb kb)" and "ready 2 io" and "kinv (s :: 'a tkernel_scheme)"
  shows "\<exists>kb' io' s'. keyboard_interrupt code (kb, io) s = Ok ((kb', io'), s') \<and> keyed kb kb' \<and> kinv s' \<and>
    sp_frame (key_effect code kb s) s' \<and> (code = 0xe0 \<or> code = 0xe1 \<longrightarrow> cb_bytes (kcb kb') = cb_bytes (kcb kb))"
proof -
  from keyboard_interrupt_ok [OF assms, of code] obtain kb' io' s' where
    r: "keyboard_interrupt code (kb, io) s = Ok ((kb', io'), s')" "keyed kb kb'" "kinv s'"
    by blast
  from r(1) obtain kb1 io1 s1 where
    h: "keyboard_handler code (kb, io) (s\<lparr>in_irq := True\<rparr>) = Ok ((kb1, io1), s1)" "isr_exit (s1\<lparr>in_irq := False\<rparr>) = Ok s'" "kb1 = kb'"
    by (auto simp: keyboard_interrupt_def Let_def result_simps)
  have w: "kb_waiter kb' = kb_waiter kb"
    using r(2) by (simp add: keyed_def)
  have irq: "\<not> in_irq (key_effect code kb s)"
    using assms(3) by (simp add: key_effect_def kinv_def kpre_def ksched_def split: option.split)
  have "sp_frame ((key_effect code kb s)\<lparr>in_irq := True\<rparr>) s1"
    using h(1) w h(3)
    by (auto simp: keyboard_handler_def key_effect_def Let_def result_simps set_state_irq split: if_splits option.splits
        dest!: wake_up_sp)
  from sp_frame_trans [OF sp_frame_irq [OF this irq] isr_exit_sp [OF h(2)]]
  have "sp_frame (key_effect code kb s) s'" .
  moreover have "cb_bytes (kcb kb') = cb_bytes (kcb kb)" if "code = 0xe0 \<or> code = 0xe1"
    using h(1,3) that by (auto simp: keyboard_handler_def)
  ultimately show ?thesis
    using r by blast
qed

lemma sys_key:
  assumes "sys_ok b" and "ready 2 io" and "keyboard_interrupt code (b_kbd b, io) (b_kernel b) = Ok ((kb', io'), s')"
  shows "sys_ok (b\<lparr>b_kernel := s', b_kbd := kb', b_io := io'\<rparr>)"
    and "code \<noteq> 0xe0 \<Longrightarrow> code \<noteq> 0xe1 \<Longrightarrow> kb_waiter (b_kbd b) = Some t \<Longrightarrow> thstate s' t = PTHREAD_STATE_RUNNING"
    and "fr s' = fr (b_kernel b)"
proof -
  note o = sys_okD [OF assms(1)] and k = kernel_okD [OF sys_okD(1) [OF assms(1)]]
  let ?s = "b_kernel b" and ?e = "key_effect code (b_kbd b) (b_kernel b)"
  from keyboard_interrupt_spec [OF o(2) assms(2) k(1), of code] assms(3) have
    r: "keyed (b_kbd b) kb'" "kinv s'" "sp_frame ?e s'" "code = 0xe0 \<or> code = 0xe1 \<Longrightarrow> cb_bytes (kcb kb') = cb_bytes (kcb (b_kbd b))"
    by auto
  have alive: "alive (thstate ?s t)" if "kb_waiter (b_kbd b) = Some t" for t
    using fr_okD(4) [OF k(3), of t] o(3) [of t] that by simp
  have "fr_ok ?e"
    using k(3) alive fr_ok_wake [OF k(3)] by (auto simp: key_effect_def split: option.split)
  moreover have "tm_ok ?e" "join_inv ?e"
    using k(2,4) by (auto simp: key_effect_def split: option.split)
  ultimately have ok: "kernel_ok s'"
    using kernel_okI_sp [OF r(2,3)] by blast
  show fr: "fr s' = fr ?s"
    using more_fr [OF sp_frameD(10) [OF r(3)]] by (simp add: key_effect_def split: option.splits)
  have st: "thstate s' t = thstate ?e t" for t
    using sp_frameD(1) [OF r(3)] .
  show "thstate s' t = PTHREAD_STATE_RUNNING" if "code \<noteq> 0xe0" "code \<noteq> 0xe1" "kb_waiter (b_kbd b) = Some t" for t
    using st [of t] that by (simp add: key_effect_def)
  have "cb_bytes (kcb kb') = []" if "kb_waiter (b_kbd b) = Some t" "thstate s' t = PTHREAD_STATE_SLEEPING" for t
    using st [of t] that o(4) [of t] r(4) by (auto simp: key_effect_def split: if_splits)
  with ok fr o(3) r(1) show "sys_ok (b\<lparr>b_kernel := s', b_kbd := kb', b_io := io'\<rparr>)"
    by (auto simp: sys_ok_def keyed_def)
qed

section \<open>The invariant of the system\<close>

lemma sys_dispatch:
  assumes "sys_ok b" and "ready 2 ((b_io b)\<lparr>io_status := status\<rparr>)" and "interrupt_dispatch irq code status b = Ok b'"
  shows "sys_ok b'"
proof (cases "b_handlers b irq")
  case pit_handler
  with assms(3) obtain s' where "timer_interrupt (b_kernel b) = Ok s'"
      "b' = b\<lparr>b_kernel := s', b_io := (b_io b)\<lparr>io_ports := if irq \<ge> 32 then pic_ack irq (io_ports (b_io b)) else io_ports (b_io b)\<rparr>\<rparr>"
    by (auto simp: interrupt_dispatch_def result_simps)
  with sys_kernel_step [OF assms(1) step.Tick] show ?thesis
    by (simp add: sys_ok_def)
next
  case keyboard_irq_handler
  with assms(3) sys_key(1) [OF assms(1,2)] show ?thesis
    by (auto simp: interrupt_dispatch_def result_simps)
qed (use assms(3) in \<open>simp add: interrupt_dispatch_def\<close>)

theorem sys_step_ok: "sys_step b b' \<Longrightarrow> sys_ok b \<Longrightarrow> sys_ok b'"
proof (induction rule: sys_step.induct)
  case (KernelStep b s')
  then show ?case by (blast intro: sys_kernel_step)
next
  case (Getchar b c r kb s')
  then show ?case using sys_getchar [of b c r kb s'] by simp
next
  case (GetcharResume b c r kb s')
  moreover have "c \<noteq> pthread_idle"
    using fr_okD(4) [OF kernel_okD(3) [OF sys_okD(1) [OF GetcharResume(4)]], of c] GetcharResume(2) by auto
  ultimately show ?case using sys_getchar [of b c r kb s'] by (simp add: getchar_resume_def)
next
  case (Interrupt b status irq code b')
  then show ?case by (blast intro: sys_dispatch)
qed

end
