(* ===== verification/Readline.thy ===== *)
theory Readline
  imports Stdio
begin

text \<open>
  Two users of the console: the line editor \<open>src/lib/readline.c\<close> and \<open>src/lib/hexdump.c\<close>.  The characters that
  \<open>getchar\<close> will return are a list; a line that is not finished when the list ends leaves the caller waiting, which is
  \<open>None\<close>.  What is printed is appended to the output.

  Shown: \<open>readline\<close> never writes outside its buffer, ends on every input that has a newline, and leaves the edited line there
  as a terminated string; \<open>hexdump\<close> ends, reads only the bytes it was asked for and prints rows of fixed layout.
\<close>

section \<open>The line editor\<close>

definition LINE_MAX :: nat where "LINE_MAX = 2048"

text \<open>\<open>b\<close> is the address of \<open>readline_buffer\<close>, \<open>n\<close> the number of characters in it.\<close>

fun readline_loop :: "nat \<Rightarrow> u8 list \<Rightarrow> nat \<Rightarrow> mem \<Rightarrow> outp \<Rightarrow> (nat \<times> mem \<times> u8 list \<times> outp) option" where
  "readline_loop b [] n m out = (if n < LINE_MAX - 1 then None else Some (n, m, [], out))"
| "readline_loop b (c # inp) n m out =
     (if n < LINE_MAX - 1 then
        (if c = 0x08 then
           (if n > 0 then readline_loop b inp (n - 1) m (out @ [uint c]) else readline_loop b inp n m out)
         else if c = 0x09 then readline_loop b inp n m out
         else if c = 0x0a then Some (n, m, inp, out @ [uint c])
         else readline_loop b inp (n + 1) (m(b + n := c)) (out @ [uint c]))
      else Some (n, m, c # inp, out))"

definition readline :: "nat \<Rightarrow> u8 list option \<Rightarrow> u8 list \<Rightarrow> mem \<Rightarrow> outp \<Rightarrow> (mem \<times> u8 list \<times> outp) option result" where
  "readline b prompt inp m out =
     rbind (kprintf [0x25, 0x73] [VStr (case prompt of None \<Rightarrow> [] | Some p \<Rightarrow> p)] out) (\<lambda>out.
       case readline_loop b inp 0 m out of
         None \<Rightarrow> Ok None
       | Some (n, m, inp, out) \<Rightarrow> Ok (Some (m(b + n := 0), inp, out)))"

section \<open>Hexadecimal dump\<close>

text \<open>Columns \<open>i\<close> to 15 of the bytes and of the characters of one row.\<close>

fun hexdump_bytes :: "mem \<Rightarrow> nat \<Rightarrow> nat \<Rightarrow> nat list \<Rightarrow> outp \<Rightarrow> outp result" where
  "hexdump_bytes m ptr sz [] out = Ok out"
| "hexdump_bytes m ptr sz (i # is) out =
     (let out = (if i = 8 then out @ [0x20] else out) in
      rbind
        (if i < sz then kprintf (map of_char '' %02x'') [VInt (ucast (m (ptr + i)))] out
         else kprintf (map of_char ''   '') [] out)
        (hexdump_bytes m ptr sz is))"

fun hexdump_chars :: "mem \<Rightarrow> nat \<Rightarrow> nat \<Rightarrow> nat list \<Rightarrow> outp \<Rightarrow> outp" where
  "hexdump_chars m ptr sz [] out = out"
| "hexdump_chars m ptr sz (i # is) out =
     (if i \<ge> sz then out
      else hexdump_chars m ptr sz is
        (out @ [if isprint (uint (m (ptr + i))) then uint (m (ptr + i)) else 0x2e]))"

definition hexdump_row :: "mem \<Rightarrow> nat \<Rightarrow> nat \<Rightarrow> outp \<Rightarrow> outp result" where
  "hexdump_row m ptr sz out =
     rbind (kprintf (map of_char ''%p:'') [VInt (of_nat ptr)] out) (\<lambda>out.
       rbind (hexdump_bytes m ptr sz [0..<16] out) (\<lambda>out.
         rbind (kprintf (map of_char '' |'') [] out) (\<lambda>out.
           kprintf (map of_char ''|'' @ [0x0a]) [] (hexdump_chars m ptr sz [0..<16] out))))"

function hexdump :: "mem \<Rightarrow> nat \<Rightarrow> nat \<Rightarrow> outp \<Rightarrow> outp result" where
  "hexdump m ptr sz out =
     (if sz > 0 then
        rbind (hexdump_row m ptr sz out) (\<lambda>out.
          if sz \<le> 16 then Ok out else hexdump m (ptr + 16) (sz - 16) out)
      else Ok out)"
  by pat_completeness auto
termination
  by (relation "measure (\<lambda>(m, ptr, sz, out). sz)") auto

declare hexdump.simps [simp del]

section \<open>Lines\<close>

text \<open>What editing does to a line, as a list: the finished line and the characters left over.\<close>

fun edit_line :: "u8 list \<Rightarrow> u8 list \<Rightarrow> (u8 list \<times> u8 list) option" where
  "edit_line l [] = (if length l < LINE_MAX - 1 then None else Some (l, []))"
| "edit_line l (c # inp) =
     (if length l < LINE_MAX - 1 then
        (if c = 0x08 then edit_line (butlast l) inp
         else if c = 0x09 then edit_line l inp
         else if c = 0x0a then Some (l, inp)
         else edit_line (l @ [c]) inp)
      else Some (l, c # inp))"

lemma bytes_snoc: "bytes (m(b + n := c)) b (Suc n) = bytes m b n @ [c]"
  by (simp add: bytes_def)

lemma bytes_butlast: "bytes m b (n - 1) = butlast (bytes m b n)"
  by (cases n) (simp_all add: bytes_def)

definition line_result :: "nat \<Rightarrow> mem \<Rightarrow> (u8 list \<times> u8 list) option \<Rightarrow> (nat \<times> mem \<times> u8 list \<times> outp) option \<Rightarrow> bool" where
  "line_result b m e r \<longleftrightarrow>
     (case e of
        None \<Rightarrow> r = None
      | Some (l, rest) \<Rightarrow> \<exists>n m' out. r = Some (n, m', rest, out) \<and> bytes m' b n = l \<and>
          (\<forall>a. a < b \<or> b + LINE_MAX - 1 \<le> a \<longrightarrow> m' a = m a))"

lemma readline_loop_spec:
  assumes "bytes m b n = l"
  shows "line_result b m (edit_line l inp) (readline_loop b inp n m out)"
  using assms
proof (induction inp arbitrary: n m l out)
  case Nil
  then show ?case
    by (auto simp: bytes_def line_result_def)
next
  case (Cons c inp)
  have len: "length l = n"
    using Cons.prems by (auto simp: bytes_def)
  consider (full) "\<not> n < LINE_MAX - 1" | (bsp) "n < LINE_MAX - 1" "c = 0x08" | (tab) "n < LINE_MAX - 1" "c = 0x09"
    | (ret) "n < LINE_MAX - 1" "c = 0x0a" | (chr1) "n < LINE_MAX - 1" "c \<noteq> 0x08" "c \<noteq> 0x09" "c \<noteq> 0x0a"
    by blast
  then show ?case
  proof cases
    case bsp
    then have "bytes m b (n - 1) = butlast l"
      using bytes_butlast [of m b n] Cons.prems by simp
    from Cons.IH [OF this, of "out @ [uint c]"] Cons.IH [OF Cons.prems, of out] bsp len show ?thesis
      by (cases n) simp_all
  next
    case chr1
    define m1 where "m1 = m(b + n := c)"
    have "bytes m1 b (n + 1) = l @ [c]"
      using bytes_snoc [of m b n c] Cons.prems by (simp add: m1_def)
    note IH = Cons.IH [OF this, of "out @ [uint c]"]
    have far: "m1 a = m a" if "a < b \<or> b + LINE_MAX - 1 \<le> a" for a
      using that chr1 by (auto simp: m1_def)
    have "line_result b m (edit_line (l @ [c]) inp) (readline_loop b inp (n + 1) m1 (out @ [uint c]))"
      using IH far by (fastforce simp: line_result_def split: option.splits)
    then show ?thesis
      using chr1 len by (simp add: m1_def)
  qed (use Cons.IH [OF Cons.prems, of out] Cons.prems len in \<open>simp_all add: line_result_def\<close>)
qed

lemma edit_line_bounds: "edit_line l inp = Some (l', rest) \<Longrightarrow> length l \<le> LINE_MAX - 1 \<Longrightarrow> length l' \<le> LINE_MAX - 1"
  by (induction l inp rule: edit_line.induct) (auto split: if_splits)

lemma edit_line_ends: "0x0a \<in> set inp \<Longrightarrow> edit_line l inp \<noteq> None"
  by (induction l inp rule: edit_line.induct) auto

lemma edit_line_consumes:
  "edit_line l inp = Some (l', rest) \<Longrightarrow> length l < LINE_MAX - 1 \<Longrightarrow> length rest < length inp"
proof (induction l inp rule: edit_line.induct)
  case (2 l c inp)
  show ?case
  proof (cases "c = 0x08 \<or> c = 0x09 \<or> c = 0x0a")
    case True
    then show ?thesis
      using 2 by (fastforce split: if_splits)
  next
    case False
    have "rest = inp" if "\<not> length (l @ [c]) < LINE_MAX - 1"
      using 2 False that by (cases inp) auto
    then show ?thesis
      using 2 False by (cases "length (l @ [c]) < LINE_MAX - 1") (auto split: if_splits)
  qed
qed (auto split: if_splits)

lemma edit_line_chars: "edit_line l inp = Some (l', rest) \<Longrightarrow> set l' \<subseteq> set l \<union> set inp"
proof (induction l inp rule: edit_line.induct)
  case (2 l c inp)
  have "set (butlast l) \<subseteq> set l"
    by (auto dest: in_set_butlastD)
  with 2 show ?case
    by (auto split: if_splits)
qed (auto split: if_splits)

text \<open>A line without a zero byte is a string in the buffer.\<close>

lemma cstr_bytes: "cstr m p xs \<longleftrightarrow> bytes m p (length xs) = xs \<and> 0 \<notin> set xs \<and> m (p + length xs) = 0"
proof (induction xs arbitrary: p)
  case (Cons x xs)
  have "bytes m p (Suc (length xs)) = m p # bytes m (Suc p) (length xs)"
    by (simp add: bytes_def upt_conv_Cons map_Suc_upt [symmetric] del: upt_Suc)
  with Cons show ?case
    by auto
qed (simp add: bytes_def)

lemma readline_spec:
  "case edit_line [] inp of
      None \<Rightarrow> readline b prompt inp m out = Ok None
    | Some (l, rest) \<Rightarrow> \<exists>m' out'. readline b prompt inp m out = Ok (Some (m', rest, out')) \<and>
        bytes m' b (length l) = l \<and> m' (b + length l) = 0 \<and> length l < LINE_MAX \<and>
        (\<forall>a. a < b \<or> b + LINE_MAX \<le> a \<longrightarrow> m' a = m a)"
proof -
  define p where "p = (case prompt of None \<Rightarrow> [] | Some p \<Rightarrow> p)"
  have "kprintf (concat (map render [Conv Str False 0 False])) [VStr p] out = Ok (out @ map uint p)"
    using printf_loop_spec [of "replicate 12 0" "[Conv Str False 0 False]" "[VStr p]" "map uint p" "length (concat (map render [Conv Str False 0 False]))" 0 out]
    by (simp add: kprintf_def printf_def padded_def)
  then have p: "kprintf [0x25, 0x73] [VStr p] out = Ok (out @ map uint p)"
    by (simp add: width_chars_def)
  have "bytes m b 0 = []"
    by (simp add: bytes_def)
  note l = readline_loop_spec [OF this, of inp "out @ map uint p"]
  show ?thesis
  proof (cases "edit_line [] inp")
    case None
    with l p show ?thesis
      by (simp add: readline_def p_def line_result_def)
  next
    case (Some lr)
    obtain l' rest where lr: "lr = (l', rest)"
      by fastforce
    from l [unfolded line_result_def] Some lr obtain n' m' out' where r: "readline_loop b inp 0 m (out @ map uint p) = Some (n', m', rest, out')"
        "bytes m' b n' = l'" "\<forall>a. a < b \<or> b + LINE_MAX - 1 \<le> a \<longrightarrow> m' a = m a"
      by auto
    have n: "n' = length l'"
      using r(2) by (auto simp: bytes_def)
    have "length l' \<le> LINE_MAX - 1"
      using edit_line_bounds [of "[]" inp l' rest] Some lr by simp
    then have len: "length l' < LINE_MAX"
      by (simp add: LINE_MAX_def)
    have "bytes (m'(b + n' := 0)) b n' = l'"
      using r(2) by (auto simp: bytes_def)
    moreover have "(m'(b + n' := 0)) a = m a" if "a < b \<or> b + LINE_MAX \<le> a" for a
      using that r(3) len n by auto
    ultimately show ?thesis
      using Some lr r(1) p n len unfolding readline_def p_def by (simp del: fun_upd_apply) simp
  qed
qed

section \<open>Dumps\<close>

definition hex_byte :: "u8 \<Rightarrow> int list" where
  "hex_byte x = padded True 2 (uns_chars number_table 16 (ucast x))"

definition hex_addr :: "nat \<Rightarrow> int list" where
  "hex_addr a = [0x30, 0x78] @ padded True 8 (uns_chars number_table 16 (of_nat a))"

definition dump_columns :: "u8 list \<Rightarrow> nat list \<Rightarrow> int list" where
  "dump_columns bs is =
     concat (map (\<lambda>i. (if i = 8 then [0x20] else []) @ (if i < length bs then 0x20 # hex_byte (bs ! i) else [0x20, 0x20, 0x20])) is)"

definition dump_char :: "u8 \<Rightarrow> int" where
  "dump_char x = (if isprint (uint x) then uint x else 0x2e)"

definition row_text :: "nat \<Rightarrow> u8 list \<Rightarrow> int list" where
  "row_text ptr bs = hex_addr ptr @ [0x3a] @ dump_columns bs [0..<16] @ [0x20, 0x7c] @ map dump_char bs @ [0x7c, 0x0a]"

function dump_text :: "nat \<Rightarrow> u8 list \<Rightarrow> int list" where
  "dump_text ptr bs = (if bs = [] then [] else row_text ptr (take 16 bs) @ dump_text (ptr + 16) (drop 16 bs))"
  by pat_completeness auto
termination
  by (relation "measure (\<lambda>(ptr, bs). length bs)") auto

declare dump_text.simps [simp del]

lemma print_byte: "kprintf (map of_char '' %02x'') [VInt (ucast (x :: u8))] out = Ok (out @ 0x20 # hex_byte x)"
proof -
  have "base_digits 10 2 = [2]"
    by (simp add: base_digits.simps)
  then have f: "concat (map render [Lit 0x20, Conv Hex True 2 False]) = map of_char '' %02x''"
    by (simp add: width_chars_def number_table_def)
  have t: "format_text [Lit 0x20, Conv Hex True 2 False] [VInt (ucast x)] = Some (0x20 # hex_byte x)"
    by (simp add: hex_byte_def)
  show ?thesis
    using kprintf_format [OF t, of out] unfolding f by simp
qed

lemma print_addr: "kprintf (map of_char ''%p:'') [VInt (of_nat a)] out = Ok (out @ hex_addr a @ [0x3a])"
proof -
  have t: "format_text [Ptr, Lit 0x3a] [VInt (of_nat a)] = Some (hex_addr a @ [0x3a])"
    by (simp add: hex_addr_def)
  show ?thesis
    using kprintf_format [OF t, of out] by simp
qed

lemma hexdump_bytes_spec:
  assumes "bs = bytes m ptr (min sz 16)" and "\<forall>i \<in> set is. i < 16"
  shows "hexdump_bytes m ptr sz is out = Ok (out @ dump_columns bs is)"
  using assms(2)
proof (induction "is" arbitrary: out)
  case (Cons i "is")
  have l: "i < sz \<longleftrightarrow> i < length bs" and n: "i < length bs \<Longrightarrow> bs ! i = m (ptr + i)"
    using Cons.prems assms(1) by (auto simp: bytes_def)
  have blanks: "kprintf (map of_char ''   '') [] o' = Ok (o' @ [0x20, 0x20, 0x20])" for o'
    by (subst kprintf_lit) simp_all
  show ?case
    using Cons l n by (cases "i < length bs") (auto simp: print_byte [simplified] blanks [simplified] dump_columns_def)
qed (simp add: dump_columns_def)

lemma hexdump_chars_spec:
  assumes "i \<le> 16"
  shows "hexdump_chars m ptr sz [i..<16] out = out @ map dump_char (bytes m (ptr + i) (min sz 16 - i))"
  using assms
proof (induction "16 - i" arbitrary: i out)
  case (Suc k)
  then have i: "i < 16" "[i..<16] = i # [Suc i..<16]"
    by (simp_all add: upt_conv_Cons)
  show ?case
  proof (cases "sz \<le> i")
    case False
    have "bytes m (ptr + i) (min sz 16 - i) = m (ptr + i) # bytes m (ptr + Suc i) (min sz 16 - Suc i)"
    proof -
      obtain j where j: "min sz 16 - i = Suc j"
        using False i(1) by (cases "min sz 16 - i") auto
      then have "min sz 16 - Suc i = j"
        by simp
      with j show ?thesis
        by (simp add: bytes_def upt_conv_Cons map_Suc_upt [symmetric] del: upt_Suc)
    qed
    with False i Suc.hyps(1) [of "Suc i"] Suc.hyps(2) show ?thesis
      by (simp add: dump_char_def)
  qed (use i in \<open>simp add: bytes_def\<close>)
qed (simp add: bytes_def)

lemma hexdump_row_spec: "hexdump_row m ptr sz out = Ok (out @ row_text ptr (bytes m ptr (min sz 16)))"
proof -
  have b: "hexdump_bytes m ptr sz [0..<16] o' = Ok (o' @ dump_columns (bytes m ptr (min sz 16)) [0..<16])" for o'
    by (rule hexdump_bytes_spec) simp_all
  have bar: "kprintf (map of_char '' |'') [] o' = Ok (o' @ [0x20, 0x7c])"
    "kprintf (map of_char ''|'' @ [0x0a]) [] o' = Ok (o' @ [0x7c, 0x0a])" for o'
    by (subst kprintf_lit; simp)+
  have c: "hexdump_chars m ptr sz [0..<16] o' = o' @ map dump_char (bytes m ptr (min sz 16))" for o'
    using hexdump_chars_spec [of 0 m ptr sz o'] by simp
  show ?thesis
    unfolding hexdump_row_def print_addr b rbind.simps bar c row_text_def by simp
qed

lemma bytes_split: "bytes m p (a + b) = bytes m p a @ bytes m (p + a) b"
  by (rule nth_equalityI) (auto simp: bytes_def nth_append ac_simps)

lemma hexdump_spec: "hexdump m ptr sz out = Ok (out @ dump_text ptr (bytes m ptr sz))"
proof (induction m ptr sz out rule: hexdump.induct)
  case (1 m ptr sz out)
  show ?case
  proof (cases "sz \<le> 16")
    case True
    then show ?thesis
      by (cases "sz = 0")
        (simp_all add: hexdump.simps [of m ptr sz] hexdump.simps [of m ptr 0] hexdump_row_spec dump_text.simps [of ptr] dump_text.simps [of "ptr + 16"] bytes_def)
  next
    case False
    then have "bytes m ptr sz = bytes m ptr 16 @ bytes m (ptr + 16) (sz - 16)"
      using bytes_split [of m ptr 16 "sz - 16"] by simp
    then have t: "take 16 (bytes m ptr sz) = bytes m ptr 16" "drop 16 (bytes m ptr sz) = bytes m (ptr + 16) (sz - 16)" "bytes m ptr sz \<noteq> []"
      by (auto simp: bytes_def)
    have "dump_text ptr (bytes m ptr sz) = row_text ptr (bytes m ptr 16) @ dump_text (ptr + 16) (bytes m (ptr + 16) (sz - 16))"
      using t by (subst dump_text.simps) simp
    with False "1.IH" show ?thesis
      by (simp add: hexdump.simps [of m ptr sz] hexdump_row_spec)
  qed
qed

text \<open>The layout: 64 characters a row besides one for each byte.\<close>

lemma padded_length: "length (padded z w cs) = max w (length cs)"
  by (simp add: padded_def)

lemma hex_byte_length [simp]: "length (hex_byte x) = 2"
proof -
  have "unat x < 256"
    using unsigned_less [of x, where 'a = nat] by simp
  then have "unat (ucast x :: u32) < 16 ^ 2"
    by (simp add: unsigned_ucast_eq take_bit_nat_eq_self)
  then have "length (base_digits 16 (unat (ucast x :: u32))) \<le> 2"
    by (intro base_digits_length) auto
  then show ?thesis
    by (simp add: hex_byte_def padded_length uns_chars_def)
qed

lemma hex_addr_length [simp]: "length (hex_addr a) = 10"
  using unat_bound_length(3) [of "of_nat a"] by (simp add: hex_addr_def padded_length uns_chars_def)

lemma dump_columns_length: "length (dump_columns bs is) = 3 * length is + length (filter (\<lambda>i. i = 8) is)"
  by (induction "is") (simp_all add: dump_columns_def)

lemma row_text_length: "length (row_text ptr bs) = 64 + length bs"
  by (simp add: row_text_def dump_columns_length upt_rec)

lemma dump_text_length: "length (dump_text ptr bs) = 64 * ((length bs + 15) div 16) + length bs"
proof (induction ptr bs rule: dump_text.induct)
  case (1 ptr bs)
  show ?case
  proof (cases "length bs \<le> 16")
    case True
    then have "(length bs + 15) div 16 = 1" if "bs \<noteq> []"
      using that by (intro div_nat_eqI) (auto simp: Suc_le_eq)
    with True show ?thesis
      by (cases "bs = []") (simp_all add: dump_text.simps [of ptr] dump_text.simps [of "ptr + 16"] row_text_length)
  next
    case False
    then have "bs \<noteq> []" "(length bs + 15) div 16 = 1 + (length bs - 16 + 15) div 16"
      by auto
    with 1 False show ?thesis
      by (simp add: dump_text.simps [of ptr] row_text_length)
  qed
qed

end
