(* ===== verification/Shell.thy ===== *)
theory Shell
  imports Readline Keyboard TimeLib
begin

text \<open>
  The shell \<open>src/applications/shell.c\<close> and \<open>uname\<close> of \<open>src/kernel/utsname.c\<close>.  The command table is what the linker puts into
  the section \<open>.shell.cmd\<close>, so it is an argument, as are the addresses and stacks of the threads that \<open>ps\<close> shows and the names
  the build defines.  Command lines live in byte memory, where \<open>strtok_r\<close> cuts them up; \<open>argv\<close> is the list of the argument
  addresses.  Output is the text of \<open>sh_io\<close>.

  Shown: a line is cut into its words, at most 19 of them, each argument being a terminated string in the buffer; the main loop
  ends for every input; the sheet that \<open>cal\<close> prints puts every date under its weekday.
\<close>

lemma rbind_cong [fundef_cong]: "r = r' \<Longrightarrow> (\<And>x. r' = Ok x \<Longrightarrow> f x = f' x) \<Longrightarrow> rbind r f = rbind r' f'"
  by (cases r') auto

text \<open>A loop that does not end and one that faults.\<close>

definition of_loop :: "'a result option \<Rightarrow> 'a result" where
  "of_loop r = (case r of None \<Rightarrow> Fault Diverge | Some x \<Rightarrow> x)"

section \<open>Command lines\<close>

definition SHELL_ARGS_MAX_NUM :: nat where "SHELL_ARGS_MAX_NUM = 20"

text \<open>The loop of \<open>cmd_parse\<close>, with the number of free places in \<open>argv\<close>; the flag says whether \<open>strtok_r\<close> found no further word.\<close>

fun cmd_parse_loop :: "nat \<Rightarrow> nat \<Rightarrow> mem \<Rightarrow> nat option \<Rightarrow> nat option \<Rightarrow> nat list \<Rightarrow> (mem \<times> nat list \<times> bool) result" where
  "cmd_parse_loop delim 0 m buf saveptr argv = Ok (m, argv, False)"
| "cmd_parse_loop delim (Suc k) m buf saveptr argv =
     rbind (of_loop (strtok_r m buf (Some delim) (Some saveptr))) (\<lambda>(m, tok, save).
       case tok of
         None \<Rightarrow> Ok (m, argv, True)
       | Some p \<Rightarrow> cmd_parse_loop delim k m None (case save of None \<Rightarrow> saveptr | Some v \<Rightarrow> v) (argv @ [p]))"

text \<open>\<open>None\<close> is the return value \<open>-1\<close>; otherwise \<open>argc\<close> is the length of the list.\<close>

definition cmd_parse :: "nat \<Rightarrow> nat \<Rightarrow> mem \<Rightarrow> nat \<Rightarrow> outp \<Rightarrow> (mem \<times> nat list option \<times> outp) result" where
  "cmd_parse delim buf m argv_max out =
     rbind (cmd_parse_loop delim argv_max m (Some buf) None []) (\<lambda>(m, argv, complete).
       if \<not> complete then
         rbind (kprintf (map of_char ''invalid command line'' @ [0x0a]) [] out) (\<lambda>out. Ok (m, None, out))
       else Ok (m, Some argv, out))"

section \<open>Commands\<close>

datatype shell_handler = H_exit | H_help | H_reboot | H_date | H_uptime | H_cal | H_ps | H_hexdump | H_uname

record shell_cmd =
  cmd_exe :: "u8 list"
  cmd_handler :: shell_handler
  cmd_usage :: "u8 list option"

record utsname =
  sysname :: "u8 list"
  nodename :: "u8 list"
  release :: "u8 list"
  version :: "u8 list"
  machine :: "u8 list"

text \<open>What the build fixes: the command table, the names, where the threads and their stacks are.\<close>

record shell_env =
  env_cmds :: "shell_cmd list"
  env_kernel :: "u8 list"
  env_release :: "u8 list"
  env_version :: "u8 list"
  env_arch :: "u8 list"
  env_thread_addr :: "tid \<Rightarrow> u32"
  env_stack :: "tid \<Rightarrow> u32 list"

record shell_state =
  is_exit :: bool
  sh_mem :: mem
  sh_io :: io

definition sh_print :: "u8 list \<Rightarrow> va_arg list \<Rightarrow> shell_state \<Rightarrow> shell_state result" where
  "sh_print fmt args st =
     rbind (kprintf fmt args (io_text (sh_io st))) (\<lambda>out. Ok (st\<lparr>sh_io := (sh_io st)\<lparr>io_text := out\<rparr>\<rparr>))"

definition cmd_show :: "shell_cmd \<Rightarrow> shell_state \<Rightarrow> shell_state result" where
  "cmd_show c =
     sh_print (map of_char ''%s: %s'' @ [0x0a])
       [VStr (cmd_exe c), VStr (case cmd_usage c of None \<Rightarrow> cmd_exe c | Some u \<Rightarrow> u)]"

fun cmd_list :: "shell_cmd list \<Rightarrow> shell_state \<Rightarrow> shell_state result" where
  "cmd_list [] st = Ok st"
| "cmd_list (c # cmds) st = rbind (cmd_show c st) (cmd_list cmds)"

definition cmd_find :: "shell_cmd list \<Rightarrow> u8 list \<Rightarrow> shell_cmd option" where
  "cmd_find cmds exe = find (\<lambda>c. cmd_exe c = exe) cmds"

text \<open>The string at an address.\<close>

partial_function (option) string_at :: "mem \<Rightarrow> nat \<Rightarrow> u8 list option" where
  "string_at m p = (if m p = 0 then Some [] else Option.bind (string_at m (p + 1)) (\<lambda>xs. Some (m p # xs)))"

definition arg_at :: "shell_state \<Rightarrow> nat \<Rightarrow> u8 list result" where
  "arg_at st p = (case string_at (sh_mem st) p of None \<Rightarrow> Fault Diverge | Some xs \<Rightarrow> Ok xs)"

definition no_such_command :: "u8 list \<Rightarrow> shell_state \<Rightarrow> shell_state result" where
  "no_such_command exe = sh_print (map of_char ''no such command: %s'' @ [0x0a]) [VStr exe]"

definition do_exit :: "shell_state \<Rightarrow> shell_state result" where
  "do_exit st = Ok (st\<lparr>is_exit := True\<rparr>)"

fun help_args :: "shell_cmd list \<Rightarrow> nat list \<Rightarrow> shell_state \<Rightarrow> shell_state result" where
  "help_args cmds [] st = Ok st"
| "help_args cmds (p # ps) st =
     rbind (arg_at st p) (\<lambda>exe.
       rbind (case cmd_find cmds exe of None \<Rightarrow> no_such_command exe st | Some c \<Rightarrow> cmd_show c st) (help_args cmds ps))"

definition do_help :: "shell_cmd list \<Rightarrow> nat list \<Rightarrow> shell_state \<Rightarrow> shell_state result" where
  "do_help cmds argv st = (if length argv = 1 then cmd_list cmds st else help_args cmds (drop 1 argv) st)"

definition do_reboot :: "shell_state \<Rightarrow> shell_state result" where
  "do_reboot st = rbind (reboot (sh_io st)) (\<lambda>io. Ok (st\<lparr>sh_io := io\<rparr>))"

abbreviation vint :: "int \<Rightarrow> va_arg" where
  "vint i \<equiv> VInt (word_of_int i)"

definition do_date :: "'a tkernel_scheme \<Rightarrow> shell_state \<Rightarrow> shell_state result" where
  "do_date k st =
     (let (tv, tz) = gettimeofday k;
          t = localtime_r (tz_minuteswest (wall_tz k)) (tv_sec tv);
          west = tz_minuteswest tz
      in sh_print (map of_char ''%04d-%02d-%02dT%02d:%02d:%02d%c%02d:%02d'' @ [0x0a])
           [vint (tm_year t + 1900), vint (tm_mon t + 1), vint (tm_mday t), vint (tm_hour t), vint (tm_min t), vint (tm_sec t),
            vint (if west > 0 then 0x2d else 0x2b), vint (cdiv \<bar>west\<bar> 60), vint (cmod \<bar>west\<bar> 60)] st)"

definition do_uptime :: "'a tkernel_scheme \<Rightarrow> shell_state \<Rightarrow> shell_state result" where
  "do_uptime k st =
     (let tv = uptime k in
      rbind
        (if tv_sec tv \<ge> SECS_PER_DAY then
           rbind (sh_print (map of_char ''%ld days, '') [vint (cdiv (tv_sec tv) SECS_PER_DAY)] st)
             (\<lambda>st. Ok (cmod (tv_sec tv) SECS_PER_DAY, st))
         else Ok (tv_sec tv, st))
        (\<lambda>(sec, st).
           let t = gmtime_r sec in
           sh_print (map of_char ''%02d:%02d:%02d.%06ld'' @ [0x0a])
             [vint (tm_hour t), vint (tm_min t), vint (tm_sec t), vint (tv_usec tv)] st))"

definition mon_str :: "u8 list list" where
  "mon_str = map (map of_char) [''January'', ''February'', ''March'', ''April'', ''May'', ''June'', ''July'', ''August'',
     ''September'', ''October'', ''November'', ''December'']"

definition days_of_mon :: "int list" where
  "days_of_mon = [31, 28, 31, 30, 31, 30, 31, 31, 30, 31, 30, 31]"

fun cal_pad :: "nat \<Rightarrow> outp \<Rightarrow> outp result" where
  "cal_pad 0 out = Ok out"
| "cal_pad (Suc n) out = rbind (kprintf (map of_char ''   '') [] out) (cal_pad n)"

text \<open>The loop over the days: \<open>day\<close> to \<open>days\<close>, \<open>n\<close> of them.\<close>

fun cal_days :: "nat \<Rightarrow> int \<Rightarrow> int \<Rightarrow> outp \<Rightarrow> (int \<times> outp) result" where
  "cal_days 0 day wday out = Ok (wday, out)"
| "cal_days (Suc n) day wday out =
     rbind (kprintf (map of_char ''%2d '') [vint day] out) (\<lambda>out.
       if wday = 6 then cal_days n (day + 1) 0 (out @ [0x0a]) else cal_days n (day + 1) (wday + 1) out)"

definition do_cal_text :: "int \<Rightarrow> int \<Rightarrow> outp \<Rightarrow> outp result" where
  "do_cal_text minuteswest now out =
     (let t = localtime_r minuteswest now in
      rguard (0 \<le> tm_mon t \<and> tm_mon t < 12) OutOfBounds
       (rbind (kprintf (map of_char ''   %s %d'' @ [0x0a]) [VStr (mon_str ! nat (tm_mon t)), vint (1900 + tm_year t)] out) (\<lambda>out.
          rbind (kprintf (map of_char ''Su Mo Tu We Th Fr Sa'' @ [0x0a]) [] out) (\<lambda>out.
            let wday = cmod (tm_wday t + 35 - (tm_mday t - 1)) 7 in
            rbind (cal_pad (nat wday) out) (\<lambda>out.
              let days = days_of_mon ! nat (tm_mon t) + of_bool (tm_mon t = 1 \<and> is_leapyear (1900 + tm_year t)) in
              rbind (cal_days (nat days) 1 wday out) (\<lambda>(wday, out).
                Ok (if wday \<noteq> 0 then out @ [0x0a] else out)))))))"

definition do_cal :: "'a tkernel_scheme \<Rightarrow> shell_state \<Rightarrow> shell_state result" where
  "do_cal k st =
     rbind (do_cal_text (tz_minuteswest (wall_tz k)) (time_now k) (io_text (sh_io st)))
       (\<lambda>out. Ok (st\<lparr>sh_io := (sh_io st)\<lparr>io_text := out\<rparr>\<rparr>))"

fun state_str :: "pthread_state \<Rightarrow> string" where
  "state_str PTHREAD_STATE_NONE = ''none''"
| "state_str PTHREAD_STATE_INIT = ''init''"
| "state_str PTHREAD_STATE_RUNNING = ''running''"
| "state_str PTHREAD_STATE_SLEEPING = ''sleeping''"
| "state_str PTHREAD_STATE_EXIT = ''exit''"

definition show_thread :: "shell_env \<Rightarrow> 'a kernel_scheme \<Rightarrow> tid \<Rightarrow> shell_state \<Rightarrow> shell_state result" where
  "show_thread env k t =
     (let th = threads k t in
      sh_print (map of_char ''%s %p %u %lu %ld.%03ld %s'' @ [0x0a])
        [VStr (map of_char (state_str (th_state th))), VInt (env_thread_addr env t), VInt (ucast (priority th)),
         VInt (of_nat (stack_check_size (env_stack env t))), vint (tv_sec (stime th)), vint (cdiv (tv_usec (stime th)) 1000),
         VStr (map of_char (th_name th))])"

fun show_threads :: "shell_env \<Rightarrow> 'a kernel_scheme \<Rightarrow> tid list \<Rightarrow> shell_state \<Rightarrow> shell_state result" where
  "show_threads env k [] st = Ok st"
| "show_threads env k (t # ts) st = rbind (show_thread env k t st) (show_threads env k ts)"

definition do_ps :: "shell_env \<Rightarrow> 'a kernel_scheme \<Rightarrow> shell_state \<Rightarrow> shell_state result" where
  "do_ps env k st =
     rbind (sh_print (map of_char ''state tid priority stack time name'' @ [0x0a]) [] st)
       (show_threads env k (pthread_foreach k))"

definition do_hexdump :: "nat list \<Rightarrow> shell_state \<Rightarrow> shell_state result" where
  "do_hexdump argv st =
     (if length argv \<noteq> 3 then sh_print (map of_char ''invalid arguments'' @ [0x0a]) [] st
      else
        (case (strtoul (sh_mem st) (Some (argv ! 1)) False 0, strtoul (sh_mem st) (Some (argv ! 2)) False 0) of
           (Some (address, _), Some (sz, _)) \<Rightarrow>
             rbind (hexdump (sh_mem st) (unat address) (unat sz) (io_text (sh_io st)))
               (\<lambda>out. Ok (st\<lparr>sh_io := (sh_io st)\<lparr>io_text := out\<rparr>\<rparr>))
         | _ \<Rightarrow> Fault Diverge))"

text \<open>\<open>uname\<close>: \<open>None\<close> for a null buffer, where it sets \<open>errno\<close> to \<open>EFAULT\<close> and returns \<open>-1\<close>.\<close>

definition uname :: "shell_env \<Rightarrow> utsname option \<Rightarrow> errno + utsname" where
  "uname env buf =
     (case buf of
        None \<Rightarrow> Inl EFAULT
      | Some u \<Rightarrow>
         (let u = u\<lparr>sysname := env_kernel env\<rparr>;
              u = (case sysname u of [] \<Rightarrow> u | c # xs \<Rightarrow> u\<lparr>sysname := word_of_int (toupper (uint c)) # xs\<rparr>)
          in Inr (u\<lparr>nodename := map of_char ''local'', release := env_release env, version := env_version env,
               machine := env_arch env\<rparr>)))"

definition do_uname :: "shell_env \<Rightarrow> utsname \<Rightarrow> shell_state \<Rightarrow> shell_state result" where
  "do_uname env buf st =
     (case uname env (Some buf) of
        Inl _ \<Rightarrow> Ok st
      | Inr u \<Rightarrow>
         sh_print (map of_char ''%s %s %s %s %s'' @ [0x0a])
           [VStr (sysname u), VStr (nodename u), VStr (release u), VStr (version u), VStr (machine u)] st)"

definition uts_empty :: utsname where
  "uts_empty = \<lparr>sysname = [], nodename = [], release = [], version = [], machine = []\<rparr>"

fun run_handler :: "shell_env \<Rightarrow> 'a tkernel_scheme \<Rightarrow> shell_handler \<Rightarrow> nat list \<Rightarrow> shell_state \<Rightarrow> shell_state result" where
  "run_handler env k H_exit argv st = do_exit st"
| "run_handler env k H_help argv st = do_help (env_cmds env) argv st"
| "run_handler env k H_reboot argv st = do_reboot st"
| "run_handler env k H_date argv st = do_date k st"
| "run_handler env k H_uptime argv st = do_uptime k st"
| "run_handler env k H_cal argv st = do_cal k st"
| "run_handler env k H_ps argv st = do_ps env k st"
| "run_handler env k H_hexdump argv st = do_hexdump argv st"
| "run_handler env k H_uname argv st = do_uname env uts_empty st"

definition cmd_exec :: "shell_env \<Rightarrow> 'a tkernel_scheme \<Rightarrow> nat list \<Rightarrow> shell_state \<Rightarrow> shell_state result" where
  "cmd_exec env k argv st =
     rguard (argv \<noteq> []) NullDeref
      (rbind (arg_at st (hd argv)) (\<lambda>exe.
        case cmd_find (env_cmds env) exe of
          None \<Rightarrow> no_such_command exe st
        | Some c \<Rightarrow> run_handler env k (cmd_handler c) argv st))"

text \<open>The commands the shell itself registers.\<close>

definition cmd_exit :: shell_cmd where
  "cmd_exit = \<lparr>cmd_exe = map of_char ''exit'', cmd_handler = H_exit, cmd_usage = None\<rparr>"

definition cmd_help :: shell_cmd where
  "cmd_help = \<lparr>cmd_exe = map of_char ''help'', cmd_handler = H_help, cmd_usage = Some (map of_char ''help [cmd]...'')\<rparr>"

definition cmd_reboot :: shell_cmd where
  "cmd_reboot = \<lparr>cmd_exe = map of_char ''reboot'', cmd_handler = H_reboot, cmd_usage = None\<rparr>"

definition cmd_date :: shell_cmd where
  "cmd_date = \<lparr>cmd_exe = map of_char ''date'', cmd_handler = H_date, cmd_usage = None\<rparr>"

definition cmd_uptime :: shell_cmd where
  "cmd_uptime = \<lparr>cmd_exe = map of_char ''uptime'', cmd_handler = H_uptime, cmd_usage = None\<rparr>"

definition cmd_cal :: shell_cmd where
  "cmd_cal = \<lparr>cmd_exe = map of_char ''cal'', cmd_handler = H_cal, cmd_usage = None\<rparr>"

definition cmd_ps :: shell_cmd where
  "cmd_ps = \<lparr>cmd_exe = map of_char ''ps'', cmd_handler = H_ps, cmd_usage = None\<rparr>"

definition cmd_hexdump :: shell_cmd where
  "cmd_hexdump = \<lparr>cmd_exe = map of_char ''hexdump'', cmd_handler = H_hexdump, cmd_usage = Some (map of_char ''hexdump address size'')\<rparr>"

definition cmd_uname :: shell_cmd where
  "cmd_uname = \<lparr>cmd_exe = map of_char ''uname'', cmd_handler = H_uname, cmd_usage = None\<rparr>"

definition shell_cmds :: "shell_cmd list" where
  "shell_cmds = [cmd_exit, cmd_help, cmd_reboot, cmd_date, cmd_uptime, cmd_cal, cmd_ps, cmd_hexdump, cmd_uname]"

lemmas shell_cmd_defs = shell_cmds_def cmd_exit_def cmd_help_def cmd_reboot_def cmd_date_def cmd_uptime_def cmd_cal_def cmd_ps_def cmd_hexdump_def cmd_uname_def

section \<open>The main loop\<close>

definition CONFIG_PROMPT :: "u8 list" where
  "CONFIG_PROMPT = map of_char ''turnix # ''"

text \<open>
  \<open>loop\<close> on the characters typed, with the kernel state that a command finds when \<open>i\<close> characters are left as \<open>ks i\<close>; it ends when a command has set \<open>is_exit\<close> (with the
  characters left) or when it waits for more input (\<open>None\<close>).  \<open>b\<close> and \<open>d\<close> are the addresses of the line buffer and of the
  string of separators.
\<close>

lemma readline_consumes:
  assumes "readline b p inp m out = Ok (Some (m', rest, out'))"
  shows "length rest < length inp"
proof -
  have "case edit_line [] inp of None \<Rightarrow> False | Some (l, r) \<Rightarrow> r = rest"
    using readline_spec [where prompt = p and inp = inp and b = b and m = m and out = out] assms by (auto split: option.splits)
  then obtain l where "edit_line [] inp = Some (l, rest)"
    by (auto split: option.splits)
  from edit_line_consumes [OF this] show ?thesis
    by (simp add: LINE_MAX_def)
qed

function loop :: "shell_env \<Rightarrow> (nat \<Rightarrow> 'a tkernel_scheme) \<Rightarrow> nat \<Rightarrow> nat \<Rightarrow> u8 list \<Rightarrow> shell_state \<Rightarrow>
    (u8 list option \<times> shell_state) result" where
  "loop env ks b d inp st =
     (if is_exit st then Ok (Some inp, st)
      else
        rbind (readline b (Some CONFIG_PROMPT) inp (sh_mem st) (io_text (sh_io st))) (\<lambda>r.
          case r of
            None \<Rightarrow> Ok (None, st)
          | Some (m, rest, out) \<Rightarrow>
             rbind (cmd_parse d b m SHELL_ARGS_MAX_NUM out) (\<lambda>(m, argv, out).
               let st = st\<lparr>sh_mem := m, sh_io := (sh_io st)\<lparr>io_text := out\<rparr>\<rparr> in
               case argv of
                 None \<Rightarrow> loop env ks b d rest st
               | Some argv \<Rightarrow>
                  if argv = [] then loop env ks b d rest st
                  else rbind (cmd_exec env (ks (length rest)) argv st) (loop env ks b d rest))))"
  by pat_completeness auto
termination
  by (relation "measure (\<lambda>(env, ks, b, d, inp, st). length inp)") (auto dest: readline_consumes)

declare loop.simps [simp del]

lemma loop_next:
  assumes "loop env ks b d inp st = Ok (Some rest, st')" and "\<not> is_exit st"
  shows "\<exists>r st2. length r < length inp \<and> loop env ks b d r st2 = Ok (Some rest, st')"
proof -
  from assms obtain m r out where rl: "readline b (Some CONFIG_PROMPT) inp (sh_mem st) (io_text (sh_io st)) = Ok (Some (m, r, out))"
    by (subst (asm) loop.simps) (auto simp: result_simps split: option.splits)
  have "\<exists>st2. loop env ks b d r st2 = Ok (Some rest, st')"
    using assms rl by (subst (asm) loop.simps) (auto simp: result_simps Let_def split: option.splits if_splits)
  with readline_consumes [OF rl] show ?thesis
    by blast
qed

text \<open>A turn that ends the loop has consumed a line.\<close>

lemma loop_consumes:
  assumes "loop env ks b d inp st = Ok (Some rest, st')"
  shows "length rest \<le> length inp \<and> (\<not> is_exit st \<longrightarrow> length rest < length inp)"
  using assms
proof (induction "length inp" arbitrary: inp st rule: less_induct)
  case less
  show ?case
  proof (cases "is_exit st")
    case True
    with less.prems show ?thesis
      by (simp add: loop.simps [of env ks b d inp st])
  next
    case False
    from loop_next [OF less.prems False] less.hyps show ?thesis
      by fastforce
  qed
qed

definition CONFIG_MOTD :: "u8 list" where
  "CONFIG_MOTD = [0x0a] @ map of_char ''Turnix Copyright(C) 2015 Changli Gao <xiaosuo@gmail.com>'' @ [0x0a, 0x0a]"

text \<open>The shell thread: it greets, runs the loop, and starts again after \<open>exit\<close>; the result is its state when it waits for input.\<close>

function shell :: "shell_env \<Rightarrow> (nat \<Rightarrow> 'a tkernel_scheme) \<Rightarrow> nat \<Rightarrow> nat \<Rightarrow> u8 list \<Rightarrow> shell_state \<Rightarrow> shell_state result" where
  "shell env ks b d inp st =
     rbind (sh_print (map of_char ''%s'') [VStr CONFIG_MOTD] (st\<lparr>is_exit := False\<rparr>)) (\<lambda>st.
       rbind (loop env ks b d inp st) (\<lambda>(r, st).
         case r of None \<Rightarrow> Ok st | Some rest \<Rightarrow> shell env ks b d rest st))"
  by pat_completeness auto
termination
proof (relation "measure (\<lambda>(env, ks, b, d, inp, st). length inp)", goal_cases)
  case (2 env ks b d inp st st1 p r st2 rest)
  then have "\<not> is_exit st1" "loop env ks b d inp st1 = Ok (Some rest, st2)"
    by (auto simp: sh_print_def result_simps)
  with loop_consumes show ?case
    by fastforce
qed simp

declare shell.simps [simp del]

section \<open>Start\<close>

text \<open>\<open>shell_init\<close> with the stack of 256 words at \<open>stack\<close>; the identity of a failed \<open>pthread_create\<close> is not set by the code.\<close>

definition shell_init :: "u32 \<Rightarrow> 'a kernel_scheme \<Rightarrow> 'a kernel_scheme result" where
  "shell_init stack s =
     (let attr = pthread_attr_setstack pthread_attr_init stack 1024;
          prio = fst (sched_get_priority_max SCHED_RR)
      in rbind (pthread_attr_setschedparam attr prio) (\<lambda>attr.
           rbind (pthread_create attr s) (\<lambda>(e, tid, s).
             case tid of
               None \<Rightarrow> Fault NullDeref
             | Some t \<Rightarrow>
                (let s = snd (pthread_setname_np t ''shell'' s) in
                 rbind (pthread_detach t s) (\<lambda>(e, s). Ok s)))))"

section \<open>Words of a line\<close>

text \<open>The separators are outside the line.\<close>

definition apart :: "nat \<Rightarrow> u8 list \<Rightarrow> nat \<Rightarrow> nat \<Rightarrow> bool" where
  "apart d ds p n \<longleftrightarrow> d + length ds < p \<or> p + n \<le> d"

lemma cstr_frame:
  assumes "cstr m q xs" and "\<And>c. c < p \<or> p + n \<le> c \<Longrightarrow> m' c = m c" and "q + length xs < p \<or> p + n \<le> q"
  shows "cstr m' q xs"
  using assms by (subst cstr_cong [of xs m']) auto

lemma cmd_parse_loop_spec:
  assumes "cstr m d ds" and "ds \<noteq> []" and "cstr m p xs" and "apart d ds p (length xs)"
    and "buf = Some p \<or> buf = None \<and> save = Some p"
  shows "\<exists>m' ps. cmd_parse_loop d k m buf save argv = Ok (m', argv @ ps, length (tokens ds xs) < k) \<and>
    list_all2 (cstr m') ps (take k (tokens ds xs)) \<and> (\<forall>c. c < p \<or> p + length xs \<le> c \<longrightarrow> m' c = m c)"
  using assms
proof (induction k arbitrary: m p xs buf save argv)
  case (Suc k)
  have d0: "m d \<noteq> 0"
    using Suc.prems(1,2) by (cases ds) auto
  have call: "strtok_r m buf (Some d) (Some save) = strtok_from m p d (Some save)"
    using d0 Suc.prems(5) by (auto simp: strtok_r_def)
  show ?case
  proof (cases "next_token ds xs")
    case None
    then have "tokens ds xs = []"
      by (simp add: tokens.simps [of ds xs])
    with strtok_from_none [OF Suc.prems(1,3) None, of save] show ?thesis
      by (simp add: call of_loop_def)
  next
    case (Some tr)
    then obtain t r where tr: "next_token ds xs = Some (t, r)"
      by (cases tr) auto
    then have tok: "tokens ds xs = t # tokens ds r"
      by (simp add: tokens.simps [of ds xs])
    from strtok_from_some [OF Suc.prems(1,3) tr, of save] obtain m1 a b where
      s: "strtok_from m p d (Some save) = Some (Ok (m1, Some a, Some (Some b)))" "cstr m1 a t" "cstr m1 b r" "p \<le> a"
        "a + length t \<le> b" "b + length r = p + length xs" "r \<noteq> [] \<Longrightarrow> a + length t < b"
        "\<forall>c. c < p \<or> p + length xs \<le> c \<longrightarrow> m1 c = m c"
      by metis
    have d1: "cstr m1 d ds"
      using cstr_frame [OF Suc.prems(1), of p "length xs" m1] s(8) Suc.prems(4) by (auto simp: apart_def)
    have ap: "apart d ds b (length r)"
      using Suc.prems(4) s(4-6) by (auto simp: apart_def)
    from Suc.IH [OF d1 Suc.prems(2) s(3) ap, of None "Some b" "argv @ [a]"] obtain m' ps where
      i: "cmd_parse_loop d k m1 None (Some b) (argv @ [a]) = Ok (m', argv @ a # ps, length (tokens ds r) < k)"
        "list_all2 (cstr m') ps (take k (tokens ds r))" "\<forall>c. c < b \<or> b + length r \<le> c \<longrightarrow> m' c = m1 c"
      by auto
    have "cstr m' a t"
    proof (cases "r = []")
      case True
      then have "m' = m1"
        using i(3) by (intro ext) (metis add.right_neutral linorder_not_le list.size(3))
      with s(2) show ?thesis
        by simp
    next
      case False
      then show ?thesis
        using cstr_frame [OF s(2), of b "length r" m'] i(3) s(7) by auto
    qed
    moreover have "m' c = m c" if "c < p \<or> p + length xs \<le> c" for c
      using that i(3) s(4-6,8) by (metis (no_types, lifting) add_leD1 le_trans not_le order.strict_trans2)
    ultimately show ?thesis
      using i(1,2) tok by (intro exI [of _ m'] exI [of _ "a # ps"]) (simp add: call of_loop_def s(1))
  qed
qed simp

lemma cmd_parse_spec:
  assumes "cstr m d ds" and "ds \<noteq> []" and "cstr m b line" and "apart d ds b (length line)"
  shows "\<exists>m' ps out'. cmd_parse d b m n out = Ok (m', ps, out') \<and>
    (\<forall>c. c < b \<or> b + length line \<le> c \<longrightarrow> m' c = m c) \<and>
    (if length (tokens ds line) < n then out' = out \<and> (\<exists>argv. ps = Some argv \<and> list_all2 (cstr m') argv (tokens ds line))
     else ps = None \<and> out' = out @ map uint (map of_char ''invalid command line'' @ [0x0a :: u8]))"
proof -
  from cmd_parse_loop_spec [OF assms, of "Some b" None n "[]"] obtain m' ps where
    l: "cmd_parse_loop d n m (Some b) None [] = Ok (m', ps, length (tokens ds line) < n)"
      "list_all2 (cstr m') ps (take n (tokens ds line))" "\<forall>c. c < b \<or> b + length line \<le> c \<longrightarrow> m' c = m c"
    by auto
  have k: "kprintf (map of_char ''invalid command line'' @ [0x0a]) [] out = Ok (out @ map uint (map of_char ''invalid command line'' @ [0x0a :: u8]))"
    by (rule kprintf_lit) simp
  show ?thesis
    unfolding cmd_parse_def l(1) rbind.simps prod.case k using l(2,3) by (cases "length (tokens ds line) < n") simp_all
qed

section \<open>One command\<close>

lemma string_at_cstr: "cstr m p xs \<Longrightarrow> string_at m p = Some xs"
  by (induction xs arbitrary: p) (auto simp: string_at.simps [of m])

text \<open>What a string function sees of a line: the part before the first zero byte.\<close>

abbreviation line_text :: "u8 list \<Rightarrow> u8 list" where
  "line_text l \<equiv> takeWhile (\<lambda>c. c \<noteq> 0) l"

lemma cstr_line: "bytes m b (length l) = l \<Longrightarrow> m (b + length l) = 0 \<Longrightarrow> cstr m b (line_text l)"
proof (induction l arbitrary: b)
  case (Cons x l)
  have "bytes m b (Suc (length l)) = m b # bytes m (Suc b) (length l)"
    by (simp add: bytes_def upt_conv_Cons map_Suc_upt [symmetric] del: upt_Suc)
  with Cons.IH [of "Suc b"] Cons.prems show ?case
    by auto
qed (simp add: bytes_def)

text \<open>
  One turn of the loop: the line that was edited is cut into words, and the first word selects the command, which is
  given the words as strings; an empty line and one of too many words run nothing.
\<close>

lemma shell_turn:
  fixes ks :: "nat \<Rightarrow> 'a tkernel_scheme"
  assumes "\<not> is_exit st" and "cstr (sh_mem st) d ds" and "ds \<noteq> []" and "d + length ds < b \<or> b + LINE_MAX \<le> d"
    and "edit_line [] inp = Some (line, rest)" and "ws = tokens ds (line_text line)"
  shows "\<exists>m out argv st'. st' = st\<lparr>sh_mem := m, sh_io := (sh_io st)\<lparr>io_text := out\<rparr>\<rparr> \<and> cstr m d ds \<and>
    (length ws < SHELL_ARGS_MAX_NUM \<longrightarrow> list_all2 (cstr m) argv ws) \<and>
    loop env ks b d inp st =
      (if ws = [] \<or> SHELL_ARGS_MAX_NUM \<le> length ws then loop env ks b d rest st'
       else rbind
         (case cmd_find (env_cmds env) (hd ws) of
            None \<Rightarrow> no_such_command (hd ws) st'
          | Some c \<Rightarrow> run_handler env (ks (length rest)) (cmd_handler c) argv st')
         (loop env ks b d rest))"
proof -
  from readline_spec [where b = b and prompt = "Some CONFIG_PROMPT" and inp = inp and m = "sh_mem st" and out = "io_text (sh_io st)"]
  obtain m1 o1 where r: "readline b (Some CONFIG_PROMPT) inp (sh_mem st) (io_text (sh_io st)) = Ok (Some (m1, rest, o1))"
      "bytes m1 b (length line) = line" "m1 (b + length line) = 0" "length line < LINE_MAX"
      "\<forall>a. a < b \<or> b + LINE_MAX \<le> a \<longrightarrow> m1 a = sh_mem st a"
    unfolding assms(5) by auto
  have l: "cstr m1 b (line_text line)" "length (line_text line) < LINE_MAX"
    using cstr_line [OF r(2,3)] r(4) le_less_trans [OF length_takeWhile_le] by blast+
  have d1: "cstr m1 d ds"
    using cstr_frame [OF assms(2), of b LINE_MAX m1] r(5) assms(4) by auto
  have ap: "apart d ds b (length (line_text line))"
    using assms(4) l(2) by (auto simp: apart_def)
  from cmd_parse_spec [OF d1 assms(3) l(1) ap, of SHELL_ARGS_MAX_NUM o1] obtain m2 ps o2 where
    p: "cmd_parse d b m1 SHELL_ARGS_MAX_NUM o1 = Ok (m2, ps, o2)"
      "\<forall>c. c < b \<or> b + length (line_text line) \<le> c \<longrightarrow> m2 c = m1 c"
      "if length ws < SHELL_ARGS_MAX_NUM then o2 = o1 \<and> (\<exists>argv. ps = Some argv \<and> list_all2 (cstr m2) argv ws) else ps = None"
    unfolding assms(6) by (auto split: if_splits)
  have d2: "cstr m2 d ds"
    using cstr_frame [OF d1, of b "length (line_text line)" m2] p(2) ap by (auto simp: apart_def)
  let ?st = "st\<lparr>sh_mem := m2, sh_io := (sh_io st)\<lparr>io_text := o2\<rparr>\<rparr>"
  show ?thesis
  proof (cases "length ws < SHELL_ARGS_MAX_NUM")
    case True
    with p(3) obtain argv where a: "ps = Some argv" "list_all2 (cstr m2) argv ws"
      by auto
    have e: "cmd_exec env (ks (length rest)) argv ?st =
        (case cmd_find (env_cmds env) (hd ws) of
           None \<Rightarrow> no_such_command (hd ws) ?st
         | Some c \<Rightarrow> run_handler env (ks (length rest)) (cmd_handler c) argv ?st)" if "ws \<noteq> []"
    proof -
      from that a(2) obtain q qs w vs where q: "argv = q # qs" "ws = w # vs" "cstr m2 q w"
        by (cases argv; cases ws) auto
      show ?thesis
        unfolding q(1,2) list.sel using q(3) by (simp add: cmd_exec_def arg_at_def string_at_cstr)
    qed
    have "argv = [] \<longleftrightarrow> ws = []"
      using list_all2_lengthD [OF a(2)] by auto
    with True a e d2 show ?thesis
      by (intro exI [of _ m2] exI [of _ o2] exI [of _ argv] exI [of _ ?st])
        (simp add: loop.simps [of env ks b d inp st] assms(1) r(1) p(1))
  next
    case False
    with p(3) d2 show ?thesis
      by (intro exI [of _ m2] exI [of _ o2] exI [of _ "[]"] exI [of _ ?st])
        (simp add: loop.simps [of env ks b d inp st] assms(1) r(1) p(1))
  qed
qed

section \<open>The calendar sheet\<close>

text \<open>The weekday of a date, Sunday being 0, by its time in seconds.\<close>

definition weekday :: "tm \<Rightarrow> int" where
  "weekday t = (case mktime t of Ok v \<Rightarrow> (v div 86400 + 4) mod 7 | Fault _ \<Rightarrow> 7)"

lemma weekday_shift:
  assumes "tm_ok t" and "mktime t = Ok n"
  shows "weekday (t\<lparr>tm_mday := d\<rparr>) = (n div 86400 + (d - tm_mday t) + 4) mod 7"
proof -
  have mon: "tm_mon t \<le> 11" "tm_mon (t\<lparr>tm_mday := d\<rparr>) \<le> 11"
    using assms(1) by (simp_all add: tm_ok_def)
  define k where "k = d - tm_mday t"
  have "mktime (t\<lparr>tm_mday := d\<rparr>) = Ok (n + k * 86400)"
    using mktime_eq [OF mon(1)] mktime_eq [OF mon(2)] assms(2) by (simp add: k_def algebra_simps)
  then show ?thesis
    by (simp add: weekday_def k_def [symmetric] add.commute)
qed

lemma days_of_mon_eq:
  assumes "0 \<le> mon" and "mon \<le> 11"
  shows "days_of_mon ! nat mon + of_bool (mon = 1 \<and> leap) = mon_days leap mon" "mon_days leap mon \<in> {28..31}"
proof -
  have "mon = 0 \<or> mon = 1 \<or> mon = 2 \<or> mon = 3 \<or> mon = 4 \<or> mon = 5 \<or> mon = 6 \<or> mon = 7 \<or> mon = 8 \<or> mon = 9 \<or> mon = 10 \<or> mon = 11"
    using assms by presburger
  then show "days_of_mon ! nat mon + of_bool (mon = 1 \<and> leap) = mon_days leap mon" "mon_days leap mon \<in> {28..31}"
    by (auto simp: days_of_mon_def mon_days_def mon_start_def days_to_mon_def)
qed

lemma sint_small: "0 \<le> i \<Longrightarrow> i < 2 ^ 31 \<Longrightarrow> sint (word_of_int i :: u32) = i"
  by (simp add: sint_uint uint_word_of_int_eq take_bit_int_eq_self signed_take_bit_int_eq_self)

definition day_text :: "int \<Rightarrow> int list" where
  "day_text d = padded False 2 (dec_chars d) @ [0x20]"

lemma print_day:
  assumes "0 \<le> d" and "d < 2 ^ 31"
  shows "kprintf (map of_char ''%2d '') [vint d] out = Ok (out @ day_text d)"
proof -
  have "base_digits 10 2 = [2]"
    by (simp add: base_digits.simps)
  then have f: "concat (map render [Conv Dec False 2 False, Lit 0x20]) = map of_char ''%2d ''"
    by (simp add: width_chars_def number_table_def)
  have t: "format_text [Conv Dec False 2 False, Lit 0x20] [vint d] = Some (day_text d)"
    using sint_small [OF assms] by (simp add: day_text_def)
  show ?thesis
    using kprintf_format [OF t, of out] unfolding f by simp
qed

text \<open>One cell: the day, and the end of the line after a Saturday.\<close>

definition cal_cell :: "(int \<Rightarrow> int) \<Rightarrow> int \<Rightarrow> int list" where
  "cal_cell wd d = day_text d @ (if wd d = 6 then [0x0a] else [])"

lemma cal_days_spec:
  assumes "0 \<le> day" and "day + int n \<le> 32" and "0 \<le> wday" and "wday < 7" and "wday = (c + day) mod 7"
  shows "cal_days n day wday out =
    Ok ((c + day + int n) mod 7, out @ concat (map (cal_cell (\<lambda>d. (c + d) mod 7)) [day..day + int n - 1]))"
  using assms
proof (induction n arbitrary: day wday out)
  case (Suc n)
  have p: "kprintf (map of_char ''%2d '') [vint day] out = Ok (out @ day_text day)"
    using Suc.prems by (intro print_day) auto
  have u: "[day..day + int (Suc n) - 1] = day # [day + 1..day + 1 + int n - 1]"
    by (subst upto_rec1) simp_all
  have "(c + (day + 1)) mod 7 = (wday + 1) mod 7"
    unfolding Suc.prems(5) by (simp add: mod_simps add.assoc)
  then have m: "(c + (day + 1)) mod 7 = (if wday = 6 then 0 else wday + 1)"
    using Suc.prems(3,4) by simp
  have e: "(c + (day + 1) + int n) mod 7 = (c + day + int (Suc n)) mod 7"
    by (simp add: algebra_simps)
  define o1 where "o1 = out @ cal_cell (\<lambda>d. (c + d) mod 7) day"
  have "cal_days (Suc n) day wday out = cal_days n (day + 1) (if wday = 6 then 0 else wday + 1) o1"
    using p Suc.prems(5) by (simp add: o1_def cal_cell_def)
  also have "\<dots> = Ok ((c + (day + 1) + int n) mod 7, o1 @ concat (map (cal_cell (\<lambda>d. (c + d) mod 7)) [day + 1..day + 1 + int n - 1]))"
    using Suc.prems m by (intro Suc.IH) auto
  finally show ?case
    unfolding e u by (simp add: o1_def)
qed simp

lemma cal_pad_spec: "cal_pad n out = Ok (out @ replicate (3 * n) 0x20)"
proof (induction n arbitrary: out)
  case (Suc n)
  have "kprintf (map of_char ''   '') [] out = Ok (out @ [0x20, 0x20, 0x20])"
    by (subst kprintf_lit) simp_all
  moreover have "replicate (3 * Suc n) 0x20 = [0x20, 0x20, 0x20] @ replicate (3 * n) (0x20 :: int)"
    by (simp add: numeral_3_eq_3)
  ultimately show ?case
    using Suc by simp
qed simp

text \<open>The two heading lines.\<close>

definition cal_head :: "tm \<Rightarrow> int list" where
  "cal_head t = [0x20, 0x20, 0x20] @ map uint (mon_str ! nat (tm_mon t)) @ [0x20] @ map uint (dec_chars (1900 + tm_year t)) @ [0x0a] @
     map uint (map of_char ''Su Mo Tu We Th Fr Sa'' @ [0x0a :: u8])"

lemma mktime_years_ge: "year \<le> cy \<Longrightarrow> d + (cy - year) \<le> mktime_years year cy d"
proof (induction year cy d rule: mktime_years.induct)
  case (1 year cy d)
  then show ?case
    by (cases "year < cy") (auto simp: mktime_years.simps [of year cy d])
qed

lemma year_bound:
  assumes "tm_ok t" and "mktime t = Ok n"
  shows "0 \<le> 1900 + tm_year t" and "(tm_year t - 70) * 86400 \<le> n"
proof -
  note o = assms(1) [unfolded tm_ok_def]
  define Y where "Y = mktime_years 1970 (1900 + tm_year t) 0"
  define M where "M = mon_start (is_leapyear (1900 + tm_year t)) (tm_mon t)"
  have n: "n = (Y + M + tm_mday t - 1) * 86400 + tm_hour t * 3600 + tm_min t * 60 + tm_sec t"
    using mktime_eq [of t] assms(2) o by (simp add: Y_def M_def)
  have "tm_year t - 70 \<le> Y"
    using mktime_years_ge [of 1970 "1900 + tm_year t" 0] o by (simp add: Y_def)
  moreover have "0 \<le> M"
    using mon_start_mono [of 0 "tm_mon t" "is_leapyear (1900 + tm_year t)"] o by (simp add: M_def mon_start_def)
  ultimately have "tm_year t - 70 \<le> Y + M + tm_mday t - 1"
    using o by simp
  then have "(tm_year t - 70) * 86400 \<le> (Y + M + tm_mday t - 1) * 86400"
    by (rule mult_right_mono) simp
  moreover have "0 \<le> tm_hour t * 3600" "0 \<le> tm_min t * 60" "0 \<le> tm_sec t"
    using o by simp_all
  ultimately show "(tm_year t - 70) * 86400 \<le> n"
    unfolding n by linarith
  show "0 \<le> 1900 + tm_year t"
    using o by simp
qed

lemma print_month:
  assumes "0 \<le> y" and "y < 2 ^ 31"
  shows "kprintf (map of_char ''   %s %d'' @ [0x0a]) [VStr mon, vint y] out =
    Ok (out @ [0x20, 0x20, 0x20] @ map uint mon @ [0x20] @ map uint (dec_chars y) @ [0x0a])"
proof -
  have t: "format_text [Lit 0x20, Lit 0x20, Lit 0x20, Conv Str False 0 False, Lit 0x20, Conv Dec False 0 False, Lit 0x0a] [VStr mon, vint y] =
      Some ([0x20, 0x20, 0x20] @ map uint mon @ [0x20] @ map uint (dec_chars y) @ [0x0a])"
    using sint_small [OF assms] by (simp add: padded_def)
  show ?thesis
    using kprintf_format [OF t, of out] by (simp add: width_chars_def)
qed

lemma do_cal_spec:
  assumes "0 \<le> now - minuteswest * 60" and "now - minuteswest * 60 < 2 ^ 31"
  defines "t \<equiv> localtime_r minuteswest now"
  defines "days \<equiv> mon_days (is_leapyear (1900 + tm_year t)) (tm_mon t)" and "wd \<equiv> \<lambda>d. weekday (t\<lparr>tm_mday := d\<rparr>)"
  shows "do_cal_text minuteswest now out =
    Ok (out @ cal_head t @ replicate (3 * nat (wd 1)) 0x20 @ concat (map (cal_cell wd) [1..days]) @
      (if wd days = 6 then [] else [0x0a]))"
proof -
  define n where "n = now - minuteswest * 60"
  have t: "t = gmtime_r n"
    by (simp add: t_def localtime_r_def n_def secs_defs)
  have g: "tm_ok t" "mktime t = Ok n" "tm_wday t = (n div 86400 + 4) mod 7"
    using gmtime_ok [of n] assms(1) by (simp_all add: t n_def)
  have mon: "0 \<le> tm_mon t" "tm_mon t \<le> 11" "1 \<le> tm_mday t" "tm_mday t \<le> days"
    using g(1) by (auto simp: tm_ok_def days_def)
  note dm = days_of_mon_eq [OF mon(1,2), of "is_leapyear (1900 + tm_year t)", folded days_def]
  define c where "c = n div 86400 - tm_mday t + 4"
  have wd: "wd d = (c + d) mod 7" for d
    using weekday_shift [OF g(1,2), of d] by (simp add: wd_def c_def algebra_simps)
  have w1: "cmod (tm_wday t + 35 - (tm_mday t - 1)) 7 = wd 1"
  proof -
    have "0 \<le> tm_wday t + 35 - (tm_mday t - 1)"
      using g(3) mon(4) dm(2) by auto
    then have "cmod (tm_wday t + 35 - (tm_mday t - 1)) 7 = (tm_wday t + 35 - (tm_mday t - 1)) mod 7"
      by (intro cmod_nonneg) simp_all
    moreover have "tm_wday t + 35 - (tm_mday t - 1) = (c + 1) + (5 - (n div 86400 + 4) div 7) * 7"
      unfolding g(3) c_def using minus_div_mult_eq_mod [of "n div 86400 + 4" 7] by (simp add: algebra_simps)
    ultimately show ?thesis
      by (simp only: wd mod_mult_self1)
  qed
  have w0: "0 \<le> wd 1" "wd 1 < 7"
    by (simp_all add: wd)
  have h: "kprintf (map of_char ''   %s %d'' @ [0x0a]) [VStr (mon_str ! nat (tm_mon t)), vint (1900 + tm_year t)] o' =
      Ok (o' @ [0x20, 0x20, 0x20] @ map uint (mon_str ! nat (tm_mon t)) @ [0x20] @ map uint (dec_chars (1900 + tm_year t)) @ [0x0a])" for o'
    using year_bound [OF g(1,2)] assms(2) by (intro print_month) (auto simp: n_def)
  have l: "kprintf (map of_char ''Su Mo Tu We Th Fr Sa'' @ [0x0a]) [] o' =
      Ok (o' @ map uint (map of_char ''Su Mo Tu We Th Fr Sa'' @ [0x0a :: u8]))" for o'
    by (rule kprintf_lit) simp
  have d: "cal_days (nat days) 1 (wd 1) o' = Ok ((c + 1 + days) mod 7, o' @ concat (map (cal_cell wd) [1..days]))" for o'
    using cal_days_spec [of 1 "nat days" "wd 1" c o'] dm(2) w0 unfolding wd by simp
  have fin: "(c + 1 + days) mod 7 = 0 \<longleftrightarrow> wd days = 6"
  proof -
    have "(c + 1 + days) mod 7 = (wd days + 1) mod 7"
      unfolding wd by (simp add: mod_simps ac_simps)
    moreover have "0 \<le> wd days" "wd days < 7"
      by (simp_all add: wd)
    ultimately show ?thesis
      by (cases "wd days = 6") auto
  qed
  have "do_cal_text minuteswest now out = rbind (cal_days (nat days) 1 (wd 1) (out @ cal_head t @ replicate (3 * nat (wd 1)) 0x20))
      (\<lambda>(wday, out). Ok (if wday \<noteq> 0 then out @ [0x0a] else out))"
    unfolding do_cal_text_def t_def [symmetric] Let_def h rbind.simps l w1 cal_pad_spec dm(1)
    using mon by (simp add: cal_head_def)
  then show ?thesis
    unfolding d by (simp add: fin)
qed

end
