(* ===== verification/Cmos.thy ===== *)
theory Cmos
  imports TimeLib Timer TextBuffer Stdio
begin

text \<open>
  The real-time clock \<open>src/arch/i386/drivers/cmos.c\<close>: reading the registers, waiting for a consistent reading, decoding it
  and setting the wall clock.  The device is the function \<open>rd\<close>: \<open>rd n r\<close> is what the \<open>n\<close>-th access reads when register
  \<open>r\<close> is selected.  The two loops of the driver end only if the device lets them, so they are partial functions.

  Shown: a reading of a clock in any of its four formats (binary or BCD, 12 or 24 hours) decodes to the time it encodes, and
  \<open>cmos_init\<close> on a device that shows such a time sets the wall clock to it.
\<close>

section \<open>Definitions\<close>

text \<open>The ports and registers; the data port is the one \<open>rd\<close> reads.\<close>

definition CMOS_PORT_REG :: u16 where [simp]: "CMOS_PORT_REG = 0x70"
definition CMOS_REG_SEC :: u8 where [simp]: "CMOS_REG_SEC = 0x00"
definition CMOS_REG_MIN :: u8 where [simp]: "CMOS_REG_MIN = 0x02"
definition CMOS_REG_HOUR :: u8 where [simp]: "CMOS_REG_HOUR = 0x04"
definition CMOS_REG_MDAY :: u8 where [simp]: "CMOS_REG_MDAY = 0x07"
definition CMOS_REG_MON :: u8 where [simp]: "CMOS_REG_MON = 0x08"
definition CMOS_REG_YEAR :: u8 where [simp]: "CMOS_REG_YEAR = 0x09"
definition CMOS_REG_A :: u8 where [simp]: "CMOS_REG_A = 0x0a"
definition CMOS_REG_B :: u8 where [simp]: "CMOS_REG_B = 0x0b"
definition CMOS_REG_A_UPDATE :: u8 where [simp]: "CMOS_REG_A_UPDATE = 0x80"
definition CMOS_REG_B_24H :: u8 where [simp]: "CMOS_REG_B_24H = 0x02"
definition CMOS_REG_B_BIN :: u8 where [simp]: "CMOS_REG_B_BIN = 0x04"
definition CMOS_REG_HOUR_PM :: u8 where [simp]: "CMOS_REG_HOUR_PM = 0x80"

text \<open>Number of accesses so far and ports written.\<close>

type_synonym cmos_state = "nat \<times> port_trace"

definition io_delay :: "port_trace \<Rightarrow> port_trace" where
  "io_delay tr = outb 0 0x80 tr"

definition cmos_read_reg :: "(nat \<Rightarrow> u8 \<Rightarrow> u8) \<Rightarrow> u8 \<Rightarrow> cmos_state \<Rightarrow> u8 \<times> cmos_state" where
  "cmos_read_reg rd reg s = (case s of (n, tr) \<Rightarrow> (rd n reg, (n + 1, io_delay (outb reg CMOS_PORT_REG tr))))"

text \<open>The six registers as read.\<close>

record raw_tm =
  raw_sec :: u8
  raw_min :: u8
  raw_hour :: u8
  raw_mday :: u8
  raw_mon :: u8
  raw_year :: u8

partial_function (option) cmos_wait :: "(nat \<Rightarrow> u8 \<Rightarrow> u8) \<Rightarrow> cmos_state \<Rightarrow> cmos_state option" where
  "cmos_wait rd s = (let (a, s) = cmos_read_reg rd CMOS_REG_A s in if a AND CMOS_REG_A_UPDATE \<noteq> 0 then cmos_wait rd s else Some s)"

definition cmos_read_raw :: "(nat \<Rightarrow> u8 \<Rightarrow> u8) \<Rightarrow> cmos_state \<Rightarrow> (raw_tm \<times> cmos_state) option" where
  "cmos_read_raw rd s =
     Option.bind (cmos_wait rd s) (\<lambda>s.
       let (sec, s) = cmos_read_reg rd CMOS_REG_SEC s;
           (min, s) = cmos_read_reg rd CMOS_REG_MIN s;
           (hour, s) = cmos_read_reg rd CMOS_REG_HOUR s;
           (mday, s) = cmos_read_reg rd CMOS_REG_MDAY s;
           (mon, s) = cmos_read_reg rd CMOS_REG_MON s;
           (year, s) = cmos_read_reg rd CMOS_REG_YEAR s
       in Some (\<lparr>raw_sec = sec, raw_min = min, raw_hour = hour, raw_mday = mday, raw_mon = mon, raw_year = year\<rparr>, s))"

partial_function (option) cmos_read_stable :: "(nat \<Rightarrow> u8 \<Rightarrow> u8) \<Rightarrow> cmos_state \<Rightarrow> (raw_tm \<times> cmos_state) option" where
  "cmos_read_stable rd s =
     Option.bind (cmos_read_raw rd s) (\<lambda>(tmp, s).
       Option.bind (cmos_read_raw rd s) (\<lambda>(tm, s).
         if tmp \<noteq> tm then cmos_read_stable rd s else Some (tm, s)))"

definition bcd2bin :: "u8 \<Rightarrow> u8" where
  "bcd2bin bcd = drop_bit 4 bcd * 10 + (bcd AND 0x0f)"

text \<open>The rest of \<open>cmos_read_tm\<close>; the weekday is not set there.\<close>

definition cmos_decode :: "u8 \<Rightarrow> raw_tm \<Rightarrow> tm \<Rightarrow> tm" where
  "cmos_decode b r t =
     (let pm = (raw_hour r AND CMOS_REG_HOUR_PM \<noteq> 0);
          r = r\<lparr>raw_hour := raw_hour r AND NOT CMOS_REG_HOUR_PM\<rparr>;
          r = (if b AND CMOS_REG_B_BIN = 0 then
                 \<lparr>raw_sec = bcd2bin (raw_sec r), raw_min = bcd2bin (raw_min r), raw_hour = bcd2bin (raw_hour r),
                  raw_mday = bcd2bin (raw_mday r), raw_mon = bcd2bin (raw_mon r), raw_year = bcd2bin (raw_year r)\<rparr>
               else r);
          hour = uint (raw_hour r);
          hour = (if b AND CMOS_REG_B_24H = 0 then
                    (if pm then (if hour \<noteq> 12 then hour + 12 else hour) else if hour = 12 then 0 else hour)
                  else hour)
      in t\<lparr>tm_sec := uint (raw_sec r), tm_min := uint (raw_min r), tm_hour := hour, tm_mday := uint (raw_mday r),
           tm_mon := uint (raw_mon r) - 1, tm_year := uint (raw_year r) + 100\<rparr>)"

definition cmos_read_tm :: "(nat \<Rightarrow> u8 \<Rightarrow> u8) \<Rightarrow> tm \<Rightarrow> cmos_state \<Rightarrow> (tm \<times> cmos_state) option" where
  "cmos_read_tm rd t s =
     Option.bind (cmos_read_stable rd s) (\<lambda>(r, s).
       let (b, s) = cmos_read_reg rd CMOS_REG_B s in Some (cmos_decode b r t, s))"

text \<open>\<open>t0\<close> is the uninitialised local variable.\<close>

definition cmos_init :: "(nat \<Rightarrow> u8 \<Rightarrow> u8) \<Rightarrow> tm \<Rightarrow> cmos_state \<Rightarrow> outp \<Rightarrow> 'a tkernel_scheme \<Rightarrow>
    (cmos_state \<times> outp \<times> 'a tkernel_scheme) result" where
  "cmos_init rd t0 s out k =
     (case cmos_read_tm rd t0 s of
        None \<Rightarrow> Fault Diverge
      | Some (t, s) \<Rightarrow>
         rbind (kprintf (map of_char ''Date: %04d-%02d-%02dT%02d:%02d:%02dZ'' @ [0x0a])
             [VInt (word_of_int (tm_year t + 1900)), VInt (word_of_int (tm_mon t + 1)), VInt (word_of_int (tm_mday t)),
              VInt (word_of_int (tm_hour t)), VInt (word_of_int (tm_min t)), VInt (word_of_int (tm_sec t))] out) (\<lambda>out.
           rbind (mktime t) (\<lambda>sec. Ok (s, out, settimeofday (Some \<lparr>tv_sec = sec, tv_usec = 0\<rparr>) None k))))"

section \<open>Formats of the clock\<close>

text \<open>How a clock shows a number and an hour: \<open>bin\<close> and \<open>h24\<close> are the bits of register B.\<close>

definition show_num :: "bool \<Rightarrow> nat \<Rightarrow> u8" where
  "show_num bin v = (if bin then of_nat v else of_nat (v div 10 * 16 + v mod 10))"

definition show_hour :: "bool \<Rightarrow> bool \<Rightarrow> nat \<Rightarrow> u8" where
  "show_hour bin h24 h =
     (if h24 then show_num bin h
      else (if h \<ge> 12 then 0x80 else 0) OR show_num bin (if h mod 12 = 0 then 12 else h mod 12))"

definition show_tm :: "bool \<Rightarrow> bool \<Rightarrow> tm \<Rightarrow> raw_tm" where
  "show_tm bin h24 t =
     \<lparr>raw_sec = show_num bin (nat (tm_sec t)), raw_min = show_num bin (nat (tm_min t)), raw_hour = show_hour bin h24 (nat (tm_hour t)),
      raw_mday = show_num bin (nat (tm_mday t)), raw_mon = show_num bin (nat (tm_mon t + 1)), raw_year = show_num bin (nat (tm_year t - 100))\<rparr>"

definition read_num :: "bool \<Rightarrow> u8 \<Rightarrow> u8" where
  "read_num bin x = (if bin then x else bcd2bin x)"

lemma unat_bcd2bin: "unat (bcd2bin x) = (unat x div 16 * 10 + unat x mod 16) mod 256"
proof -
  have m: "(0x0f :: u8) = mask 4"
    by (simp add: mask_eq_exp_minus_1)
  have "unat (x AND 0x0f) = unat x mod 16"
    unfolding m by (simp add: take_bit_eq_mask [symmetric] unsigned_take_bit_eq take_bit_eq_mod unat_mod)
  moreover have "unat (drop_bit 4 x) = unat x div 16"
    by (simp add: unsigned_drop_bit_eq drop_bit_eq_div unat_div)
  ultimately show ?thesis
    by (simp add: bcd2bin_def unat_word_ariths mod_simps)
qed

lemma show_num_less: "v < 100 \<Longrightarrow> unat (show_num bin v) = (if bin then v else v div 10 * 16 + v mod 10)"
proof -
  assume v: "v < 100"
  then have "v div 10 * 16 + v mod 10 < 256"
    by (simp add: less_mult_imp_div_less)
  moreover have "unat (of_nat w :: u8) = w" if "w < 256" for w
    using that by (simp add: unat_of_nat take_bit_nat_eq_self)
  ultimately show ?thesis
    using v by (simp add: show_num_def del: of_nat_add of_nat_mult)
qed

lemma read_show: "v < 100 \<Longrightarrow> unat (read_num bin (show_num bin v)) = v"
proof -
  assume v: "v < 100"
  have d: "(v div 10 * 16 + v mod 10) div 16 = v div 10" "(v div 10 * 16 + v mod 10) mod 16 = v mod 10"
    by simp_all
  show ?thesis
    using v by (simp add: read_num_def unat_bcd2bin show_num_less d)
qed

lemma top_bit:
  fixes x :: u8
  assumes "unat x < 128"
  shows "x AND 0x80 = 0" "x AND NOT 0x80 = x" "(0x80 OR x) AND NOT 0x80 = x" "(0x80 OR x) AND 0x80 \<noteq> 0"
proof -
  have m: "(0x80 :: u8) = push_bit 7 1"
    by (simp add: push_bit_eq_mult)
  have m: "bit (0x80 :: u8) n \<longleftrightarrow> n = 7" for n
    unfolding m bit_push_bit_iff bit_1_iff by auto
  have "\<not> bit (unat x) 7"
    using assms by (simp add: bit_iff_odd)
  then have b: "\<not> bit x 7"
    by (simp add: bit_unsigned_iff)
  show "x AND 0x80 = 0"
    by (rule bit_word_eqI) (use b in \<open>unfold bit_and_iff bit_0_eq m, auto\<close>)
  show "x AND NOT 0x80 = x"
    by (rule bit_word_eqI) (use b in \<open>unfold bit_and_iff bit_not_iff m, auto\<close>)
  show "(0x80 OR x) AND NOT 0x80 = x"
    by (rule bit_word_eqI) (use b in \<open>unfold bit_and_iff bit_or_iff bit_not_iff m, auto\<close>)
  have "bit ((0x80 OR x) AND 0x80) 7"
    unfolding bit_and_iff bit_or_iff m by simp
  then show "(0x80 OR x) AND 0x80 \<noteq> 0"
    by auto
qed

lemma read_hour:
  assumes "h < 24"
  defines "h12 \<equiv> if h mod 12 = 0 then 12 else h mod 12"
  shows "unat (read_num bin (show_hour bin h24 h AND NOT 0x80)) = (if h24 then h else h12)"
    and "\<not> h24 \<Longrightarrow> show_hour bin h24 h AND 0x80 \<noteq> 0 \<longleftrightarrow> h \<ge> 12"
proof -
  have h: "h12 < 13" "h12 < 100" "h < 100"
    using assms(1) unfolding h12_def by (auto simp: less_Suc_eq_le)
  have "v div 10 * 16 + v mod 10 < 128" if "v < 24" for v :: nat
    using that by (simp add: less_mult_imp_div_less)
  then have "unat (show_num bin v) < 128" if "v < 24" for v
    using show_num_less [of v bin] that by simp
  then have t: "unat (show_num bin h) < 128" "unat (show_num bin h12) < 128"
    using assms(1) h(1) by auto
  show "unat (read_num bin (show_hour bin h24 h AND NOT 0x80)) = (if h24 then h else h12)"
    unfolding show_hour_def h12_def [symmetric] using t h read_show
    by (cases h24; cases "12 \<le> h") (simp_all add: top_bit [simplified])
  show "show_hour bin h24 h AND 0x80 \<noteq> 0 \<longleftrightarrow> h \<ge> 12" if "\<not> h24"
    unfolding show_hour_def h12_def [symmetric] using t that by (simp add: top_bit [simplified])
qed

lemma mon_days_bound:
  assumes "0 \<le> mon" and "mon \<le> 11"
  shows "mon_days leap mon \<le> 31"
proof -
  have "mon = 0 \<or> mon = 1 \<or> mon = 2 \<or> mon = 3 \<or> mon = 4 \<or> mon = 5 \<or> mon = 6 \<or> mon = 7 \<or> mon = 8 \<or> mon = 9 \<or> mon = 10 \<or> mon = 11"
    using assms by presburger
  then show ?thesis
    by (auto simp: mon_days_def mon_start_def days_to_mon_def)
qed

definition reg_b :: "bool \<Rightarrow> bool \<Rightarrow> u8 \<Rightarrow> bool" where
  "reg_b bin h24 b \<longleftrightarrow> (b AND 0x04 \<noteq> 0) = bin \<and> (b AND 0x02 \<noteq> 0) = h24"

lemma hour_12:
  fixes h :: nat
  assumes "h < 24" and "h12 = (if h mod 12 = 0 then 12 else h mod 12)"
  shows "(if h \<ge> 12 then (if h12 \<noteq> 12 then h12 + 12 else h12) else if h12 = 12 then 0 else h12) = h"
proof (cases "h < 12")
  case False
  then obtain k where "h = k + 12" "k < 12"
    using assms(1) by (intro that [of "h - 12"]) auto
  then show ?thesis
    using assms(2) by auto
qed (use assms(2) in auto)

lemma cmos_decode_eq:
  assumes "reg_b bin h24 b"
  defines "hr \<equiv> \<lambda>r. uint (read_num bin (raw_hour r AND NOT 0x80))"
  shows "cmos_decode b r t =
    t\<lparr>tm_sec := uint (read_num bin (raw_sec r)), tm_min := uint (read_num bin (raw_min r)),
      tm_hour := (if h24 then hr r
        else if raw_hour r AND 0x80 \<noteq> 0 then (if hr r \<noteq> 12 then hr r + 12 else hr r) else if hr r = 12 then 0 else hr r),
      tm_mday := uint (read_num bin (raw_mday r)), tm_mon := uint (read_num bin (raw_mon r)) - 1,
      tm_year := uint (read_num bin (raw_year r)) + 100\<rparr>"
  using assms(1) unfolding hr_def reg_b_def by (auto simp: cmos_decode_def Let_def read_num_def)

lemma cmos_decode_show:
  assumes "tm_ok t" and "100 \<le> tm_year t" and "tm_year t < 200" and "reg_b bin h24 b"
  shows "cmos_decode b (show_tm bin h24 t) t0 = t\<lparr>tm_wday := tm_wday t0\<rparr>"
proof -
  note o = assms(1) [unfolded tm_ok_def]
  define h where "h = nat (tm_hour t)"
  define h12 where "h12 = (if h mod 12 = 0 then 12 else h mod 12)"
  have h: "h < 24" "int h = tm_hour t"
    using o by (auto simp: h_def)
  have num: "uint (read_num bin (show_num bin (nat v))) = v" if "0 \<le> v" "v < 100" for v
    using read_show [of "nat v" bin] that by (simp add: uint_nat)
  have "mon_days (is_leapyear (1900 + tm_year t)) (tm_mon t) \<le> 31"
    using o by (intro mon_days_bound) simp_all
  then have "tm_mday t < 100"
    using o by simp
  then have n: "uint (read_num bin (show_num bin (nat (tm_sec t)))) = tm_sec t" "uint (read_num bin (show_num bin (nat (tm_min t)))) = tm_min t"
    "uint (read_num bin (show_num bin (nat (tm_mday t)))) = tm_mday t"
    "uint (read_num bin (show_num bin (nat (tm_mon t + 1)))) = tm_mon t + 1"
    "uint (read_num bin (show_num bin (nat (tm_year t - 100)))) = tm_year t - 100"
    using o assms(2,3) by (simp_all add: num)
  have hr: "uint (read_num bin (show_hour bin h24 h AND NOT 0x80)) = (if h24 then int h else int h12)"
    using read_hour(1) [OF h(1), of bin h24] by (simp add: h12_def uint_nat)
  have pm: "\<not> h24 \<Longrightarrow> show_hour bin h24 h AND 0x80 \<noteq> 0 \<longleftrightarrow> h \<ge> 12"
    using read_hour(2) [OF h(1), of h24 bin] by simp
  have hour: "(if h24 then (if h24 then int h else int h12)
        else if show_hour bin h24 h AND 0x80 \<noteq> 0 then (if (if h24 then int h else int h12) \<noteq> 12 then (if h24 then int h else int h12) + 12 else (if h24 then int h else int h12))
        else if (if h24 then int h else int h12) = 12 then 0 else (if h24 then int h else int h12)) = tm_hour t"
  proof (cases h24)
    case False
    have "(if h \<ge> 12 then (if int h12 \<noteq> 12 then int h12 + 12 else int h12) else if int h12 = 12 then 0 else int h12) = tm_hour t"
      using arg_cong [OF hour_12 [OF h(1) h12_def], of int] h(2) by (simp split: if_splits)
    with False pm show ?thesis
      by auto
  qed (use h in simp)
  have sel: "raw_sec (show_tm bin h24 t) = show_num bin (nat (tm_sec t))" "raw_min (show_tm bin h24 t) = show_num bin (nat (tm_min t))"
    "raw_hour (show_tm bin h24 t) = show_hour bin h24 h" "raw_mday (show_tm bin h24 t) = show_num bin (nat (tm_mday t))"
    "raw_mon (show_tm bin h24 t) = show_num bin (nat (tm_mon t + 1))" "raw_year (show_tm bin h24 t) = show_num bin (nat (tm_year t - 100))"
    by (simp_all add: show_tm_def h_def)
  show ?thesis
    unfolding cmos_decode_eq [OF assms(4)] sel n hr hour by (rule tm.equality) simp_all
qed

section \<open>Setting the clock\<close>

text \<open>A clock that shows \<open>t\<close> and does not change while it is read.\<close>

definition shows_tm :: "(nat \<Rightarrow> u8 \<Rightarrow> u8) \<Rightarrow> bool \<Rightarrow> bool \<Rightarrow> tm \<Rightarrow> bool" where
  "shows_tm rd bin h24 t \<longleftrightarrow>
     (\<forall>n. rd n 0x0a AND 0x80 = 0 \<and> reg_b bin h24 (rd n 0x0b) \<and>
        \<lparr>raw_sec = rd n 0x00, raw_min = rd n 0x02, raw_hour = rd n 0x04, raw_mday = rd n 0x07, raw_mon = rd n 0x08,
         raw_year = rd n 0x09\<rparr> = show_tm bin h24 t)"

lemma shown_raw:
  assumes "shows_tm rd bin h24 t"
  shows "\<exists>s'. cmos_read_raw rd s = Some (show_tm bin h24 t, s')"
proof -
  obtain n tr where s: "s = (n, tr)"
    by fastforce
  have u: "rd n 0x0a AND 0x80 = 0" for n
    using assms by (simp add: shows_tm_def)
  have f: "\<lparr>raw_sec = rd a 0x00, raw_min = rd b 0x02, raw_hour = rd c 0x04, raw_mday = rd d 0x07, raw_mon = rd e 0x08,
         raw_year = rd f 0x09\<rparr> = show_tm bin h24 t" for a b c d e f
    using assms by (simp add: shows_tm_def show_tm_def)
  have "cmos_wait rd s = Some (n + 1, io_delay (outb 0x0a 0x70 tr))"
    by (simp add: s cmos_wait.simps [of rd] cmos_read_reg_def u)
  then show ?thesis
    by (simp add: cmos_read_raw_def cmos_read_reg_def f)
qed

lemma cmos_read_tm_shown:
  assumes "shows_tm rd bin h24 t" and "tm_ok t" and "100 \<le> tm_year t" and "tm_year t < 200"
  shows "\<exists>s'. cmos_read_tm rd t0 s = Some (t\<lparr>tm_wday := tm_wday t0\<rparr>, s')"
proof -
  obtain s1 where s1: "cmos_read_raw rd s = Some (show_tm bin h24 t, s1)"
    using shown_raw [OF assms(1)] by blast
  obtain s2 where s2: "cmos_read_raw rd s1 = Some (show_tm bin h24 t, s2)"
    using shown_raw [OF assms(1)] by blast
  have "cmos_read_stable rd s = Some (show_tm bin h24 t, s2)"
    by (simp add: cmos_read_stable.simps [of rd s] s1 s2)
  moreover obtain n tr where "s2 = (n, tr)"
    by fastforce
  moreover have "reg_b bin h24 (rd n 0x0b)"
    using assms(1) by (simp add: shows_tm_def)
  ultimately show ?thesis
    using cmos_decode_show [OF assms(2-4)] by (simp add: cmos_read_tm_def cmos_read_reg_def)
qed

lemma date_text:
  "\<exists>tx. kprintf (map of_char ''Date: %04d-%02d-%02dT%02d:%02d:%02dZ'' @ [0x0a]) [VInt a, VInt b, VInt c, VInt d, VInt e, VInt f] out =
    Ok (out @ tx)"
proof -
  have w: "base_digits 10 4 = [4]" "base_digits 10 2 = [2]"
    by (simp_all add: base_digits.simps)
  let ?n = "\<lambda>k. Conv Dec True k False"
  let ?ds = "map Lit (map of_char ''Date: '') @ [?n 4, Lit 0x2d, ?n 2, Lit 0x2d, ?n 2, Lit 0x54, ?n 2, Lit 0x3a, ?n 2, Lit 0x3a, ?n 2, Lit 0x5a, Lit 0x0a]"
  have f: "concat (map render ?ds) = map of_char ''Date: %04d-%02d-%02dT%02d:%02d:%02dZ'' @ [0x0a]"
    by (simp add: width_chars_def w number_table_def)
  obtain tx where t: "format_text ?ds [VInt a, VInt b, VInt c, VInt d, VInt e, VInt f] = Some tx"
    by simp
  have "\<forall>x \<in> set ?ds. directive_ok x"
    by simp
  from kprintf_format [OF t this, of out] show ?thesis
    unfolding f by blast
qed

lemma cmos_init_shown:
  assumes "shows_tm rd bin h24 t" and "tm_ok t" and "100 \<le> tm_year t" and "tm_year t < 200" and "mktime t = Ok sec"
  shows "\<exists>s' tx. cmos_init rd t0 s out k = Ok (s', out @ tx, k\<lparr>wall_tv := \<lparr>tv_sec = sec, tv_usec = 0\<rparr>\<rparr>)"
proof -
  obtain s' where r: "cmos_read_tm rd t0 s = Some (t\<lparr>tm_wday := tm_wday t0\<rparr>, s')"
    using cmos_read_tm_shown [OF assms(1-4)] by blast
  have m: "mktime (t\<lparr>tm_wday := w\<rparr>) = Ok sec" for w
    using mktime_eq [of t] mktime_eq [of "t\<lparr>tm_wday := w\<rparr>"] assms(2,5) by (simp add: tm_ok_def)
  obtain tx where "kprintf (map of_char ''Date: %04d-%02d-%02dT%02d:%02d:%02dZ'' @ [0x0a])
       [VInt (word_of_int (tm_year t + 1900)), VInt (word_of_int (tm_mon t + 1)), VInt (word_of_int (tm_mday t)),
        VInt (word_of_int (tm_hour t)), VInt (word_of_int (tm_min t)), VInt (word_of_int (tm_sec t))] out = Ok (out @ tx)"
    using date_text by blast
  then show ?thesis
    unfolding cmos_init_def r by (simp add: m settimeofday_def)
qed

end
