(* ===== verification/Startup.thy ===== *)
theory Startup
  imports System Shell Cmos
begin

text \<open>
  Start-up: \<open>arch_init\<close> of \<open>src/arch/i386/kernel/arch.c\<close> and \<open>main\<close> of \<open>src/kernel/main.c\<close>, which print the memory, initialise the
  machine, make the calling code the idle thread, start the linked applications with scheduling put off (\<open>in_irq\<close> set),
  and yield.  The initialisers of the applications are a list, since the linker collects them in the section
  \<open>.application.init\<close>; they act on the kernel.

  Shown: applications that create threads keep the invariant of the start-up phase, and the first \<open>pthread_yield\<close> turns it into
  the invariant of the running system.
\<close>

section \<open>Definitions\<close>

text \<open>
  What the machine and the linker provide: the entry points of the interrupts, what the mask register shows to each of the two
  calls of \<open>pic_enable\<close>, the real-time clock and the uninitialised variable it is read into, the memory of the keyboard ring,
  the stack of the idle thread and the end of the kernel image.
\<close>

record start_env =
  se_isr :: "u32 option list"
  se_inb_pit :: "u16 \<Rightarrow> u8"
  se_inb_kbd :: "u16 \<Rightarrow> u8"
  se_rtc :: "nat \<Rightarrow> u8 \<Rightarrow> u8"
  se_tm :: tm
  se_buffer :: "nat \<Rightarrow> u8"
  se_idle_stack :: u32
  se_kernel_end :: u32

record multiboot_info =
  mb_flags :: u32
  mem_lower :: u32
  mem_upper :: u32

definition CONFIG_IDLE_STACK_SIZE :: u32 where "CONFIG_IDLE_STACK_SIZE = 1024"

definition arch_early_init :: "board \<Rightarrow> board" where
  "arch_early_init b = b\<lparr>b_screen := text_buffer_clear (b_screen b)\<rparr>"

definition arch_init :: "start_env \<Rightarrow> board \<Rightarrow> board result" where
  "arch_init env b =
     (let b = b\<lparr>b_gdt := gdt_init (b_gdt b)\<rparr> in
      rbind (interrupt_init (se_isr env) (b_handlers b) (io_ports (b_io b))) (\<lambda>(idt, tbl, tr).
        let (tbl, tr) = pit_init CONFIG_HZ (se_inb_pit env) tbl tr in
        rbind (cmos_init (se_rtc env) (se_tm env) (0, tr) (io_text (b_io b)) (b_kernel b)) (\<lambda>((n, tr), out, k).
          let ((kb, io), tbl) =
                keyboard_init (se_inb_kbd env) (se_buffer env) (b_kbd b, (b_io b)\<lparr>io_ports := tr, io_text := out\<rparr>) tbl
          in Ok (b\<lparr>b_idt := idt, b_handlers := tbl, b_kernel := k, b_kbd := kb, b_io := io\<rparr>))))"

fun run_init :: "('s \<Rightarrow> 's result) list \<Rightarrow> 's \<Rightarrow> 's result" where
  "run_init [] s = Ok s"
| "run_init (f # fs) s = rbind (f s) (run_init fs)"

text \<open>From \<open>pthread_init\<close> on.\<close>

definition start_threads :: "u32 \<Rightarrow> (ksys \<Rightarrow> ksys result) list \<Rightarrow> ksys \<Rightarrow> ksys result" where
  "start_threads stack apps s =
     rbind (pthread_init stack CONFIG_IDLE_STACK_SIZE s) (\<lambda>s.
       rbind (run_init apps (s\<lparr>in_irq := True\<rparr>)) (\<lambda>s.
         pthread_yield (s\<lparr>in_irq := False\<rparr>)))"

definition show_memory :: "u32 \<Rightarrow> multiboot_info \<Rightarrow> outp \<Rightarrow> outp result" where
  "show_memory kernel_end info out =
     rbind (kprintf (map of_char ''RAM:'' @ [0x0a]) [] out) (\<lambda>out.
       let info = info\<lparr>mem_lower := mem_lower info * 1024, mem_upper := mem_upper info * 1024\<rparr>;
           info = info\<lparr>mem_upper := mem_upper info + 1024 * 1024\<rparr>
       in rbind (kprintf (map of_char ''  lower: %08x - %08x'' @ [0x0a]) [VInt 0, VInt (mem_lower info)] out) (\<lambda>out.
         rbind (kprintf (map of_char ''  upper: %08x - %08x'' @ [0x0a]) [VInt (1024 * 1024), VInt (mem_upper info)] out) (\<lambda>out.
           kprintf (map of_char ''  heap:  %08x - %08x'' @ [0x0a]) [VInt kernel_end, VInt (mem_upper info)] out)))"

text \<open>Without the memory information the code calls \<open>abort\<close>, which does not return.\<close>

definition main :: "start_env \<Rightarrow> multiboot_info \<Rightarrow> (ksys \<Rightarrow> ksys result) list \<Rightarrow> board \<Rightarrow> board result" where
  "main env info apps b =
     (let b = arch_early_init b in
      if mb_flags info AND 1 = 0 then
        rbind (kprintf (map of_char ''no memory info'' @ [0x0a]) [] (io_text (b_io b))) (\<lambda>_. Fault Diverge)
      else
        rbind (show_memory (se_kernel_end env) info (io_text (b_io b))) (\<lambda>out.
          rbind (arch_init env (b\<lparr>b_io := (b_io b)\<lparr>io_text := out\<rparr>\<rparr>)) (\<lambda>b.
            rbind (start_threads (se_idle_stack env) apps (b_kernel b)) (\<lambda>s. Ok (b\<lparr>b_kernel := s\<rparr>)))))"

text \<open>How every application starts a thread: it creates, names and detaches it.\<close>

definition launch :: "pthread_attr \<Rightarrow> string \<Rightarrow> 'a kernel_scheme \<Rightarrow> 'a kernel_scheme result" where
  "launch attr name s =
     rbind (pthread_create attr s) (\<lambda>(e, tid, s).
       case tid of
         None \<Rightarrow> Fault NullDeref
       | Some t \<Rightarrow> rbind (pthread_detach t (snd (pthread_setname_np t name s))) (\<lambda>(e, s). Ok s))"

section \<open>The start-up phase\<close>

definition start_ok :: "ksys \<Rightarrow> bool" where
  "start_ok s \<longleftrightarrow> irq_inv s \<and> fr_ok s \<and> Kernel.tm_ok s \<and> join_inv s"

lemma irq_inv_upd:
  assumes "\<And>th. th_state (u th) = th_state th" "\<And>th. effective_priority (u th) = effective_priority th"
    "\<And>th. priority (u th) = priority th" "\<And>th. th_link (u th) = th_link th" "\<And>th. sleep_on (u th) = sleep_on th"
    "\<And>th. mutex_queue (u th) = mutex_queue th"
  shows "irq_inv (upd_th t u s) = irq_inv s"
proof -
  have "sched_pre (upd_th t u s) = sched_pre s"
    by (rule sched_cong) (simp_all add: assms)
  moreover have e: "thstate (upd_th t u s) x = thstate s x" "sleep_on (threads (upd_th t u s) x) = sleep_on (threads s x)"
    "mutex_queue (threads (upd_th t u s) x) = mutex_queue (threads s x)" for x
    by (simp_all add: assms)
  then have "mx_inv (upd_th t u s) = mx_inv s"
    unfolding mx_inv_def mx_owned_def mx_waits_def wake_ok_def e by simp
  moreover have "prios_ok (upd_th t u s) = prios_ok s"
    by (auto simp: prios_ok_def assms)
  ultimately show ?thesis
    by (simp add: irq_inv_def assms)
qed

lemma start_create:
  assumes "start_ok s" and "free_slot s = Some t" and "unat (attr_priority attr) \<le> 31"
  shows "\<exists>s'. pthread_create attr s = Ok (E_OK, Some t, s') \<and> start_ok s' \<and> pthread_next s' = None \<and>
    pthread_current s' = pthread_current s \<and> sched_frame (set_state t PTHREAD_STATE_RUNNING (upd_th t (create_init attr) s)) s'"
proof -
  have i: "irq_inv s" "fr_ok s" "Kernel.tm_ok s" "join_inv s"
    using assms(1) by (simp_all add: start_ok_def)
  have k: "sched_pre s" "prios_ok s" "mx_inv s" "in_irq s" "thstate s (pthread_current s) = PTHREAD_STATE_RUNNING"
    "linked s (pthread_current s)" "pthread_next s \<in> {None, Some (pthread_current s)}"
    using i(1) by (simp_all add: irq_inv_def)
  let ?s = "upd_th t (create_init attr) (set_state t PTHREAD_STATE_INIT s)"
  from free_slot_Some [OF assms(2)] have st: "thstate s t = PTHREAD_STATE_NONE" "t < pthread_idle"
    by (auto simp: pthread_idle_def CONFIG_PTHREAD_MAX_NUM_def)
  then have t: "t \<noteq> pthread_current s" "t \<noteq> pthread_idle"
    using k(5) by auto
  then have t3: "\<not> linked s t"
    using k(1) st(1) by (simp add: sched_pre_def)
  have fr: "fr s t = FRun" "mutex_queue (threads s t) = []"
    using fr_okD(4,5) [OF i(2), of t] st(1) by (auto simp: alive_def)
  with fr_okD(1) [OF i(2), of t] have clean: "fr s t = FRun" "mutex_queue (threads s t) = []" "sleep_on (threads s t) = None"
    by simp_all
  have "rq_wf ?s"
    using k(1) t3 by (auto simp: sched_pre_def sched_wf_def rq_wf_def create_init_def)
  then have "sched_pre ?s"
    using k(1) t t3 assms(3) by (simp add: sched_pre_def sched_wf_def create_init_def)
  moreover have "mx_inv ?s"
    by (rule mx_inv_mono [OF k(3)]) (use clean st in \<open>auto simp: create_init_def\<close>)
  moreover have "prios_ok ?s"
    using k(2) assms(3) by (auto simp: prios_ok_def create_init_def)
  ultimately have "irq_inv ?s"
    using k t(1) by (simp add: irq_inv_def)
  from irq_wake_up [OF this, of t] obtain s' where s': "wake_up t ?s = Ok s'" "irq_inv s'" "pthread_next s' = None"
    "woken {t} ?s s'"
    by blast
  let ?e = "set_state t PTHREAD_STATE_RUNNING (upd_th t (create_init attr) s)"
  have e: "set_state t PTHREAD_STATE_RUNNING ?s = ?e"
    by (simp add: upd_th_def create_init_def)
  from wake_up_irq [of ?s t] s'(1) \<open>irq_inv ?s\<close> have f: "sched_frame ?e s'" "pthread_current s' = pthread_current s"
    unfolding e by (auto simp: irq_inv_def)
  note sp = sched_frame_sp [OF f(1)]
  have "fr_ok ?e"
    using i(2) st clean unfolding fr_ok_def by (auto simp: create_init_def alive_def split: if_splits)
  moreover have "join_inv ?e"
    using join_inv_clear [OF i(4), of t] by (subst join_inv_frame [of _ "upd_th t (waiter_update (\<lambda>_. None)) s"]) (auto simp: create_init_def)
  ultimately have "start_ok s'"
    using s'(2) i(3) fr_ok_sp(2) [OF sp] Kernel.tm_ok_sp(2) [OF sp] join_inv_sp [OF sp] by (simp add: start_ok_def)
  with s' f assms(2) show ?thesis
    by (simp add: pthread_create_def Let_def)
qed

lemma start_upd:
  assumes "\<And>th. th_state (u th) = th_state th" "\<And>th. effective_priority (u th) = effective_priority th"
    "\<And>th. priority (u th) = priority th" "\<And>th. th_link (u th) = th_link th" "\<And>th. sleep_on (u th) = sleep_on th"
    "\<And>th. mutex_queue (u th) = mutex_queue th" "\<And>th. waiter (u th) = waiter th"
  shows "start_ok (upd_th t u s) = start_ok s"
proof -
  have "fr_ok (upd_th t u s) = fr_ok s"
    by (auto simp: fr_ok_def assms)
  moreover have "join_inv (upd_th t u s) = join_inv s"
    by (rule join_inv_frame) (simp add: assms)
  ultimately show ?thesis
    using irq_inv_upd [of u t s, OF assms(1-6)] by (simp add: start_ok_def)
qed

text \<open>The thread that \<open>launch\<close> leaves, and that it leaves nothing else changed.\<close>

definition launched :: "pthread_attr \<Rightarrow> string \<Rightarrow> pthread \<Rightarrow> pthread" where
  "launched attr name th =
     (create_init attr th)\<lparr>th_state := PTHREAD_STATE_RUNNING, th_name := name, th_flags := attr_flags attr OR PTHREAD_FLAG_DETACH\<rparr>"

lemma launch_spec:
  assumes "start_ok s" and "free_slot s = Some t" and "unat (attr_priority attr) \<le> 31"
    and "attr_flags attr AND PTHREAD_FLAG_DETACH = 0" and "length name < PTHREAD_NAME_SIZE"
  shows "\<exists>s'. launch attr name s = Ok s' \<and> start_ok s' \<and> pthread_next s' = None \<and> pthread_current s' = pthread_current s \<and>
    sched_frame (upd_th t (launched attr name) s) s'"
proof -
  from start_create [OF assms(1-3)] obtain s1 where s1: "pthread_create attr s = Ok (E_OK, Some t, s1)" "start_ok s1"
    "pthread_next s1 = None" "pthread_current s1 = pthread_current s"
    and f: "sched_frame (set_state t PTHREAD_STATE_RUNNING (upd_th t (create_init attr) s)) s1"
    by blast
  let ?n = "th_name_update (\<lambda>_. name)" and ?f = "th_flags_update (\<lambda>f. f OR PTHREAD_FLAG_DETACH)"
  let ?s' = "upd_th t ?f (upd_th t ?n s1)"
  have th: "thstate s1 t = PTHREAD_STATE_RUNNING" "th_flags (threads s1 t) = attr_flags attr" "waiter (threads s1 t) = None"
    using sched_frameD(1,4,5) [OF f, of t] by (simp_all add: create_init_def)
  have "launch attr name s = Ok ?s'"
    using s1(1) th assms(4,5) by (simp add: launch_def pthread_setname_np_def pthread_detach_def Let_def)
  moreover have "start_ok ?s'"
    using s1(2) by (simp add: start_upd)
  moreover have "sched_frame (upd_th t (launched attr name) s) ?s'"
  proof -
    have c: "th_core (threads s1 x) = th_core (if x = t then (create_init attr (threads s t))\<lparr>th_state := PTHREAD_STATE_RUNNING\<rparr> else threads s x)" for x
      using f by (simp add: sched_frame_def)
    have up: "th_core (?f (?n a)) = th_core (?f (?n b))" if "th_core a = th_core b" for a b
      using that by (cases a; cases b) (simp add: th_core_def)
    have l: "launched attr name (threads s t) = ?f (?n ((create_init attr (threads s t))\<lparr>th_state := PTHREAD_STATE_RUNNING\<rparr>))"
      by (simp add: launched_def create_init_def)
    have "th_core (threads ?s' x) = th_core (threads (upd_th t (launched attr name) s) x)" for x
      using c [of x] up [OF c [of t, simplified]] by (cases "x = t") (simp_all add: l)
    with f show ?thesis
      by (simp add: sched_frame_def)
  qed
  ultimately show ?thesis
    using s1(3,4) by auto
qed

lemma shell_init_launch:
  "shell_init stack s = launch ((pthread_attr_setstack pthread_attr_init stack 1024)\<lparr>attr_priority := 31\<rparr>) ''shell'' s"
  unfolding shell_init_def launch_def Let_def
  by (simp add: sched_get_priority_max_def SCHED_RR_def pthread_attr_setschedparam_def)

text \<open>The first yield ends the phase: the scheduler picks a thread and the invariant of the running kernel holds.\<close>

lemma start_end:
  assumes "start_ok s"
  shows "\<exists>s'. pthread_yield (s\<lparr>in_irq := False\<rparr>) = Ok s' \<and> kernel_ok s' \<and> sched_done s' \<and> sched_frame (s\<lparr>in_irq := False\<rparr>) s'"
proof -
  let ?s = "s\<lparr>in_irq := False\<rparr>"
  have i: "irq_inv s" "fr_ok s" "Kernel.tm_ok s" "join_inv s"
    using assms by (simp_all add: start_ok_def)
  have "sched_pre ?s = sched_pre s"
    by (rule sched_cong) simp_all
  moreover have "mx_inv ?s = mx_inv s"
    by (simp add: mx_inv_def mx_owned_def mx_waits_def wake_ok_def)
  ultimately have "kpre ?s"
    using i(1) by (simp add: irq_inv_def kpre_def ksched_def prios_ok_def)
  from kinv_schedule [OF this] obtain s' where s': "schedule ?s = Ok s'" "kinv s'" "sched_done s'" "sched_frame ?s s'"
    by blast
  have "fr_ok ?s" "Kernel.tm_ok ?s" "join_inv ?s"
    using i(2-4) join_inv_frame [of ?s s] by (simp_all add: fr_ok_def Kernel.tm_ok_def)
  with kernel_okI_sp [OF s'(2) sched_frame_sp [OF s'(4)]] have "kernel_ok s'"
    by blast
  with s' show ?thesis
    by (simp add: pthread_yield_def)
qed

text \<open>The phase begins with the idle thread alone; the wall clock has already been set.\<close>

lemma start_begin:
  "\<exists>s. pthread_init stack CONFIG_IDLE_STACK_SIZE (zeroed\<lparr>wall_tv := w\<rparr>) = Ok (s\<lparr>wall_tv := w\<rparr>) \<and> booted s \<and> start_ok (s\<lparr>wall_tv := w, in_irq := True\<rparr>)"
proof -
  from pthread_init_Ok [of stack 1024] obtain s where s: "pthread_init stack 1024 zeroed = Ok s"
    by blast
  then have b: "booted s"
    by (auto simp: booted_def)
  note k = kernel_okD [OF boot_ok [OF b]]
  have "pthread_init stack CONFIG_IDLE_STACK_SIZE (zeroed\<lparr>wall_tv := w\<rparr>) = Ok (s\<lparr>wall_tv := w\<rparr>)"
    using s by (auto simp: CONFIG_IDLE_STACK_SIZE_def pthread_init_def run_queue_enqueue_def run_queue_init_def zeroed_def idle_init_def Let_def upd_th_def)
  moreover have irq: "s\<lparr>wall_tv := w, in_irq := True\<rparr> = s\<lparr>in_irq := True, wall_tv := w\<rparr>"
    by (cases s) simp
  have "irq_inv (s\<lparr>wall_tv := w, in_irq := True\<rparr>)"
    unfolding irq irq_inv_fields(2) by (rule kinv_irq [OF k(1)])
  moreover have "fr_ok (s\<lparr>wall_tv := w, in_irq := True\<rparr>)" "Kernel.tm_ok (s\<lparr>wall_tv := w, in_irq := True\<rparr>)"
    using k(3,4) by (simp_all add: fr_ok_def Kernel.tm_ok_def)
  moreover have "join_inv (s\<lparr>wall_tv := w, in_irq := True\<rparr>)"
    using k(2) join_inv_frame [of "s\<lparr>wall_tv := w, in_irq := True\<rparr>" s] by simp
  ultimately show ?thesis
    using b by (auto simp: start_ok_def)
qed

text \<open>The applications one after the other: each takes the next slot.\<close>

definition app_ok :: "pthread_attr \<times> string \<Rightarrow> bool" where
  "app_ok a \<longleftrightarrow> unat (attr_priority (fst a)) \<le> 31 \<and> attr_flags (fst a) AND PTHREAD_FLAG_DETACH = 0 \<and>
     length (snd a) < PTHREAD_NAME_SIZE"

definition launches :: "(pthread_attr \<times> string) list \<Rightarrow> ('a kernel_scheme \<Rightarrow> 'a kernel_scheme result) list" where
  "launches apps = map (\<lambda>a. launch (fst a) (snd a)) apps"

lemma th_core_eq:
  assumes "th_core a = th_core b"
  shows "th_state a = th_state b" and "effective_priority a = effective_priority b" and "th_core (launched x n a) = th_core (launched x n b)"
  using assms by (cases a; cases b; simp add: th_core_def launched_def create_init_def)+

lemma launches_spec:
  assumes "start_ok s" and "\<And>t. thstate s t = (if t < k \<or> t = pthread_idle then PTHREAD_STATE_RUNNING else PTHREAD_STATE_NONE)"
    and "k + length apps \<le> 32" and "\<forall>a \<in> set apps. app_ok a"
  shows "\<exists>s'. run_init (launches apps) s = Ok s' \<and> start_ok s' \<and> kernel.more s' = kernel.more s \<and>
    (\<forall>t. th_core (threads s' t) = th_core (if k \<le> t \<and> t < k + length apps then
       launched (fst (apps ! (t - k))) (snd (apps ! (t - k))) (threads s t) else threads s t))"
  using assms
proof (induction apps arbitrary: s k)
  case (Cons a apps)
  have k: "k < 32" using Cons.prems(3) by simp
  have free: "free_slot s = Some k"
    using Cons.prems(2) k by (auto simp: free_slot_def find_Some_iff pthread_idle_def CONFIG_PTHREAD_MAX_NUM_def intro!: exI [of _ k])
  have a: "app_ok a" using Cons.prems(4) by simp
  from launch_spec [OF Cons.prems(1) free, of "fst a" "snd a"] a obtain s1 where
    s1: "launch (fst a) (snd a) s = Ok s1" "start_ok s1" and f: "sched_frame (upd_th k (launched (fst a) (snd a)) s) s1"
    by (auto simp: app_ok_def)
  have core: "th_core (threads s1 t) = th_core (if t = k then launched (fst a) (snd a) (threads s t) else threads s t)" for t
    using f by (auto simp: sched_frame_def)
  have st: "thstate s1 t = (if t < Suc k \<or> t = pthread_idle then PTHREAD_STATE_RUNNING else PTHREAD_STATE_NONE)" for t
    using th_core_eq(1) [OF core [of t]] Cons.prems(2) [of t] by (auto simp: launched_def)
  have more: "kernel.more s1 = kernel.more s" using f by (simp add: sched_frame_def)
  from Cons.IH [OF s1(2) st] Cons.prems(3,4) obtain s' where s': "run_init (launches apps) s1 = Ok s'" "start_ok s'"
    "kernel.more s' = kernel.more s1"
    and c: "\<forall>t. th_core (threads s' t) = th_core (if Suc k \<le> t \<and> t < Suc k + length apps then
       launched (fst (apps ! (t - Suc k))) (snd (apps ! (t - Suc k))) (threads s1 t) else threads s1 t)"
    by auto
  have "th_core (threads s' t) = th_core (if k \<le> t \<and> t < k + length (a # apps) then
       launched (fst ((a # apps) ! (t - k))) (snd ((a # apps) ! (t - k))) (threads s t) else threads s t)" for t
  proof (cases "Suc k \<le> t \<and> t < Suc k + length apps")
    case True
    then have "th_core (threads s1 t) = th_core (threads s t)" using core [of t] by simp
    from th_core_eq(3) [OF this] True c show ?thesis by (auto simp: nth_Cons')
  next
    case False
    then show ?thesis using c core [of t] by (auto simp: nth_Cons')
  qed
  with s1 s' more show ?case by (intro exI [of _ s']) (simp add: launches_def)
qed (auto simp: launches_def)

text \<open>Starting them all: the scheduler picks one of the highest priority.\<close>

lemma start_many:
  assumes "length apps \<le> 32" and "\<forall>a \<in> set apps. app_ok a"
  shows "\<exists>s. start_threads stack (launches apps) (zeroed\<lparr>wall_tv := w\<rparr>) = Ok s \<and> kernel_ok s \<and> fr s = (\<lambda>_. FRun) \<and> wall_tv s = w \<and>
    (\<forall>t. thstate s t = (if t < length apps \<or> t = pthread_idle then PTHREAD_STATE_RUNNING else PTHREAD_STATE_NONE)) \<and>
    (\<forall>i < length apps. th_core (threads s i) = th_core (launched (fst (apps ! i)) (snd (apps ! i)) th_zero) \<and>
       unat (attr_priority (fst (apps ! i))) \<le> eprio s (pthread_current s)) \<and> eprio s pthread_idle = 0"
proof -
  from start_begin obtain s0 where s0: "pthread_init stack CONFIG_IDLE_STACK_SIZE (zeroed\<lparr>wall_tv := w\<rparr>) = Ok (s0\<lparr>wall_tv := w\<rparr>)"
    "booted s0" "start_ok (s0\<lparr>wall_tv := w, in_irq := True\<rparr>)"
    by blast
  let ?s = "s0\<lparr>wall_tv := w, in_irq := True\<rparr>"
  note f = boot_state [OF s0(2)]
  have th: "threads s0 t = (if t = pthread_idle then threads s0 pthread_idle else th_zero)" for t
    by (subst f(1)) simp
  have st0: "thstate s0 t = (if t = pthread_idle then PTHREAD_STATE_RUNNING else PTHREAD_STATE_NONE)"
    and ep0: "eprio s0 t = 0" for t
    unfolding th [of t] using f(2,4) by (simp_all add: th_zero_def)
  have "\<exists>s'. run_init (launches apps) ?s = Ok s' \<and> start_ok s' \<and> kernel.more s' = kernel.more ?s \<and>
    (\<forall>t. th_core (threads s' t) = th_core (if 0 \<le> t \<and> t < 0 + length apps then
       launched (fst (apps ! (t - 0))) (snd (apps ! (t - 0))) (threads ?s t) else threads ?s t))"
    by (rule launches_spec [OF s0(3)]) (use st0 assms in simp_all)
  then obtain s1 where s1: "run_init (launches apps) ?s = Ok s1" "start_ok s1" "kernel.more s1 = kernel.more ?s"
    and c1: "\<And>t. th_core (threads s1 t) = th_core (if t < length apps then launched (fst (apps ! t)) (snd (apps ! t)) (threads s0 t) else threads s0 t)"
    by auto
  from start_end [OF s1(2)] obtain s2 where s2: "pthread_yield (s1\<lparr>in_irq := False\<rparr>) = Ok s2" "kernel_ok s2" "sched_done s2"
    and f2: "sched_frame (s1\<lparr>in_irq := False\<rparr>) s2"
    by blast
  have core: "th_core (threads s2 t) = th_core (if t < length apps then launched (fst (apps ! t)) (snd (apps ! t)) (threads s0 t) else threads s0 t)" for t
    using c1 [of t] f2 by (simp add: sched_frame_def)
  have low: "t < length apps \<Longrightarrow> t \<noteq> pthread_idle" for t
    using assms(1) by (simp add: pthread_idle_def CONFIG_PTHREAD_MAX_NUM_def)
  have st: "thstate s2 t = (if t < length apps \<or> t = pthread_idle then PTHREAD_STATE_RUNNING else PTHREAD_STATE_NONE)"
    and ep: "eprio s2 t = (if t < length apps then unat (attr_priority (fst (apps ! t))) else 0)" for t
    using th_core_eq(1,2) [OF core [of t]] st0 [of t] ep0 [of t] low [of t] by (auto simp: launched_def create_init_def)
  have top: "unat (attr_priority (fst (apps ! i))) \<le> eprio s2 (pthread_current s2)" if "i < length apps" for i
  proof -
    have "linked s2 i" using s2(3) st [of i] that by (simp add: sched_done_def sched_inv_def)
    then have "eprio s2 i \<le> eprio s2 (pthread_current s2)" using s2(3) by (simp add: sched_done_def top_prio_def)
    with ep [of i] that show ?thesis by simp
  qed
  have more: "kernel.more s2 = kernel.more ?s"
    using s1(3) f2 by (simp add: sched_frame_def)
  have "fr s2 = (\<lambda>_. FRun)" "wall_tv s2 = w"
    using more_fr [OF more] more_tkernel [OF more] f(18) by simp_all
  moreover have "start_threads stack (launches apps) (zeroed\<lparr>wall_tv := w\<rparr>) = Ok s2"
    using s0(1) s1(1) s2(1) by (simp add: start_threads_def)
  moreover have "threads s0 t = th_zero" if "t < length apps" for t
    using th [of t] low [OF that] by simp
  then have "\<forall>i < length apps. th_core (threads s2 i) = th_core (launched (fst (apps ! i)) (snd (apps ! i)) th_zero)"
    using core by simp
  moreover have "eprio s2 pthread_idle = 0" using ep low by fastforce
  ultimately show ?thesis
    using s2(2) st top by (intro exI [of _ s2]) simp
qed

section \<open>Initialising the machine\<close>

lemma idt_init_Ok: "length isr \<le> 48 \<Longrightarrow> \<exists>idt. idt_init isr = Ok idt"
  using idt_fill_spec [of 0 isr "replicate (IRQ_MAX + 1) gate_zero"] by (auto simp: idt_init_def IRQ_MAX_def)

text \<open>The handlers of the running system.\<close>

definition kernel_handlers :: "nat \<Rightarrow> interrupt_handler" where
  "kernel_handlers i =
     (if i = 32 then pit_handler else if i = 33 then keyboard_irq_handler else interrupt_default_handler)"

lemma arch_init_spec:
  assumes "length (se_isr env) \<le> 48" and "shows_tm (se_rtc env) bin h24 t" and "TimeLib.tm_ok t" and "100 \<le> tm_year t" and "tm_year t < 200"
    and "mktime t = Ok sec"
  shows "\<exists>b'. arch_init env b = Ok b' \<and> b_kernel b' = (b_kernel b)\<lparr>wall_tv := \<lparr>tv_sec = sec, tv_usec = 0\<rparr>\<rparr> \<and>
    (\<forall>i \<le> IRQ_MAX. b_handlers b' i = kernel_handlers i) \<and> idt_init (se_isr env) = Ok (b_idt b') \<and> b_gdt b' = gdt_init (b_gdt b) \<and>
    b_kbd b' = (b_kbd b)\<lparr>kcb := circular_buffer_init (se_buffer env) 1024\<rparr> \<and> b_screen b' = b_screen b"
proof -
  from idt_init_Ok [OF assms(1)] obtain idt where idt: "idt_init (se_isr env) = Ok idt"
    by blast
  let ?tbl = "\<lambda>i. if i \<le> IRQ_MAX then interrupt_default_handler else b_handlers b i"
  obtain tbl tr where pit: "pit_init CONFIG_HZ (se_inb_pit env) ?tbl (pic_init (io_ports (b_io b))) = (tbl, tr)"
    by fastforce
  from cmos_init_shown [OF assms(2-6), of "se_tm env" "(0, tr)" "io_text (b_io b)" "b_kernel b"] obtain n tr' tx where
    cmos: "cmos_init (se_rtc env) (se_tm env) (0, tr) (io_text (b_io b)) (b_kernel b) =
      Ok ((n, tr'), io_text (b_io b) @ tx, (b_kernel b)\<lparr>wall_tv := \<lparr>tv_sec = sec, tv_usec = 0\<rparr>\<rparr>)"
    by auto
  have int: "interrupt_init (se_isr env) (b_handlers b) (io_ports (b_io b)) = Ok (idt, ?tbl, pic_init (io_ports (b_io b)))"
    by (simp add: interrupt_init_def idt)
  have kbd: "keyboard_init (se_inb_kbd env) (se_buffer env) (b_kbd b, io) tbl =
      (((b_kbd b)\<lparr>kcb := circular_buffer_init (se_buffer env) 1024\<rparr>, io\<lparr>io_ports := pic_enable (se_inb_kbd env) 33 (io_ports io)\<rparr>),
       tbl(33 := keyboard_irq_handler))" for io
    by (simp add: keyboard_init_def interrupt_register_def IRQ_MAX_def)
  have "tbl = ?tbl(32 := pit_handler)"
    using pit by (auto simp: pit_init_def interrupt_register_def PIT_IRQ_def IRQ_MAX_def Let_def)
  then have tbl: "(tbl(33 := keyboard_irq_handler)) i = kernel_handlers i" if "i \<le> IRQ_MAX" for i
    using that by (simp add: kernel_handlers_def)
  have "arch_init env b = Ok (b\<lparr>b_gdt := gdt_init (b_gdt b), b_idt := idt, b_handlers := tbl(33 := keyboard_irq_handler),
      b_kernel := (b_kernel b)\<lparr>wall_tv := \<lparr>tv_sec = sec, tv_usec = 0\<rparr>\<rparr>, b_kbd := (b_kbd b)\<lparr>kcb := circular_buffer_init (se_buffer env) 1024\<rparr>,
      b_io := (b_io b)\<lparr>io_ports := pic_enable (se_inb_kbd env) 33 tr', io_text := io_text (b_io b) @ tx\<rparr>\<rparr>)"
    by (simp add: arch_init_def Let_def int pit cmos kbd)
  with tbl idt show ?thesis
    by simp
qed

lemma print_range:
  assumes "\<forall>c \<in> set pre. c \<noteq> 0x25 \<and> c \<noteq> 0"
  shows "\<exists>tx. kprintf (pre @ map of_char ''%08x - %08x'' @ [0x0a]) [VInt x, VInt y] out = Ok (out @ tx)"
proof -
  let ?x = "Conv Hex True 8 False"
  let ?ds = "map Lit pre @ [?x, Lit 0x20, Lit 0x2d, Lit 0x20, ?x, Lit 0x0a]"
  have "base_digits 10 8 = [8]"
    by (simp add: base_digits.simps)
  moreover have "concat (map render (map Lit pre)) = pre"
    by (induction pre) simp_all
  ultimately have r: "concat (map render ?ds) = pre @ map of_char ''%08x - %08x'' @ [0x0a]"
    by (simp add: width_chars_def number_table_def)
  have "\<exists>tx. format_text ?ds [VInt x, VInt y] = Some tx"
    by (induction pre) auto
  then obtain tx where t: "format_text ?ds [VInt x, VInt y] = Some tx" ..
  have d: "\<forall>d \<in> set ?ds. directive_ok d"
    using assms by auto
  show ?thesis
    using kprintf_format [OF t d, of out] unfolding r by blast
qed

lemma show_memory_Ok: "\<exists>tx. show_memory kernel_end info out = Ok (out @ tx)"
proof -
  have r: "kprintf (map of_char ''RAM:'' @ [0x0a]) [] out = Ok (out @ map uint (map of_char ''RAM:'' @ [0x0a :: u8]))"
    by (rule kprintf_lit) simp
  have p: "\<exists>tx. kprintf (map of_char ''  lower: %08x - %08x'' @ [0x0a]) [VInt x, VInt y] o' = Ok (o' @ tx)"
    "\<exists>tx. kprintf (map of_char ''  upper: %08x - %08x'' @ [0x0a]) [VInt x, VInt y] o' = Ok (o' @ tx)"
    "\<exists>tx. kprintf (map of_char ''  heap:  %08x - %08x'' @ [0x0a]) [VInt x, VInt y] o' = Ok (o' @ tx)" for x y o'
    using print_range [of "map of_char ''  lower: ''" x y o'] print_range [of "map of_char ''  upper: ''" x y o']
      print_range [of "map of_char ''  heap:  ''" x y o'] by simp_all
  let ?lo = "mem_lower info * 1024" and ?hi = "mem_upper info * 1024 + 1024 * 1024"
  obtain t0 where t0: "kprintf (map of_char ''RAM:'' @ [0x0a]) [] out = Ok (out @ t0)"
    using r by blast
  from p(1) [of 0 ?lo "out @ t0"] obtain t1 where
    t1: "kprintf (map of_char ''  lower: %08x - %08x'' @ [0x0a]) [VInt 0, VInt ?lo] (out @ t0) = Ok ((out @ t0) @ t1)"
    by blast
  from p(2) [of "1024 * 1024" ?hi "(out @ t0) @ t1"] obtain t2 where
    t2: "kprintf (map of_char ''  upper: %08x - %08x'' @ [0x0a]) [VInt (1024 * 1024), VInt ?hi] ((out @ t0) @ t1) = Ok (((out @ t0) @ t1) @ t2)"
    by blast
  from p(3) [of kernel_end ?hi "((out @ t0) @ t1) @ t2"] obtain t3 where
    t3: "kprintf (map of_char ''  heap:  %08x - %08x'' @ [0x0a]) [VInt kernel_end, VInt ?hi] (((out @ t0) @ t1) @ t2) = Ok ((((out @ t0) @ t1) @ t2) @ t3)"
    by blast
  show ?thesis
    using t0 t1 t2 t3 by (simp add: show_memory_def Let_def)
qed

section \<open>The whole start\<close>

text \<open>The zeroed machine before \<open>main\<close>; its tables have the sizes of the arrays.\<close>

definition zero_board :: board where
  "zero_board =
     \<lparr>b_kernel = zeroed,
      b_kbd =
        \<lparr>scroll_lock_led = False, num_lock_led = False, caps_lock_led = False, key_l_ctrl = False, key_r_ctrl = False,
         key_l_shift = False, key_r_shift = False, key_l_alt = False, key_r_alt = False, esc = 0,
         kcb = circular_buffer_init (\<lambda>_. 0) 0, kb_waiter = None\<rparr>,
      b_io = \<lparr>io_ports = [], io_status = [], io_text = []\<rparr>,
      b_handlers = (\<lambda>_. interrupt_default_handler), b_gdt = replicate 5 gd_zero, b_idt = [],
      b_screen = \<lparr>tb_row = 0, tb_col = 0, tb_mem = (\<lambda>_. 0), tb_ports = []\<rparr>\<rparr>"

lemma main_many:
  assumes "mb_flags info AND 1 \<noteq> 0" and "length (se_isr env) \<le> 48"
    and "shows_tm (se_rtc env) bin h24 t" and "TimeLib.tm_ok t" and "100 \<le> tm_year t" and "tm_year t < 200" and "mktime t = Ok sec"
    and "length apps \<le> 32" and "\<forall>a \<in> set apps. app_ok a"
  shows "\<exists>b. main env info (launches apps) zero_board = Ok b \<and> sys_ok b \<and>
    (\<forall>t. thstate (b_kernel b) t = (if t < length apps \<or> t = pthread_idle then PTHREAD_STATE_RUNNING else PTHREAD_STATE_NONE)) \<and>
    (\<forall>i < length apps. th_core (threads (b_kernel b) i) = th_core (launched (fst (apps ! i)) (snd (apps ! i)) th_zero) \<and>
       unat (attr_priority (fst (apps ! i))) \<le> eprio (b_kernel b) (pthread_current (b_kernel b))) \<and> eprio (b_kernel b) pthread_idle = 0 \<and>
    fr (b_kernel b) = (\<lambda>_. FRun) \<and> wall_tv (b_kernel b) = \<lparr>tv_sec = sec, tv_usec = 0\<rparr> \<and>
    (\<forall>i \<le> IRQ_MAX. b_handlers b i = kernel_handlers i) \<and> cb_bytes (kcb (b_kbd b)) = [] \<and> kb_waiter (b_kbd b) = None \<and> tb_ok (b_screen b)"
proof -
  let ?z = "arch_early_init zero_board"
  have z: "b_kernel ?z = zeroed" "b_kbd ?z = b_kbd zero_board" "tb_ok (b_screen ?z)"
    by (simp_all add: arch_early_init_def zero_board_def text_buffer_clear_def text_buffer_draw_cursor_def tb_ok_def Let_def)
  from show_memory_Ok obtain tx where tx: "show_memory (se_kernel_end env) info (io_text (b_io ?z)) = Ok (io_text (b_io ?z) @ tx)"
    by blast
  let ?b = "?z\<lparr>b_io := (b_io ?z)\<lparr>io_text := io_text (b_io ?z) @ tx\<rparr>\<rparr>"
  let ?w = "\<lparr>tv_sec = sec, tv_usec = 0\<rparr>"
  from arch_init_spec [OF assms(2-7), of ?b] obtain b1 where b1: "arch_init env ?b = Ok b1" "b_kernel b1 = zeroed\<lparr>wall_tv := ?w\<rparr>"
    "\<forall>i \<le> IRQ_MAX. b_handlers b1 i = kernel_handlers i"
    and kb: "b_kbd b1 = (b_kbd zero_board)\<lparr>kcb := circular_buffer_init (se_buffer env) 1024\<rparr>" "tb_ok (b_screen b1)"
    using z by auto
  from start_many [OF assms(8,9), of "se_idle_stack env" ?w] obtain s where
    s: "start_threads (se_idle_stack env) (launches apps) (zeroed\<lparr>wall_tv := ?w\<rparr>) = Ok s"
    "kernel_ok s" "fr s = (\<lambda>_. FRun)" "wall_tv s = ?w"
    "\<forall>t. thstate s t = (if t < length apps \<or> t = pthread_idle then PTHREAD_STATE_RUNNING else PTHREAD_STATE_NONE)"
    "\<forall>i < length apps. th_core (threads s i) = th_core (launched (fst (apps ! i)) (snd (apps ! i)) th_zero) \<and>
       unat (attr_priority (fst (apps ! i))) \<le> eprio s (pthread_current s)" "eprio s pthread_idle = 0"
    by blast
  have m: "main env info (launches apps) zero_board = Ok (b1\<lparr>b_kernel := s\<rparr>)"
    using assms(1) by (simp add: main_def Let_def tx b1(1,2) s(1))
  have cb: "cb_ok (kcb (b_kbd b1))" "cb_bytes (kcb (b_kbd b1)) = []" "kb_waiter (b_kbd b1) = None"
    using cb_init_ok [of 1024 "se_buffer env"] by (simp_all add: kb(1) zero_board_def)
  have "sys_ok (b1\<lparr>b_kernel := s\<rparr>)"
    using s(2,3) cb by (simp add: sys_ok_def)
  with m s cb b1(3) kb(2) show ?thesis
    by (intro exI [of _ "b1\<lparr>b_kernel := s\<rparr>"]) simp
qed

section \<open>Reachable states of the system\<close>

text \<open>
  The machine after \<open>main\<close> with any applications that start a thread each, as many as there are slots, and whatever the threads,
  the clock and the keyboard do then.
\<close>

inductive sys_reachable :: "board \<Rightarrow> bool" where
  Start: "\<lbrakk>main env info (launches apps) zero_board = Ok b; mb_flags info AND 1 \<noteq> 0; length (se_isr env) \<le> 48;
    shows_tm (se_rtc env) bin h24 t; TimeLib.tm_ok t; 100 \<le> tm_year t; tm_year t < 200; mktime t = Ok sec;
    length apps \<le> 32; \<forall>a \<in> set apps. app_ok a\<rbrakk> \<Longrightarrow> sys_reachable b"
| Next: "\<lbrakk>sys_reachable b; sys_step b b'\<rbrakk> \<Longrightarrow> sys_reachable b'"

theorem sys_reachable_ok: "sys_reachable b \<Longrightarrow> sys_ok b"
proof (induction rule: sys_reachable.induct)
  case (Start env info apps b bin h24 t sec)
  from main_many [OF Start(2-)] Start(1) show ?case
    by auto
next
  case (Next b b')
  then show ?case
    by (blast intro: sys_step_ok)
qed

end
