(* ===== verification/Entry.thy ===== *)
theory Entry
  imports Machine Stdio
begin

text \<open>
  The way into the kernel and out of it: the inline functions of \<open>src/arch/i386/include/arch.h\<close> that bracket a critical section, the
  entry stubs and the return path of \<open>src/arch/i386/kernel/isr.S\<close>, the \<open>struct interrupt_context\<close> that the stubs build, the
  handler of unexpected interrupts in \<open>src/arch/i386/kernel/interrupt.c\<close>, and the two ways the kernel gives up, \<open>assert\<close> and \<open>abort\<close>.

  Shown: critical sections nest; a handler sees the registers of the interrupted code in the context, whatever the
  vector, and when it has returned, even after other threads have run, the interrupted code has every register as before and
  its stack untouched.
\<close>

section \<open>The interrupt flag\<close>

definition interrupt_disable :: "cpu \<Rightarrow> u32 \<times> cpu" where
  "interrupt_disable c = (eflags c, c\<lparr>eflags := eflags c AND NOT CPU_FLAG_IF\<rparr>)"

definition interrupt_enable :: "u32 \<Rightarrow> cpu \<Rightarrow> cpu" where
  "interrupt_enable flags c = c\<lparr>eflags := flags\<rparr>"

definition arch_enable_interrupt :: "cpu \<Rightarrow> cpu" where
  "arch_enable_interrupt c = c\<lparr>eflags := eflags c OR CPU_FLAG_IF\<rparr>"

text \<open>\<open>xaddl\<close> stores the sum and yields the old value; the result is the value returned and the new contents of the cell.\<close>

definition atomic_add_return :: "u32 \<Rightarrow> u32 \<Rightarrow> u32 \<times> u32" where
  "atomic_add_return v cell = (let retval = cell; cell = cell + v in (retval + v, cell))"

definition atomic_sub_return :: "u32 \<Rightarrow> u32 \<Rightarrow> u32 \<times> u32" where
  "atomic_sub_return v cell = atomic_add_return (- v) cell"

text \<open>What every operation of the kernel is wrapped in.\<close>

definition critical :: "(cpu \<Rightarrow> cpu) \<Rightarrow> cpu \<Rightarrow> cpu" where
  "critical body c = (let (flags, c) = interrupt_disable c in interrupt_enable flags (body c))"

definition interruptible :: "cpu \<Rightarrow> bool" where
  "interruptible c \<longleftrightarrow> bit (eflags c) 9"

lemma flag_IF: "CPU_FLAG_IF = push_bit 9 1"
  by (simp add: CPU_FLAG_IF_def push_bit_eq_mult)

lemma disable_masks: "interrupt_disable c = (flags, c') \<Longrightarrow> \<not> interruptible c' \<and> (flags = eflags c)"
  by (auto simp: interrupt_disable_def interruptible_def flag_IF bit_simps)

text \<open>
  The flags are back after the section whatever it does to them; so a section inside another one does not open it, and the outermost
  one restores the caller's flag.
\<close>

lemma critical_flags: "eflags (critical body c) = eflags c"
  by (simp add: critical_def interrupt_disable_def interrupt_enable_def)

lemma critical_nested: "\<not> interruptible c \<Longrightarrow> \<not> interruptible (critical body c)"
  by (simp add: interruptible_def critical_flags)

lemma critical_masked: "\<exists>c1. \<not> interruptible c1 \<and> critical body c = interrupt_enable (eflags c) (body c1)"
  using disable_masks [of c] by (auto simp: critical_def split: prod.splits)

lemma atomic_add_sub: "atomic_sub_return v (snd (atomic_add_return v cell)) = (cell, cell)"
  by (simp add: atomic_sub_return_def atomic_add_return_def)

section \<open>Segment registers\<close>

definition KERNEL_DS :: u16 where "KERNEL_DS = 0x10"

record segs =
  sr_cs :: u16
  sr_ds :: u16
  sr_ss :: u16
  sr_es :: u16
  sr_fs :: u16
  sr_gs :: u16

record table_ptr =
  tp_limit :: u16
  tp_base :: u32

definition gdt_ptr :: "u32 \<Rightarrow> table_ptr" where
  "gdt_ptr gdt = \<lparr>tp_limit = of_nat (5 * 8) - 1, tp_base = gdt\<rparr>"

definition idt_ptr :: "u32 \<Rightarrow> table_ptr" where
  "idt_ptr idt = \<lparr>tp_limit = of_nat ((IRQ_MAX + 1) * 8) - 1, tp_base = idt\<rparr>"

text \<open>\<open>lgdt\<close> loads the table register and then every segment register; the result is the table register and the segments.\<close>

definition lgdt :: "u32 \<Rightarrow> segs \<Rightarrow> table_ptr \<times> segs" where
  "lgdt gdt sr =
     (gdt_ptr gdt, sr\<lparr>sr_cs := KERNEL_CS, sr_ds := KERNEL_DS, sr_ss := KERNEL_DS, sr_es := KERNEL_DS, sr_fs := KERNEL_DS, sr_gs := KERNEL_DS\<rparr>)"

text \<open>How the processor uses a selector: the upper bits index the table, whose limit is the offset of its last byte.\<close>

definition selects :: "table_ptr \<Rightarrow> gd list \<Rightarrow> u16 \<Rightarrow> gd option" where
  "selects tp table sel =
     (if unat sel div 8 * 8 + 7 \<le> unat (tp_limit tp) \<and> \<not> bit sel 2 then Some (table ! (unat sel div 8)) else None)"

definition flat :: "bool \<Rightarrow> gd \<Rightarrow> bool" where
  "flat code gd \<longleftrightarrow> gd_present gd = 1 \<and> gd_s gd = 1 \<and> gd_exe gd = of_bool code \<and> gd_rw gd = 1 \<and> gd_privilege gd = 0 \<and>
     gd_size gd = 1 \<and> gd_granularity gd = 1 \<and> gd_base gd = 0 \<and> gd_limit gd = 0xfffff"

text \<open>After \<open>gdt_init\<close> code runs and accesses data in flat segments of four gigabytes with the privileges of the kernel.\<close>

lemma flat_segments:
  assumes "lgdt a sr = (tp, sr')"
  shows "\<exists>gd. selects tp (gdt_init g) (sr_cs sr') = Some gd \<and> flat True gd"
    and "r \<in> {sr_ds, sr_ss, sr_es, sr_fs, sr_gs} \<Longrightarrow> \<exists>gd. selects tp (gdt_init g) (r sr') = Some gd \<and> flat False gd"
proof -
  have b: "\<not> bit (8 :: u16) 2" "\<not> bit (16 :: u16) 2" by (simp_all add: bit_iff_odd)
  have f: "flat True (gd_set_code 0 0 0xffffffff x)" "flat False (gd_set_data 0 0 0xffffffff x)" for x
    using gd_base_set [of 0 x] gd_limit_set [of "0xffffffff" "gd_set_base_addr 0 x"]
    by (simp_all add: flat_def gd_set_code_def gd_set_data_def gd_base_def gd_limit_def gd_set_limit_def gd_set_base_addr_def)
  show "\<exists>gd. selects tp (gdt_init g) (sr_cs sr') = Some gd \<and> flat True gd"
    using assms f by (auto simp: lgdt_def selects_def gdt_ptr_def gdt_init_def KERNEL_CS_def KERNEL_DS_def b)
  show "\<exists>gd. selects tp (gdt_init g) (r sr') = Some gd \<and> flat False gd" if "r \<in> {sr_ds, sr_ss, sr_es, sr_fs, sr_gs}"
    using assms f that by (auto simp: lgdt_def selects_def gdt_ptr_def gdt_init_def KERNEL_CS_def KERNEL_DS_def b)
qed

section \<open>Interrupt frames\<close>

record interrupt_context =
  ctx_edi :: u32
  ctx_esi :: u32
  ctx_ebp :: u32
  ctx_esp :: u32
  ctx_ebx :: u32
  ctx_edx :: u32
  ctx_ecx :: u32
  ctx_eax :: u32
  ctx_irq :: u32
  ctx_error :: u32
  ctx_eip :: u32
  ctx_cs :: u16
  ctx_eflags :: u32

text \<open>The structure at an address, with the layout of the compiler: thirteen words, the half-word \<open>cs\<close> padded.\<close>

definition ctx_at :: "wmem \<Rightarrow> u32 \<Rightarrow> interrupt_context" where
  "ctx_at m p =
     \<lparr>ctx_edi = m p, ctx_esi = m (p + 4), ctx_ebp = m (p + 8), ctx_esp = m (p + 12), ctx_ebx = m (p + 16), ctx_edx = m (p + 20),
      ctx_ecx = m (p + 24), ctx_eax = m (p + 28), ctx_irq = m (p + 32), ctx_error = m (p + 36), ctx_eip = m (p + 40),
      ctx_cs = ucast (m (p + 44)), ctx_eflags = m (p + 48)\<rparr>"

text \<open>
  The processor accepts an interrupt through an interrupt gate whose address is \<open>entry\<close>: it pushes flags, code segment and
  instruction pointer, for some exceptions an error code, and masks interrupts.
\<close>

definition accept :: "u32 \<Rightarrow> u32 option \<Rightarrow> cpu \<times> wmem \<Rightarrow> cpu \<times> wmem" where
  "accept entry code cm =
     (let c = fst cm;
          cm = push_word (eip c) (push_word (ucast (seg_cs c)) (push_word (eflags c) cm));
          (c', m') = (case code of None \<Rightarrow> cm | Some e \<Rightarrow> push_word e cm)
      in (c'\<lparr>eip := entry, seg_cs := KERNEL_CS, eflags := eflags c AND NOT CPU_FLAG_IF\<rparr>, m'))"

text \<open>The macros \<open>isr\<close> and \<open>isr_with_error\<close>, which bring both kinds of vectors to the same layout.\<close>

definition isr_stub :: "u32 \<Rightarrow> cpu \<times> wmem \<Rightarrow> cpu \<times> wmem" where
  "isr_stub irq cm = push_word irq (push_word 0 cm)"

definition isr_with_error_stub :: "u32 \<Rightarrow> cpu \<times> wmem \<Rightarrow> cpu \<times> wmem" where
  "isr_with_error_stub irq cm = push_word irq cm"

text \<open>
  An interrupt up to the call of \<open>interrupt_dispatch\<close>, which gets the stack pointer as its argument.  The stub is the one of
  the vector's kind: the generated list \<open>irq.h\<close> names the vectors for which the processor pushes an error code.
\<close>

definition isr_enter :: "u32 \<Rightarrow> u32 \<Rightarrow> u32 option \<Rightarrow> cpu \<times> wmem \<Rightarrow> cpu \<times> wmem" where
  "isr_enter entry irq code cm =
     (let cm = accept entry code cm in
      save_context (case code of None \<Rightarrow> isr_stub irq cm | Some _ \<Rightarrow> isr_with_error_stub irq cm))"

lemmas enter_defs = isr_enter_def accept_def isr_stub_def isr_with_error_stub_def save_context_def push_word_def

text \<open>Thirteen words are pushed, and no other word changes.\<close>

lemma isr_enter_stack:
  assumes "isr_enter entry irq code (c, m) = (c1, m1)"
  shows "esp c1 = esp c - 52" and "(\<And>i. i < 13 \<Longrightarrow> a \<noteq> esp c1 + 4 * of_nat i) \<Longrightarrow> m1 a = m a"
proof -
  show e: "esp c1 = esp c - 52"
    using assms by (auto simp: enter_defs Let_def split: option.splits)
  show "m1 a = m a" if a: "\<And>i. i < 13 \<Longrightarrow> a \<noteq> esp c1 + 4 * of_nat i"
    using assms a [of 0] a [of 1] a [of 2] a [of 3] a [of 4] a [of 5] a [of 6] a [of 7] a [of 8] a [of 9] a [of 10] a [of 11] a [of 12]
    unfolding e by (auto simp: enter_defs Let_def split: option.splits)
qed

lemma isr_enter_context:
  assumes "isr_enter entry irq code (c, m) = (c1, m1)"
  shows "ctx_at m1 (esp c1) =
    \<lparr>ctx_edi = edi c, ctx_esi = esi c, ctx_ebp = ebp c, ctx_esp = esp c - 20, ctx_ebx = ebx c, ctx_edx = edx c, ctx_ecx = ecx c,
     ctx_eax = eax c, ctx_irq = irq, ctx_error = (case code of None \<Rightarrow> 0 | Some e \<Rightarrow> e), ctx_eip = eip c, ctx_cs = seg_cs c,
     ctx_eflags = eflags c\<rparr>"
  using assms by (auto simp: enter_defs ctx_at_def Let_def half_ucast split: option.splits)

lemma isr_enter_masked: "isr_enter entry irq code cm = (c1, m1) \<Longrightarrow> \<not> interruptible c1 \<and> eip c1 = entry"
  by (auto simp: enter_defs interruptible_def flag_IF bit_simps Let_def split: option.splits prod.splits)

text \<open>The way back, from a state in which the frame is as it was: the context decides every register.\<close>

lemma restore_context:
  assumes "isr_restore (c, m) = (c', m')"
  shows "m' = m" and "c' = (let x = ctx_at m (esp c) in
    \<lparr>eax = ctx_eax x, ebx = ctx_ebx x, ecx = ctx_ecx x, edx = ctx_edx x, esi = ctx_esi x, edi = ctx_edi x, ebp = ctx_ebp x,
     esp = esp c + 52, eip = ctx_eip x, eflags = ctx_eflags x, seg_cs = ctx_cs x\<rparr>)"
  using assms by (auto simp: isr_restore_def ctx_at_def Let_def)

lemma ctx_cong:
  assumes "\<And>i. i < 13 \<Longrightarrow> m2 (p + 4 * of_nat i) = m1 (p + 4 * of_nat i)"
  shows "ctx_at m2 p = ctx_at m1 p"
  using assms [of 0] assms [of 1] assms [of 2] assms [of 3] assms [of 4] assms [of 5] assms [of 6] assms [of 7] assms [of 8]
    assms [of 9] assms [of 10] assms [of 11] assms [of 12]
  by (simp add: ctx_at_def)

lemma interrupt_roundtrip:
  assumes "isr_enter entry irq code (c, m) = (c1, m1)" and "\<And>i. i < 13 \<Longrightarrow> m2 (esp c1 + 4 * of_nat i) = m1 (esp c1 + 4 * of_nat i)"
    and "isr_restore (c2\<lparr>esp := esp c1\<rparr>, m2) = (c', m')"
  shows "c' = c"
proof -
  have x: "ctx_at m2 (esp c1) = ctx_at m1 (esp c1)"
    by (rule ctx_cong) (rule assms(2))
  have e: "esp c1 + 52 = esp c" using isr_enter_stack(1) [OF assms(1)] by simp
  show ?thesis
    using restore_context(2) [OF assms(3)] e unfolding x by (cases c) (simp add: x isr_enter_context [OF assms(1)] Let_def)
qed

section \<open>Giving up\<close>

text \<open>\<open>abort\<close> prints and loops; the output is what it leaves on the console.\<close>

definition abort :: "outp \<Rightarrow> outp result" where
  "abort out = kprintf (map of_char ''kernel panic!'' @ [0x0a]) [] out"

text \<open>The failing branch of the macro \<open>assert\<close>, with the text of the expression, the file and the line.\<close>

definition assert_failed :: "u8 list \<Rightarrow> u8 list \<Rightarrow> u32 \<Rightarrow> outp \<Rightarrow> outp result" where
  "assert_failed x file line out =
     rbind (kprintf (map of_char ''assertion \"%s\" failed: file \"%s\", line %d'' @ [0x0a]) [VStr x, VStr file, VInt line] out) abort"

text \<open>The handler of an interrupt without one: it clears the screen, prints the context and halts with interrupts masked.\<close>

definition unhandled :: "interrupt_context \<Rightarrow> text_buffer \<times> outp \<Rightarrow> (text_buffer \<times> outp) result" where
  "unhandled ctx = (\<lambda>(tb, out).
     let tb = text_buffer_clear tb in
     rbind (kprintf (map of_char ''Unhandled IRQ: %d, error: %08x'' @ [0x0a]) [VInt (ctx_irq ctx), VInt (ctx_error ctx)] out) (\<lambda>out.
       rbind (kprintf (map of_char ''edi: %08x, esi: %08x, ebp: %08x, esp: %08x'' @ [0x0a] @
                       map of_char ''ebx: %08x, edx: %08x, ecx: %08x, eax: %08x'' @ [0x0a])
               [VInt (ctx_edi ctx), VInt (ctx_esi ctx), VInt (ctx_ebp ctx), VInt (ctx_esp ctx),
                VInt (ctx_ebx ctx), VInt (ctx_edx ctx), VInt (ctx_ecx ctx), VInt (ctx_eax ctx)] out) (\<lambda>out.
         rbind (kprintf (map of_char ''eip: %08x, cs: %04x, eflags: %08x'' @ [0x0a])
                 [VInt (ctx_eip ctx), VInt (ucast (ctx_cs ctx)), VInt (ctx_eflags ctx)] out) (\<lambda>out.
           Ok (tb, out)))))"

text \<open>What stands on the console after each of them.\<close>

definition say :: "string \<Rightarrow> int list" where
  "say s = map uint (map of_char s :: u8 list)"

definition hex_field :: "nat \<Rightarrow> u32 \<Rightarrow> int list" where
  "hex_field w v = padded True w (uns_chars number_table 16 v)"

definition dec_field :: "u32 \<Rightarrow> int list" where
  "dec_field v = map uint (dec_chars (sint v))"

definition context_text :: "interrupt_context \<Rightarrow> int list" where
  "context_text x =
     say ''Unhandled IRQ: '' @ dec_field (ctx_irq x) @ say '', error: '' @ hex_field 8 (ctx_error x) @ [10] @
     say ''edi: '' @ hex_field 8 (ctx_edi x) @ say '', esi: '' @ hex_field 8 (ctx_esi x) @
     say '', ebp: '' @ hex_field 8 (ctx_ebp x) @ say '', esp: '' @ hex_field 8 (ctx_esp x) @ [10] @
     say ''ebx: '' @ hex_field 8 (ctx_ebx x) @ say '', edx: '' @ hex_field 8 (ctx_edx x) @
     say '', ecx: '' @ hex_field 8 (ctx_ecx x) @ say '', eax: '' @ hex_field 8 (ctx_eax x) @ [10] @
     say ''eip: '' @ hex_field 8 (ctx_eip x) @ say '', cs: '' @ hex_field 4 (ucast (ctx_cs x)) @
     say '', eflags: '' @ hex_field 8 (ctx_eflags x) @ [10]"

text \<open>Formats are literal text between directives.\<close>

abbreviation lits :: "string \<Rightarrow> directive list" where
  "lits s \<equiv> map Lit (map of_char s)"

lemma format_text_lits: "format_text (map Lit cs @ ds) ap = map_option ((@) (map uint cs)) (format_text ds ap)"
  by (induction cs) (simp_all add: option.map_comp comp_def option.map_ident)

lemma render_lits: "concat (map render (map Lit cs @ ds)) = cs @ concat (map render ds)"
  by (induction cs) simp_all

abbreviation hex8 :: directive where
  "hex8 \<equiv> Conv Hex True 8 False"

lemma render_fields:
  "render hex8 = map of_char ''%08x''" "render (Conv Hex True 4 False) = map of_char ''%04x''"
  "render (Conv Dec False 0 False) = map of_char ''%d''" "render (Conv Str False 0 False) = map of_char ''%s''"
  by (simp_all add: width_chars_def base_digits.simps number_table_def)

lemma abort_text: "abort out = Ok (out @ say ''kernel panic!'' @ [10])"
  using kprintf_lit [of "map of_char ''kernel panic!'' @ [0x0a]" out] by (simp add: abort_def say_def)

lemma padded_0: "padded z 0 cs = map uint cs"
  by (simp add: padded_def)

lemmas text_simps = format_text_lits padded_0 say_def hex_field_def dec_field_def

lemma assert_failed_text:
  "assert_failed x file line out =
     Ok (out @ say ''assertion \"'' @ map uint x @ say ''\" failed: file \"'' @ map uint file @ say ''\", line '' @ dec_field line @ [10] @
         say ''kernel panic!'' @ [10])"
proof -
  let ?s = "Conv Str False 0 False"
  let ?ds = "lits ''assertion \"'' @ [?s] @ lits ''\" failed: file \"'' @ [?s] @ lits ''\", line '' @ [Conv Dec False 0 False, Lit 0x0a]"
  have r: "concat (map render ?ds) = map of_char ''assertion \"%s\" failed: file \"%s\", line %d'' @ [0x0a]"
    unfolding render_lits map_append concat_append by (simp add: render_fields del: render.simps(5))
  have f: "format_text ?ds [VStr x, VStr file, VInt line] =
      Some (say ''assertion \"'' @ map uint x @ say ''\" failed: file \"'' @ map uint file @ say ''\", line '' @ dec_field line @ [10])"
    unfolding append_Cons append_Nil format_text_lits by (simp add: text_simps del: map_map list.map)
  have "\<forall>d \<in> set ?ds. directive_ok d" by simp
  from kprintf_format [OF f this, of out] show ?thesis
    unfolding r by (simp add: assert_failed_def abort_text)
qed

lemma unhandled_text: "unhandled x (tb, out) = Ok (text_buffer_clear tb, out @ context_text x)"
proof -
  let ?h = "Conv Hex True 4 False"
  let ?d1 = "lits ''Unhandled IRQ: '' @ [Conv Dec False 0 False] @ lits '', error: '' @ [hex8, Lit 0x0a]"
  let ?d2 = "lits ''edi: '' @ [hex8] @ lits '', esi: '' @ [hex8] @ lits '', ebp: '' @ [hex8] @ lits '', esp: '' @ [hex8, Lit 0x0a] @
    lits ''ebx: '' @ [hex8] @ lits '', edx: '' @ [hex8] @ lits '', ecx: '' @ [hex8] @ lits '', eax: '' @ [hex8, Lit 0x0a]"
  let ?d3 = "lits ''eip: '' @ [hex8] @ lits '', cs: '' @ [?h] @ lits '', eflags: '' @ [hex8, Lit 0x0a]"
  have r: "concat (map render ?d1) = map of_char ''Unhandled IRQ: %d, error: %08x'' @ [0x0a]"
    "concat (map render ?d2) = map of_char ''edi: %08x, esi: %08x, ebp: %08x, esp: %08x'' @ [0x0a] @
       map of_char ''ebx: %08x, edx: %08x, ecx: %08x, eax: %08x'' @ [0x0a]"
    "concat (map render ?d3) = map of_char ''eip: %08x, cs: %04x, eflags: %08x'' @ [0x0a]"
    unfolding render_lits map_append concat_append by (simp_all add: render_fields del: render.simps(5))
  have o: "\<forall>d \<in> set ?d1. directive_ok d" "\<forall>d \<in> set ?d2. directive_ok d" "\<forall>d \<in> set ?d3. directive_ok d"
    by simp_all
  have t1: "format_text ?d1 [VInt (ctx_irq x), VInt (ctx_error x)] =
      Some (say ''Unhandled IRQ: '' @ dec_field (ctx_irq x) @ say '', error: '' @ hex_field 8 (ctx_error x) @ [10])"
    unfolding append_Cons append_Nil format_text_lits by (simp add: text_simps del: map_map list.map)
  have t2: "format_text ?d2 [VInt (ctx_edi x), VInt (ctx_esi x), VInt (ctx_ebp x), VInt (ctx_esp x),
        VInt (ctx_ebx x), VInt (ctx_edx x), VInt (ctx_ecx x), VInt (ctx_eax x)] =
      Some (say ''edi: '' @ hex_field 8 (ctx_edi x) @ say '', esi: '' @ hex_field 8 (ctx_esi x) @
     say '', ebp: '' @ hex_field 8 (ctx_ebp x) @ say '', esp: '' @ hex_field 8 (ctx_esp x) @ [10] @
     say ''ebx: '' @ hex_field 8 (ctx_ebx x) @ say '', edx: '' @ hex_field 8 (ctx_edx x) @
     say '', ecx: '' @ hex_field 8 (ctx_ecx x) @ say '', eax: '' @ hex_field 8 (ctx_eax x) @ [10])"
    unfolding append_Cons append_Nil format_text_lits by (simp add: text_simps del: map_map list.map)
  have t3: "format_text ?d3 [VInt (ctx_eip x), VInt (ucast (ctx_cs x)), VInt (ctx_eflags x)] =
      Some (say ''eip: '' @ hex_field 8 (ctx_eip x) @ say '', cs: '' @ hex_field 4 (ucast (ctx_cs x)) @
     say '', eflags: '' @ hex_field 8 (ctx_eflags x) @ [10])"
    unfolding append_Cons append_Nil format_text_lits by (simp add: text_simps del: map_map list.map)
  note k = kprintf_format [OF t1 o(1), unfolded r(1)] kprintf_format [OF t2 o(2), unfolded r(2)] kprintf_format [OF t3 o(3), unfolded r(3)]
  show ?thesis unfolding unhandled_def Let_def prod.case k rbind.simps by (simp add: context_text_def)
qed

end
