(* ===== verification/Boot.thy ===== *)
theory Boot
  imports Startup Entry
begin

text \<open>
  The first instructions of the kernel, \<open>src/arch/i386/boot/multiboot.S\<close>.  The boot loader enters at \<open>_start\<close> with the address of its
  information in \<open>ebx\<close>.  The code fills the stack of the idle thread with the pattern that \<open>stack_check_size\<close> looks for, by a
  string move that overlaps itself, switches to that stack, clears the flags, copies the three words of the information that the
  kernel uses onto it and calls \<open>main\<close> with their address.  Memory is words at addresses that are multiples of four.

  Shown: \<open>main\<close> gets the loader's information, runs with interrupts masked and has the whole of the idle stack but the five words pushed
  here marked as unused.
\<close>

section \<open>Definitions\<close>

text \<open>\<open>rep; movsl\<close> with the direction flag clear.\<close>

function rep_movsl :: "cpu \<times> wmem \<Rightarrow> cpu \<times> wmem" where
  "rep_movsl cm =
     (case cm of (c, m) \<Rightarrow>
        if ecx c = 0 then (c, m)
        else rep_movsl (c\<lparr>esi := esi c + 4, edi := edi c + 4, ecx := ecx c - 1\<rparr>, m(edi c := m (esi c))))"
  by pat_completeness auto
termination
  by (relation "measure (\<lambda>(c, m). unat (ecx c))") (auto simp: unat_minus_one unat_gt_0)

declare rep_movsl.simps [simp del]

text \<open>\<open>_start\<close> up to the first instruction of \<open>main\<close>; \<open>bottom\<close> is the label \<open>idle_stack_bottom\<close>, \<open>ret\<close> the return address of the call.\<close>

definition boot_start :: "u32 \<Rightarrow> u32 \<Rightarrow> u32 \<Rightarrow> cpu \<times> wmem \<Rightarrow> cpu \<times> wmem" where
  "boot_start bottom ret main_addr cm =
     (case cm of (c, m) \<Rightarrow>
        (let m = m(bottom := STACK_FILL);
             c = c\<lparr>esi := bottom\<rparr>;
             c = c\<lparr>ecx := CONFIG_IDLE_STACK_SIZE\<rparr>;
             c = c\<lparr>ecx := drop_bit 2 (ecx c)\<rparr>;
             c = c\<lparr>ecx := ecx c - 1\<rparr>;
             c = c\<lparr>edi := esi c + 4\<rparr>;
             (c, m) = rep_movsl (c, m);
             c = c\<lparr>esp := bottom + CONFIG_IDLE_STACK_SIZE\<rparr>;
             (c, m) = push_word 0 (c, m);
             c = c\<lparr>eflags := m (esp c), esp := esp c + 4\<rparr>;
             (c, m) = push_word (m (ebx c + 8)) (c, m);
             (c, m) = push_word (m (ebx c + 4)) (c, m);
             (c, m) = push_word (m (ebx c)) (c, m);
             c = c\<lparr>eax := esp c\<rparr>;
             (c, m) = push_word (eax c) (c, m);
             (c, m) = push_word ret (c, m)
         in (c\<lparr>eip := main_addr\<rparr>, m)))"

definition info_at :: "wmem \<Rightarrow> u32 \<Rightarrow> multiboot_info" where
  "info_at m p = \<lparr>mb_flags = m p, mem_lower = m (p + 4), mem_upper = m (p + 8)\<rparr>"

text \<open>\<open>main\<close> finds its argument above the return address.\<close>

definition boot :: "start_env \<Rightarrow> u32 \<Rightarrow> u32 \<Rightarrow> (ksys \<Rightarrow> ksys result) list \<Rightarrow> cpu \<times> wmem \<Rightarrow> board \<Rightarrow> board result" where
  "boot env ret main_addr apps cm b =
     (let (c, m) = boot_start (se_idle_stack env) ret main_addr cm in main env (info_at m (m (esp c + 4))) apps b)"

text \<open>
  What the code after the call would show if \<open>main\<close> returned: every cell of the screen gets a blue background, and a message stands at
  the beginning of the first line.
\<close>

definition HANG_MSG :: "u8 list" where
  "HANG_MSG = map of_char ''HANG!''"

definition hang_screen :: "(nat \<Rightarrow> u16) \<Rightarrow> nat \<Rightarrow> u16" where
  "hang_screen cells =
     (let cells = (\<lambda>i. if i < 2000 then cells i AND 0xfff OR 0x1000 else cells i)
      in (\<lambda>i. if i < length HANG_MSG then 0x1400 OR ucast (HANG_MSG ! i) else cells i))"

section \<open>The stack is filled\<close>

text \<open>The overlapping move repeats the first word.\<close>

lemma rep_movsl_fill:
  assumes "rep_movsl (c, m) = (c', m')" and "edi c = esi c + 4" and "m (esi c) = v" and "unat (ecx c) = n" and "n < 2 ^ 20"
  shows "m' = (\<lambda>a. if \<exists>i \<in> {1..n}. a = esi c + 4 * of_nat i then v else m a)" and "ebx c' = ebx c"
proof -
  have "m' = (\<lambda>a. if \<exists>i \<in> {1..n}. a = esi c + 4 * of_nat i then v else m a) \<and> ebx c' = ebx c"
    using assms
  proof (induction n arbitrary: c m)
    case 0
    then have "ecx c = 0" by (simp add: unat_eq_0)
    with 0(1) have "c' = c" "m' = m" by (simp_all add: rep_movsl.simps [of "(c, m)"])
    then show ?case by (simp add: fun_eq_iff)
  next
    case (Suc n)
    then have z: "ecx c \<noteq> 0" by auto
    let ?c = "c\<lparr>esi := esi c + 4, edi := edi c + 4, ecx := ecx c - 1\<rparr>" and ?m = "m(edi c := m (esi c))"
    have r: "rep_movsl (?c, ?m) = (c', m')" using Suc.prems(1) z by (simp add: rep_movsl.simps [of "(c, m)"])
    have n: "unat (ecx ?c) = n" using Suc.prems(4) z by (simp add: unat_minus_one)
    have "m' = (\<lambda>a. if \<exists>i \<in> {1..n}. a = esi ?c + 4 * of_nat i then v else ?m a) \<and> ebx c' = ebx ?c"
      by (rule Suc.IH [OF r _ _ n]) (use Suc.prems(2,3,5) in auto)
    moreover have "(\<exists>i \<in> {1..Suc n}. a = esi c + 4 * of_nat i) \<longleftrightarrow> a = esi c + 4 \<or> (\<exists>i \<in> {1..n}. a = esi c + 4 + 4 * of_nat i)" for a
    proof -
      have e: "{1..Suc n} = insert 1 (Suc ` {1..n})" by (auto simp: image_Suc_atLeastAtMost)
      show ?thesis unfolding e by (simp add: algebra_simps del: image_Suc_atLeastAtMost)
    qed
    ultimately show ?case using Suc.prems(2,3) by (auto simp: fun_eq_iff)
  qed
  then show "m' = (\<lambda>a. if \<exists>i \<in> {1..n}. a = esi c + 4 * of_nat i then v else m a)" and "ebx c' = ebx c" by blast+
qed

section \<open>What \<open>main\<close> finds\<close>

lemma cell_eq:
  assumes "i < 256" and "j < 256"
  shows "a + 4 * of_nat i = a + 4 * (of_nat j :: u32) \<longleftrightarrow> i = j"
proof
  assume "a + 4 * of_nat i = a + 4 * (of_nat j :: u32)"
  then have "of_nat (4 * i) = (of_nat (4 * j) :: u32)" by simp
  moreover have k: "unat (of_nat k :: u32) = k" if "k < 1024" for k
    using that by (simp add: unat_of_nat take_bit_nat_eq_self)
  have "unat (of_nat (4 * i) :: u32) = 4 * i" "unat (of_nat (4 * j) :: u32) = 4 * j" by (rule k, use assms in simp)+
  ultimately show "i = j" by (metis mult_left_cancel zero_neq_numeral)
qed simp

lemma cell_in:
  assumes "i < 256" and "n \<le> 256"
  shows "(\<exists>j<n. a + 4 * of_nat i = a + 4 * (of_nat j :: u32)) = (i < n)"
proof
  assume "\<exists>j<n. a + 4 * of_nat i = a + 4 * (of_nat j :: u32)"
  then obtain k where k: "k < n" "a + 4 * of_nat i = a + 4 * (of_nat k :: u32)" by blast
  then have "i = k" using cell_eq [OF assms(1), of k a] assms(2) by simp
  with k(1) show "i < n" by simp
qed blast

definition outside :: "u32 \<Rightarrow> u32 \<Rightarrow> bool" where
  "outside bottom a \<longleftrightarrow> (\<forall>i < 256. a \<noteq> bottom + 4 * of_nat i)"

lemma boot_start_memory:
  assumes "boot_start bottom ret main_addr (c, m) = (c', m')"
    and "outside bottom (ebx c)" and "outside bottom (ebx c + 4)" and "outside bottom (ebx c + 8)"
  shows "esp c' = bottom + 4 * of_nat 251" and "eflags c' = 0" and "eip c' = main_addr"
    and "m' = (\<lambda>a. if \<exists>i<251. a = bottom + 4 * of_nat i then STACK_FILL
        else if a = bottom + 4 * of_nat 251 then ret
        else if a = bottom + 4 * of_nat 252 then bottom + 4 * of_nat 253
        else if a = bottom + 4 * of_nat 253 then m (ebx c)
        else if a = bottom + 4 * of_nat 254 then m (ebx c + 4)
        else if a = bottom + 4 * of_nat 255 then m (ebx c + 8)
        else m a)"
proof -
  let ?c = "c\<lparr>esi := bottom, ecx := 255, edi := bottom + 4\<rparr>" and ?m = "m(bottom := STACK_FILL)"
  obtain c1 m1 where r: "rep_movsl (?c, ?m) = (c1, m1)" by fastforce
  have u: "unat (ecx ?c) = 255" by simp
  from rep_movsl_fill [OF r _ _ u] have m1: "m1 = (\<lambda>a. if \<exists>i \<in> {1..255}. a = bottom + 4 * of_nat i then STACK_FILL else ?m a)"
    and b: "ebx c1 = ebx c" by simp_all
  have fill: "m1 = (\<lambda>a. if \<exists>i<256. a = bottom + 4 * of_nat i then STACK_FILL else m a)"
  proof
    fix a
    have "(\<exists>i<256. a = bottom + 4 * of_nat i) \<longleftrightarrow> a = bottom \<or> (\<exists>i \<in> {1..255}. a = bottom + 4 * of_nat i)"
    proof -
      have "{..<256::nat} = insert 0 {1..255}" by auto
      then have "(\<exists>i \<in> {..<256::nat}. a = bottom + 4 * of_nat i) \<longleftrightarrow> a = bottom \<or> (\<exists>i \<in> {1..255}. a = bottom + 4 * of_nat i)"
        by simp
      then show ?thesis by auto
    qed
    then show "m1 a = (if \<exists>i<256. a = bottom + 4 * of_nat i then STACK_FILL else m a)" by (simp add: m1)
  qed
  have loader: "m1 (ebx c) = m (ebx c)" "m1 (ebx c + 4) = m (ebx c + 4)" "m1 (ebx c + 8) = m (ebx c + 8)"
    using assms(2-4) by (auto simp: fill outside_def)
  have ne: "ebx c + 4 \<noteq> bottom + 1020" "ebx c \<noteq> bottom + 1020" "ebx c + 8 \<noteq> bottom + 1020"
    "ebx c + 4 \<noteq> bottom + 1016" "ebx c \<noteq> bottom + 1016"
    using assms(2-4) [unfolded outside_def, rule_format, of 255] assms(2-4) [unfolded outside_def, rule_format, of 254] by simp_all
  have d: "drop_bit 2 (1024 :: u32) = 256" by (simp add: drop_bit_eq_div)
  have bs: "boot_start bottom ret main_addr (c, m) =
      (c1\<lparr>esp := bottom + 1004, eflags := 0, eax := bottom + 1012, eip := main_addr\<rparr>,
       m1(bottom + 1020 := m (ebx c + 8), bottom + 1016 := m (ebx c + 4), bottom + 1012 := m (ebx c), bottom + 1008 := bottom + 1012,
          bottom + 1004 := ret))"
    using r loader ne b d by (simp add: boot_start_def push_word_def CONFIG_IDLE_STACK_SIZE_def Let_def add.commute)
  with assms(1) have c': "c' = c1\<lparr>esp := bottom + 1004, eflags := 0, eax := bottom + 1012, eip := main_addr\<rparr>"
    and m': "m' = m1(bottom + 1020 := m (ebx c + 8), bottom + 1016 := m (ebx c + 4), bottom + 1012 := m (ebx c),
      bottom + 1008 := bottom + 1012, bottom + 1004 := ret)"
    by simp_all
  show "esp c' = bottom + 4 * of_nat 251" and "eflags c' = 0" and "eip c' = main_addr" by (simp_all add: c')
  show "m' = (\<lambda>a. if \<exists>i<251. a = bottom + 4 * of_nat i then STACK_FILL
        else if a = bottom + 4 * of_nat 251 then ret
        else if a = bottom + 4 * of_nat 252 then bottom + 4 * of_nat 253
        else if a = bottom + 4 * of_nat 253 then m (ebx c)
        else if a = bottom + 4 * of_nat 254 then m (ebx c + 4)
        else if a = bottom + 4 * of_nat 255 then m (ebx c + 8)
        else m a)" (is "_ = ?f")
  proof
    fix a
    show "m' a = ?f a"
    proof (cases "\<exists>i<256. a = bottom + 4 * of_nat i")
      case True
      then obtain i where i: "i < 256" "a = bottom + 4 * of_nat i" by blast
      have j: "a = bottom + 1020 \<longleftrightarrow> i = 255" "a = bottom + 1016 \<longleftrightarrow> i = 254" "a = bottom + 1012 \<longleftrightarrow> i = 253"
        "a = bottom + 1008 \<longleftrightarrow> i = 252" "a = bottom + 1004 \<longleftrightarrow> i = 251"
        using cell_eq [OF i(1), of 255 bottom] cell_eq [OF i(1), of 254 bottom] cell_eq [OF i(1), of 253 bottom]
          cell_eq [OF i(1), of 252 bottom] cell_eq [OF i(1), of 251 bottom] by (simp_all add: i(2))
      have l: "(\<exists>j<251. a = bottom + 4 * of_nat j) = (i < 251)" unfolding i(2) by (rule cell_in) (use i(1) in auto)
      show ?thesis unfolding m' fill l using True j i(1) by auto
    next
      case False
      then have n: "a \<noteq> bottom + 4 * of_nat i" if "i < 256" for i using that by blast
      have f: "(\<exists>i<251. a = bottom + 4 * of_nat i) = False" "(\<exists>i<256. a = bottom + 4 * of_nat i) = False" using n by auto
      from n [of 255] n [of 254] n [of 253] n [of 252] n [of 251] show ?thesis unfolding m' fill by (simp only: fun_upd_apply f if_False) simp
    qed
  qed
qed

text \<open>The words of the idle stack, from its bottom, as \<open>stack_check_size\<close> sees them.\<close>

definition idle_stack :: "wmem \<Rightarrow> u32 \<Rightarrow> u32 list" where
  "idle_stack m bottom = map (\<lambda>i. m (bottom + 4 * of_nat i)) [0..<256]"

lemma boot_start_spec:
  assumes "boot_start bottom ret main_addr (c, m) = (c', m')"
    and "outside bottom (ebx c)" and "outside bottom (ebx c + 4)" and "outside bottom (ebx c + 8)"
  shows "info_at m' (m' (esp c' + 4)) = info_at m (ebx c)" and "\<not> interruptible c'" and "m' (esp c') = ret"
    and "stack_check_size (idle_stack m' bottom) \<le> 20" and "outside bottom a \<Longrightarrow> m' a = m a"
proof -
  note b = boot_start_memory [OF assms]
  have cell: "m' (bottom + 4 * of_nat i) =
     (if i < 251 then STACK_FILL else if i = 251 then ret else if i = 252 then bottom + 4 * of_nat 253 else if i = 253 then m (ebx c)
      else if i = 254 then m (ebx c + 4) else m (ebx c + 8))" if "i < 256" for i
  proof -
    have l: "(\<exists>j<251. bottom + 4 * of_nat i = bottom + 4 * (of_nat j :: u32)) = (i < 251)" by (rule cell_in) (use that in auto)
    show ?thesis
      unfolding b(4) l cell_eq [OF that] using that cell_eq [OF that, of 251 bottom] cell_eq [OF that, of 252 bottom]
        cell_eq [OF that, of 253 bottom] cell_eq [OF that, of 254 bottom] cell_eq [OF that, of 255 bottom]
      by (cases "i = 255") (simp_all del: of_nat_numeral)
  qed
  have e: "m' (esp c' + 4) = bottom + 1012" using cell [of 252] by (simp add: b(1) add.assoc)
  show "info_at m' (m' (esp c' + 4)) = info_at m (ebx c)"
    unfolding e using cell [of 253] cell [of 254] cell [of 255] by (simp add: info_at_def add.commute)
  show "\<not> interruptible c'" by (simp add: interruptible_def b(2))
  show "m' (esp c') = ret" using cell [of 251] by (simp add: b(1))
  have "idle_stack m' bottom = replicate 251 STACK_FILL @ map (\<lambda>i. m' (bottom + 4 * of_nat i)) [251..<256]"
  proof -
    have u: "[0..<256] = [0..<251] @ [251..<256::nat]" using upt_add_eq_append [of 0 251 5] by simp
    have "map (\<lambda>i. m' (bottom + 4 * of_nat i)) [0..<251] = replicate 251 STACK_FILL" by (rule nth_equalityI) (simp_all add: cell)
    then show ?thesis unfolding idle_stack_def u map_append by simp
  qed
  then show "stack_check_size (idle_stack m' bottom) \<le> 20"
    using length_dropWhile_le [of "\<lambda>w. w = STACK_FILL" "map (\<lambda>i. m' (bottom + 4 * of_nat i)) [251..<256]"]
    by (simp add: stack_check_size_def dropWhile_append)
  show "m' a = m a" if "outside bottom a"
  proof -
    have n: "a \<noteq> bottom + 4 * of_nat i" if "i < 256" for i using that \<open>outside bottom a\<close> by (simp add: outside_def)
    have f: "(\<exists>i<251. a = bottom + 4 * of_nat i) = False" using n by auto
    from n [of 251] n [of 252] n [of 253] n [of 254] n [of 255] show ?thesis unfolding b(4) f by simp
  qed
qed

text \<open>So booting is \<open>main\<close> on the loader's information.\<close>

lemma boot_main:
  assumes "outside (se_idle_stack env) (ebx c)" and "outside (se_idle_stack env) (ebx c + 4)" and "outside (se_idle_stack env) (ebx c + 8)"
  shows "boot env ret main_addr apps (c, m) b = main env (info_at m (ebx c)) apps b"
proof -
  obtain c' m' where s: "boot_start (se_idle_stack env) ret main_addr (c, m) = (c', m')" by fastforce
  from boot_start_spec(1) [OF s assms] s show ?thesis by (simp add: boot_def)
qed

text \<open>The message of the code behind \<open>main\<close> is readable on every screen: text, and the colours of the other cells.\<close>

lemma hang_screen_cells:
  "i < 5 \<Longrightarrow> hang_screen cells i = 0x1400 OR ucast (HANG_MSG ! i)"
  "5 \<le> i \<Longrightarrow> i < 2000 \<Longrightarrow> drop_bit 12 (hang_screen cells i) = 1 \<and> take_bit 12 (hang_screen cells i) = take_bit 12 (cells i)"
proof -
  have l: "length HANG_MSG = 5" by (simp add: HANG_MSG_def)
  show "i < 5 \<Longrightarrow> hang_screen cells i = 0x1400 OR ucast (HANG_MSG ! i)" by (simp add: hang_screen_def Let_def l)
  show "5 \<le> i \<Longrightarrow> i < 2000 \<Longrightarrow> drop_bit 12 (hang_screen cells i) = 1 \<and> take_bit 12 (hang_screen cells i) = take_bit 12 (cells i)"
  proof
    assume i: "5 \<le> i" "i < 2000"
    have h: "hang_screen cells i = cells i AND mask 12 OR push_bit 12 1"
      using i by (simp add: hang_screen_def Let_def l mask_eq_exp_minus_1 push_bit_eq_mult)
    show "drop_bit 12 (hang_screen cells i) = 1" unfolding h by (rule bit_word_eqI) (auto simp: bit_simps)
    show "take_bit 12 (hang_screen cells i) = take_bit 12 (cells i)" unfolding h by (rule bit_word_eqI) (auto simp: bit_simps)
  qed
qed

end
