(* ===== verification/Inherit.thy ===== *)
theory Inherit
  imports Frame
begin

text \<open>
  Priority inheritance at the level of the mutex operations: if every thread's effective priority is
  the maximum of its own and those of the threads waiting for its mutexes, it is so again after a thread blocks on
  a mutex, after a waiter takes a mutex over, and after a mutex is released.
\<close>

lemma pi_ok_sched: "sched_frame s s' \<Longrightarrow> pi_ok s' x = pi_ok s x"
proof -
  assume f: "sched_frame s s'"
  have "inherited s' x = inherited s x" by (rule inherited_cong) (simp_all add: sched_frameD [OF f])
  then show ?thesis by (simp add: pi_ok_def sched_frameD [OF f])
qed

lemma pi_ok_state [simp]: "pi_ok (set_state t st s) x = pi_ok s x"
proof -
  have "inherited (set_state t st s) x = inherited s x" by (rule inherited_cong) auto
  then show ?thesis by (simp add: pi_ok_def)
qed

lemma inherited_mutexes:
  assumes "\<And>m. m \<in> set (mutex_queue (threads s x)) \<Longrightarrow> wq (mutexes s' m) = wq (mutexes s m)"
    and "mutex_queue (threads s' x) = mutex_queue (threads s x)" and "priority (threads s' x) = priority (threads s x)"
    and "\<And>t. effective_priority (threads s' t) = effective_priority (threads s t)"
  shows "inherited s' x = inherited s x"
proof -
  have "map (\<lambda>m. wq (mutexes s' m)) (mutex_queue (threads s x)) = map (\<lambda>m. wq (mutexes s m)) (mutex_queue (threads s x))"
    using assms(1) by simp
  then show ?thesis unfolding inherited_eq assms(2-4) by (rule arg_cong)
qed

lemma pi_ok_lockword [simp]: "pi_ok (upd_mx m (lock_update f) s) x = pi_ok s x"
proof -
  have "inherited (upd_mx m (lock_update f) s) x = inherited s x" by (rule inherited_mutexes) auto
  then show ?thesis by (simp add: pi_ok_def)
qed

text \<open>Blocking: the whole chain of owners inherits.\<close>

lemma lock_pi:
  assumes "kinv s" and "pthread_current s = c" and "sleep_on (threads s c) = None" and "\<And>x. pi_ok s x"
    and "chain (lock_waiting c m s) c xs" and "pthread_mutex_lock m s = Ok (False, s')"
  shows "pi_ok s' x"
proof -
  let ?w = "lock_waiting c m s"
  note inv = mx_invD [OF kinvD(4) [OF assms(1)]]
  have kw: "kinv ?w" by (rule kinv_lock_waiting [OF assms(1-3)])
  from lock_sp(2) [OF assms(6)] assms(2) have nd: "lock (mutexes s m) \<noteq> 1"
    "\<not> (mtype (mutexes s m) = PTHREAD_MUTEX_RECURSIVE_NP \<and> owner (mutexes s m) = Some c)"
    by auto
  with assms(2,6) obtain s1 where s1: "pthread_spread SPREAD_FUEL c ?w = Ok s1" and l: "pthread_mutex_lock_loop m s1 = Ok (False, s')"
    by (auto simp: pthread_mutex_lock_def Let_def result_simps lock_waiting_def split: if_splits)
  from nd mutex_free [OF inv(3)] obtain o' where own: "owner (mutexes s m) = Some o'" by auto
  have other: "pi_ok ?w y" if "blocker ?w c \<noteq> Some y" for y
  proof -
    have "y \<noteq> o'" using that own by (auto simp: blocker_def lock_waiting_def)
    then have "m \<notin> set (mutex_queue (threads s y))" using inv(1) own by (metis option.inject)
    then have "inherited ?w y = inherited s y" by (intro inherited_mutexes) (auto simp: lock_waiting_def)
    with assms(4) [of y] show ?thesis by (auto simp: pi_ok_def lock_waiting_def)
  qed
  have p1: "pi_ok s1 y" for y
    by (rule spread_pi [OF ksched_prio_wf [OF kinvD(2) [OF kw]] mx_inv_links [OF kinvD(4) [OF kw]] assms(5) s1 other])
  have "lock (mutexes s1 m) \<noteq> 1" using sp_frameD(7) [OF spread_sp [OF s1]] nd by (simp add: lock_waiting_def)
  with l have "schedule (set_state (pthread_current s1) PTHREAD_STATE_SLEEPING (upd_mx m (lock_update (\<lambda>_. -1)) s1)) = Ok s'"
    by (auto simp: pthread_mutex_lock_loop_def Let_def result_simps)
  from pi_ok_sched [OF schedule_frame [OF this]] p1 show ?thesis by simp
qed

lemma setschedprio_unblocked_pi:
  assumes "kinv s \<or> ksched s \<and> mx_links s" and "sleep_on (threads s c) = None" and "\<And>x. x \<noteq> c \<Longrightarrow> pi_ok s x"
    and "pthread_setschedprio_locked n c s = Ok s'"
  shows "pi_ok s' x"
proof -
  have "prio_wf s" "mx_links s" using assms(1) ksched_prio_wf kinvD(2,4) mx_inv_links by blast+
  moreover have "chain s c []" "blocker s c \<noteq> Some x" using assms(2) by (simp_all add: blocker_def)
  ultimately show ?thesis using setschedprio_pi [OF _ _ _ assms(4)] assms(3) by blast
qed

text \<open>Releasing.\<close>

lemma unlock_pi:
  assumes "kpre s" and "m \<in> set (mutex_queue (threads s (pthread_current s)))" and "sleep_on (threads s (pthread_current s)) = None"
    and "\<And>x. pi_ok s x" and "pthread_mutex_unlock m s = Ok s'"
  shows "pi_ok s' x"
proof (cases "recursive_count (mutexes s m) = 1")
  case False
  with unlock_sp [OF assms(5)] have "s' = upd_mx m (recursive_count_update (\<lambda>c. c - 1)) s" by simp
  moreover have "inherited (upd_mx m (recursive_count_update (\<lambda>c. c - 1)) s) x = inherited s x" by (rule inherited_mutexes) auto
  ultimately show ?thesis using assms(4) [of x] by (simp add: pi_ok_def)
next
  case True
  let ?c = "pthread_current s" and ?s = "lock_released m s"
  have mx: "mx_inv s" using assms(1) by (simp add: kpre_def)
  with True assms obtain s1 s2 where s1: "pthread_setschedprio_locked SPREAD_FUEL ?c ?s = Ok s1"
    and s2: "(case wake_chosen m s of None \<Rightarrow> Ok s1 | Some t \<Rightarrow> pthread_set_running t s1) = Ok s2" and s': "schedule s2 = Ok s'"
    by (auto simp: pthread_mutex_unlock_def Let_def result_simps lock_released_def wake_chosen_def split: if_splits)
  have other: "pi_ok ?s y" if "y \<noteq> ?c" for y
  proof -
    have "m \<notin> set (mutex_queue (threads s y))" using mx_invD(1) [OF mx, of m] assms(2) that by (metis option.inject)
    then have "inherited ?s y = inherited s y" using that by (intro inherited_mutexes) (auto simp: lock_released_def)
    with assms(4) [of y] that show ?thesis by (simp add: pi_ok_def lock_released_def)
  qed
  have "ksched ?s" using assms(1) by (simp add: kpre_def ksched_def lock_released_def)
  moreover have "mx_links ?s"
    using mx_inv_lock_released(1,2) [OF mx assms(2) True] by (auto simp: mx_owned_def mx_waits_def mx_links_def)
  ultimately have p1: "pi_ok s1 y" for y
    using setschedprio_unblocked_pi [OF _ _ other s1] assms(3) by (simp add: lock_released_def)
  have "pi_ok s2 x"
  proof (cases "wake_chosen m s")
    case (Some t)
    with s2 have "sched_frame (set_state t PTHREAD_STATE_RUNNING s1) s2"
      by (auto simp: pthread_set_running_def Let_def split: if_splits dest: enqueue_result(7))
    from pi_ok_sched [OF this] p1 show ?thesis by simp
  qed (use s2 p1 in simp)
  with pi_ok_sched [OF schedule_frame [OF s']] show ?thesis by simp
qed

text \<open>A waiter taking the mutex over.\<close>

lemma loop_pi:
  assumes "kinv s" and "pthread_current s = c" and "sleep_on (threads s c) = Some m" and "\<And>x. pi_ok s x"
    and "pthread_mutex_lock_loop m s = Ok (True, s')"
  shows "pi_ok s' x"
proof -
  let ?s = "lock_taken m s"
  note mx = kinvD(4) [OF assms(1)]
  have l: "lock (mutexes s m) = 1"
    using assms(5) by (auto simp: pthread_mutex_lock_loop_def Let_def result_simps split: if_splits)
  with assms(2,5) have s1: "pthread_setschedprio_locked SPREAD_FUEL c ?s = Ok s'"
    by (auto simp: pthread_mutex_lock_loop_def pthread_mutex_lock_finish_def lock_taken_def Let_def result_simps)
  have other: "pi_ok ?s y" if "y \<noteq> c" for y
  proof -
    have "m \<notin> set (mutex_queue (threads s y))" using mx_inv_free(2) [OF mx l] by blast
    then have "inherited ?s y = inherited s y"
      using that assms(2) by (intro inherited_mutexes) (auto simp: lock_taken_def mutex_own_def Let_def)
    with assms(2) assms(4) [of y] that show ?thesis by (simp add: pi_ok_def lock_taken_def mutex_own_def Let_def)
  qed
  have "mx_inv ?s" using mx_inv_lock_taken [OF mx _ l] assms(2,3) by simp
  then have "kinv ?s"
    using kinvD(2,7,9) [OF assms(1)] assms(2)
    by (simp add: kinv_def kpre_def ksched_def) (simp add: lock_taken_def mutex_own_def Let_def)
  moreover have "sleep_on (threads ?s c) = None" using assms(2) by (simp add: lock_taken_def mutex_own_def Let_def)
  ultimately show ?thesis using setschedprio_unblocked_pi [OF _ _ other s1] by blast
qed

end
