(* ===== verification/Scenario.thy ===== *)
theory Scenario
  imports Kernel Inherit
begin

text \<open>
  Runs of the kernel, used to show that the hypotheses of the properties can hold: boot; the idle thread creates
  thread 0 with priority 16, which locks mutex 0 and creates thread 1 with priority 20; thread 1 preempts it
  and blocks on the mutex, so that thread 0 goes on with the inherited priority 20.  In a second run thread 1 locks
  mutex 1 before, and thread 0 raises its priority to 24, releases the mutex and goes on.
\<close>

definition attr_of :: "u8 \<Rightarrow> pthread_attr" where
  "attr_of p = pthread_attr_init\<lparr>attr_priority := p\<rparr>"

text \<open>What the scenes have in common: threads \<open>0..<n\<close> exist, in ordinary code, and run.\<close>

definition scene :: "nat \<Rightarrow> ksys \<Rightarrow> bool" where
  "scene n s \<longleftrightarrow> reachable s \<and> (\<forall>t. thstate s t = (if t < n \<or> t = pthread_idle then PTHREAD_STATE_RUNNING else PTHREAD_STATE_NONE)) \<and>
     fr s = (\<lambda>_. FRun) \<and> n < pthread_idle \<and> eprio s pthread_idle = 0 \<and> ticks s = 0 \<and> active (tctx s) = {} \<and>
     (\<forall>v. cond_wq (conds s v) = []) \<and> (\<forall>t. waiter (threads s t) = None) \<and>
     (\<forall>t<n. th_flags (threads s t) = 0) \<and> (\<forall>m. mtype (mutexes s m) = PTHREAD_MUTEX_FAST_NP) \<and>
     (\<forall>x. pi_ok s x) \<and> (\<forall>m. wq (mutexes s m) = [])"

lemma concat_map_Nil: "(\<And>m. f m = []) \<Longrightarrow> concat (map f ms) = []"
  by simp

lemma scene_free: "scene n s \<Longrightarrow> free_slot s = Some n"
  by (auto simp: scene_def free_slot_def find_Some_iff pthread_idle_def CONFIG_PTHREAD_MAX_NUM_def intro!: exI [of _ n])

lemma scene_boot: "\<exists>s. scene 0 s \<and> pthread_current s = pthread_idle \<and> (\<forall>m. mutexes s m = mx_zero)"
proof -
  from pthread_init_Ok [of 0 1024] obtain s where b: "booted s" by (auto simp: booted_def)
  note f = boot_state [OF b]
  have th: "threads s t = (if t = pthread_idle then threads s pthread_idle else th_zero)" for t
    by (subst f(1)) simp
  have "thstate s t = (if t = pthread_idle then PTHREAD_STATE_RUNNING else PTHREAD_STATE_NONE)" for t
    by (subst th) (simp add: f(2) th_zero_def)
  moreover have "waiter (threads s t) = None" "pi_ok s t" for t
    unfolding pi_ok_def inherited_def by (subst th, simp add: f(4-6,8) th_zero_def)+
  ultimately have "scene 0 s"
    using f reachable.Boot [OF b]
    by (simp add: scene_def pthread_idle_def CONFIG_PTHREAD_MAX_NUM_def tctx_zero_def active_def mx_zero_def)
  with f show ?thesis by auto
qed

text \<open>Creating a thread of a priority above all others: it runs at once.\<close>

lemma scene_create:
  fixes p :: u8
  assumes "scene n s" and "unat p \<le> 31" and "\<And>t. t < n \<Longrightarrow> eprio s t < unat p" and "0 < unat p" and "Suc n < pthread_idle"
  shows "\<exists>s'. scene (Suc n) s' \<and> step s s' \<and> pthread_current s' = n \<and> eprio s' n = unat p \<and> (\<forall>t<n. eprio s' t = eprio s t) \<and>
    mutexes s' = mutexes s \<and> (\<forall>t<n. mutex_queue (threads s' t) = mutex_queue (threads s t)) \<and> mutex_queue (threads s' n) = []"
proof -
  have r: "reachable s" and st: "\<And>t. thstate s t = (if t < n \<or> t = pthread_idle then PTHREAD_STATE_RUNNING else PTHREAD_STATE_NONE)"
    and fr: "fr s = (\<lambda>_. FRun)" and idle: "eprio s pthread_idle = 0"
    using assms(1) by (auto simp: scene_def)
  note k = kernel_okD [OF reachable_ok [OF r]] and free = scene_free [OF assms(1)]
  have clean: "sleep_on (threads s n) = None" "mutex_queue (threads s n) = []"
    using fr_okD(1,5) [OF k(3), of n] st [of n] assms(5) by (auto simp: fr alive_def)
  have ap: "unat (attr_priority (attr_of p)) \<le> 31" using assms(2) by (simp add: attr_of_def)
  from create_spec [OF k(1) free ap clean] obtain s' where s': "pthread_create (attr_of p) s = Ok (E_OK, Some n, s')"
    "kinv s'" "sched_done s'" and f: "sched_frame (set_state n PTHREAD_STATE_RUNNING (upd_th n (create_init (attr_of p)) s)) s'"
    by blast
  have step: "step s s'" by (rule step.Create [OF _ ap s'(1)]) (simp add: fr)
  have sts: "thstate s' t = (if t < Suc n \<or> t = pthread_idle then PTHREAD_STATE_RUNNING else PTHREAD_STATE_NONE)" for t
    using sched_frameD(1) [OF f, of t] st [of t] by auto
  have ep: "eprio s' t = (if t = n then unat p else eprio s t)" for t
    using sched_frameD(2) [OF f, of t] by (simp add: create_init_def attr_of_def)
  have mq: "mutex_queue (threads s' t) = (if t = n then [] else mutex_queue (threads s t))" for t
    using sched_frameD(7) [OF f, of t] by (simp add: create_init_def)
  have more: "kernel.more s' = kernel.more s" using sched_frameD(14) [OF f] by simp
  have rest: "fr s' = fr s" "ticks s' = ticks s" "tctx s' = tctx s" "conds s' = conds s" "mutexes s' = mutexes s"
    using more_fr [OF more] more_tkernel [OF more] sched_frameD(11,12) [OF f] by simp_all
  have wt: "waiter (threads s' t) = (if t = n then None else waiter (threads s t))"
    and fl: "th_flags (threads s' t) = (if t = n then 0 else th_flags (threads s t))" for t
    using sched_frameD(4,5) [OF f, of t] by (simp_all add: create_init_def attr_of_def pthread_attr_init_def)
  have top: "top_prio s' (pthread_current s')" and inv: "sched_inv s'" using s'(3) by (auto simp: sched_done_def)
  have run: "thstate s' (pthread_current s') = PTHREAD_STATE_RUNNING" using top inv by (auto simp: top_prio_def sched_inv_def)
  have "linked s' n" using inv sts [of n] by (auto simp: sched_inv_def)
  then have "unat p \<le> eprio s' (pthread_current s')" using top ep [of n] by (auto simp: top_prio_def)
  with ep [of "pthread_current s'"] run sts [of "pthread_current s'"] assms(3) [of "pthread_current s'"] assms(4) idle have cur: "pthread_current s' = n"
    by (auto split: if_splits simp: less_Suc_eq)
  have pr: "priority (threads s' t) = (if t = n then p else priority (threads s t))" for t
    using sched_frameD(3) [OF f, of t] by (simp add: create_init_def attr_of_def)
  have epw: "effective_priority (threads s' t) = (if t = n then p else effective_priority (threads s t))" for t
    using sched_frameD(2) [OF f, of t] by (simp add: create_init_def attr_of_def)
  have "pi_ok s' x" for x
  proof -
    have "\<And>m. wq (mutexes s m) = []" "pi_ok s x" using assms(1) by (auto simp: scene_def)
    then show ?thesis by (simp add: pi_ok_def inherited_eq rest(5) pr epw concat_map_Nil)
  qed
  then have "scene (Suc n) s'"
    using assms(1,5) reachable.Step [OF r step] sts ep idle wt fl by (auto simp: scene_def rest less_Suc_eq)
  with step cur ep rest mq show ?thesis by auto
qed

text \<open>Taking a free mutex.\<close>

lemma scene_lock:
  assumes "scene n s" and "pthread_current s = c" and "c \<noteq> pthread_idle" and "owner (mutexes s m) = None"
  shows "\<exists>s'. scene n s' \<and> step s s' \<and> pthread_current s' = c \<and> owner (mutexes s' m) = Some c \<and>
    recursive_count (mutexes s' m) = 1 \<and> wq (mutexes s' m) = wq (mutexes s m) \<and>
    mutex_queue (threads s' c) = mutex_queue (threads s c) @ [m] \<and> (\<forall>t. eprio s' t = eprio s t) \<and>
    (\<forall>k. k \<noteq> m \<longrightarrow> mutexes s' k = mutexes s k) \<and> (\<forall>t. t \<noteq> c \<longrightarrow> mutex_queue (threads s' t) = mutex_queue (threads s t))"
proof -
  have r: "reachable s" and fr: "fr s = (\<lambda>_. FRun)" using assms(1) by (auto simp: scene_def)
  note k = kernel_okD [OF reachable_ok [OF r]]
  have l: "lock (mutexes s m) = 1" using mutex_free [OF mx_invD(3) [OF kinvD(4) [OF k(1)]]] assms(4) by simp
  let ?s = "mutex_own m (upd_mx m (lock_update (\<lambda>_. 0)) s)"
  have "pthread_mutex_lock m s = Ok (True, ?s)"
    using l kinvD(5) [OF k(1)] by (simp add: pthread_mutex_lock_def)
  from step.Lock [OF assms(2) _ assms(3) this] have st: "step s ?s"
    by (simp add: fr set_fr_same mutex_own_def Let_def)
  have "\<And>m. wq (mutexes s m) = []" "\<And>x. pi_ok s x" using assms(1) by (auto simp: scene_def)
  then have "pi_ok ?s x" for x by (auto simp: pi_ok_def inherited_eq mutex_own_def Let_def concat_map_Nil)
  then have "scene n ?s"
    using assms(1) reachable.Step [OF r st] unfolding scene_def by (auto simp: mutex_own_def Let_def)
  with st assms(2) show ?thesis by (intro exI [of _ ?s]) (simp add: mutex_own_def Let_def)
qed

text \<open>The scene in which thread 1 runs and thread 0 holds mutex 0.\<close>

lemma scene_preempted:
  "\<exists>s. scene 2 s \<and> pthread_current s = 1 \<and> owner (mutexes s 0) = Some 0 \<and> recursive_count (mutexes s 0) = 1 \<and>
    wq (mutexes s 0) = [] \<and> mutex_queue (threads s 0) = [0] \<and> mutex_queue (threads s 1) = [] \<and> eprio s 0 = 16 \<and> eprio s 1 = 20 \<and>
    (\<forall>m. m \<noteq> 0 \<longrightarrow> mutexes s m = mx_zero)"
proof -
  have i: "pthread_idle = 32" by (simp add: pthread_idle_def CONFIG_PTHREAD_MAX_NUM_def)
  from scene_boot obtain s0 where s0: "scene 0 s0" "\<And>m. mutexes s0 m = mx_zero" by blast
  from scene_create [OF s0(1), of 16] i obtain s1 where s1: "scene 1 s1" "pthread_current s1 = 0" "eprio s1 0 = 16"
    "mutexes s1 = mutexes s0" "mutex_queue (threads s1 0) = []"
    by auto
  from scene_lock [OF s1(1,2), of 0] i s0(2) s1(3-5) obtain s2 where s2: "scene 1 s2" "owner (mutexes s2 0) = Some 0"
    "recursive_count (mutexes s2 0) = 1" "wq (mutexes s2 0) = []" "mutex_queue (threads s2 0) = [0]" "eprio s2 0 = 16"
    "\<And>m. m \<noteq> 0 \<Longrightarrow> mutexes s2 m = mx_zero"
    by (auto simp: mx_zero_def)
  from scene_create [OF s2(1), of 20] i s2 obtain s3 where "scene 2 s3" "pthread_current s3 = 1" "eprio s3 1 = 20" "eprio s3 0 = 16"
    "mutexes s3 = mutexes s2" "mutex_queue (threads s3 0) = [0]" "mutex_queue (threads s3 1) = []"
    by (auto simp: numeral_2_eq_2 [symmetric])
  then show ?thesis using s2 by (intro exI [of _ s3]) simp
qed

lemma no_waiters: "(\<And>m. m \<in> set (mutex_queue (threads s t)) \<Longrightarrow> wq (mutexes s m) = []) \<Longrightarrow> inherited s t = priority (threads s t)"
  by (simp add: inherited_eq concat_map_Nil [where ms = "mutex_queue (threads s t)"] cong: map_cong)

text \<open>Thread 1 blocks on the mutex of thread 0, which goes on with its priority.\<close>

lemma scene_block:
  assumes "scene 2 s" and "pthread_current s = 1" and "owner (mutexes s 0) = Some 0" and "recursive_count (mutexes s 0) = 1"
    and "mutex_queue (threads s 0) = [0]" and "eprio s 0 = 16" and "eprio s 1 = 20" and "\<And>m. owner (mutexes s m) \<noteq> Some 32"
  shows "\<exists>s'. reachable s' \<and> pthread_current s' = 0 \<and> fr s' = (\<lambda>_. FRun)(1 := FLock 0) \<and>
    (\<forall>t. thstate s' t = (if t = 1 then PTHREAD_STATE_SLEEPING else if t = 0 \<or> t = 32 then PTHREAD_STATE_RUNNING else PTHREAD_STATE_NONE)) \<and>
    (\<forall>m. mutexes s' m = (if m = 0 then (mutexes s 0)\<lparr>wq := [1], lock := -1\<rparr> else mutexes s m)) \<and>
    (\<forall>t. mutex_queue (threads s' t) = mutex_queue (threads s t)) \<and> active (tctx s') = {} \<and> ticks s' = 0 \<and>
    (\<forall>x. pi_ok s' x) \<and> unat (priority (threads s' 0)) = 16 \<and> eprio s' 0 = 20 \<and> eprio s' 1 = 20 \<and> eprio s' 32 = 0"
proof -
  have i: "pthread_idle = 32" by (simp add: pthread_idle_def CONFIG_PTHREAD_MAX_NUM_def)
  from assms(1) have r: "reachable s" and fr: "fr s = (\<lambda>_. FRun)" and ty: "mtype (mutexes s 0) = PTHREAD_MUTEX_FAST_NP"
    and st: "\<And>t. thstate s t = (if t < 2 \<or> t = 32 then PTHREAD_STATE_RUNNING else PTHREAD_STATE_NONE)"
    and tc: "active (tctx s) = {}" "ticks s = 0" and pi: "\<And>x. pi_ok s x" and idle: "eprio s 32 = 0" and w: "\<And>m. wq (mutexes s m) = []"
    by (auto simp: scene_def i)
  note k = kernel_okD [OF reachable_ok [OF r]]
  have so: "sleep_on (threads s t) = None" for t using fr_okD(1) [OF k(3), of t] by (simp add: fr)
  have "lock_chain 0 s [0]" using so assms(2,3) by (simp add: lock_chain_def blocker_def lock_waiting_def)
  from mutex_lock_blocks [OF k(1) assms(2) _ so assms(3) _ this] i obtain s' where
    s': "pthread_mutex_lock 0 s = Ok (False, s')" "kinv s'" "sched_done s'"
    by auto
  note sp = lock_sp(1) [OF s'(1)]
  have held: "lock (mutexes s 0) \<noteq> 1" using mutex_free [OF mx_invD(3) [OF kinvD(4) [OF k(1)]]] assms(3) by simp
  have eff: "lock_effect 0 s = lock_asleep 0 (lock_waiting 1 0 s)" using held assms(2,3) by (simp add: lock_effect_def)
  note e = eff lock_asleep_def lock_waiting_def assms(2)
  have more: "kernel.more s' = kernel.more s" using sp_frameD(10) [OF sp] by (simp add: e)
  have mx: "mutexes s' m = (if m = 0 then (mutexes s 0)\<lparr>wq := [1], lock := -1\<rparr> else mutexes s m)" for m
    using sp_frameD(7) [OF sp] w by (simp add: e)
  have st': "thstate s' t = (if t = 1 then PTHREAD_STATE_SLEEPING else if t = 0 \<or> t = 32 then PTHREAD_STATE_RUNNING else PTHREAD_STATE_NONE)"
    and pr: "priority (threads s' t) = priority (threads s t)"
    and mq: "mutex_queue (threads s' t) = mutex_queue (threads s t)" for t
    using sp_frameD(1,2,6) [OF sp, of t] st [of t] by (simp_all add: e)
  have step: "step s (set_fr 1 (FLock 0) s')" using step.Lock [OF assms(2) _ _ s'(1)] i by (simp add: fr)
  have "chain (lock_waiting 1 0 s) 1 [0]" using so assms(3) by (simp add: blocker_def lock_waiting_def)
  note pi' = lock_pi [OF k(1) assms(2) so pi this s'(1)]
  note own = mx_invD(1) [OF kinvD(4) [OF k(1)]]
  have p: "priority (threads s t) = effective_priority (threads s t)" for t
    using pi [of t] no_waiters [of s t] w by (simp add: pi_ok_def)
  have none: "eprio s' t = eprio s t" if "t \<noteq> 0" for t
  proof -
    have "inherited s' t = priority (threads s' t)"
      by (rule no_waiters) (use own [of 0 t] assms(3) that in \<open>auto simp: mq mx w intro!: gr0I\<close>)
    with pi' [of t] show ?thesis by (simp add: pi_ok_def pr p)
  qed
  have e0: "eprio s' 0 = 20"
  proof -
    have ws: "waiters_of s' 0 = {1}" by (simp add: waiters_of_def mq mx assms(5))
    have "inherited s' 0 = effective_priority (threads s 0) \<or> inherited s' 0 = effective_priority (threads s' 1)"
      using inherited_attained [of s' 0] by (simp only: ws pr p) blast
    then have "unat (inherited s' 0) = 16 \<or> unat (inherited s' 0) = 20"
      using assms(6,7) none [of 1] by (elim disjE) simp_all
    moreover have "20 \<le> unat (inherited s' 0)"
      using inherited_ge_waiter [of 1 s' 0] none [of 1] assms(7) by (simp add: ws word_le_nat_alt)
    ultimately show ?thesis using pi' [of 0] by (auto simp: pi_ok_def)
  qed
  have top: "top_prio s' (pthread_current s')" and inv: "sched_inv s'" using s'(3) by (auto simp: sched_done_def)
  have "linked s' 0" using inv st' [of 0] by (simp add: sched_inv_def)
  then have "20 \<le> eprio s' (pthread_current s')" using top e0 by (fastforce simp: top_prio_def)
  moreover have "eprio s' 32 = 0" using none [of 32] idle by simp
  ultimately have "pthread_current s' \<noteq> 32" by auto
  with kinvD(7) [OF s'(2)] st' [of "pthread_current s'"] have cur: "pthread_current s' = 0"
    by (auto split: if_splits)
  have p0: "unat (priority (threads s' 0)) = 16"
    using assms(6) by (simp add: pr p)
  have "pi_ok (set_fr 1 (FLock 0) s') x" for x using pi' [of x] by (simp add: pi_ok_def inherited_eq)
  with reachable.Step [OF r step] cur mx mq st' p0 e0 none [of 1] none [of 32] assms(7) idle more_fr [OF more] more_tkernel [OF more] tc
  show ?thesis by (intro exI [of _ "set_fr 1 (FLock 0) s'"]) (simp add: fr)
qed

lemma scene_blocked:
  "\<exists>s. reachable s \<and> pthread_current s = 0 \<and> fr s 0 = FRun \<and> fr s 1 = FLock 0 \<and> thstate s 1 = PTHREAD_STATE_SLEEPING \<and>
    owner (mutexes s 0) = Some 0 \<and> recursive_count (mutexes s 0) = 1 \<and> lock (mutexes s 0) = -1 \<and> wq (mutexes s 0) = [1] \<and>
    mutex_queue (threads s 0) = [0] \<and> active (tctx s) = {} \<and> ticks s = 0"
proof -
  from scene_preempted obtain s where s: "scene 2 s" "pthread_current s = 1" "owner (mutexes s 0) = Some 0"
    "recursive_count (mutexes s 0) = 1" "mutex_queue (threads s 0) = [0]" "eprio s 0 = 16" "eprio s 1 = 20"
    "\<And>m. m \<noteq> 0 \<Longrightarrow> mutexes s m = mx_zero"
    by blast
  have "owner (mutexes s m) \<noteq> Some 32" for m using s(3) s(8) [of m] by (cases "m = 0") (auto simp: mx_zero_def)
  from scene_block [OF s(1-7) this] obtain s' where "reachable s'" "pthread_current s' = 0" "fr s' = (\<lambda>_. FRun)(1 := FLock 0)"
    "\<forall>t. thstate s' t = (if t = 1 then PTHREAD_STATE_SLEEPING else if t = 0 \<or> t = 32 then PTHREAD_STATE_RUNNING else PTHREAD_STATE_NONE)"
    "\<forall>m. mutexes s' m = (if m = 0 then (mutexes s 0)\<lparr>wq := [1], lock := -1\<rparr> else mutexes s m)"
    "\<forall>t. mutex_queue (threads s' t) = mutex_queue (threads s t)" "active (tctx s') = {}" "ticks s' = 0"
    by blast
  with s(3-5) show ?thesis by (intro exI [of _ s']) simp
qed

text \<open>A thread that raises its own priority above all others goes on.\<close>

lemma raise_own:
  assumes "reachable s" and "pthread_current s = c" and "fr s c = FRun" and "\<And>x. pi_ok s x" and "0 \<le> p" and "p \<le> 31"
    and "priority (threads s c) \<noteq> word_of_int p" and "effective_priority (threads s c) \<noteq> word_of_int p"
    and "\<And>t. t \<noteq> c \<Longrightarrow> thstate s t = PTHREAD_STATE_RUNNING \<Longrightarrow> eprio s t < nat p"
  shows "\<exists>s'. reachable s' \<and> pthread_current s' = c \<and> (\<forall>x. pi_ok s' x) \<and>
    sp_frame (upd_th c (priority_update (\<lambda>_. word_of_int p)) s) s' \<and> (\<forall>t. t \<noteq> c \<longrightarrow> eprio s' t = eprio s t)"
proof -
  note k = kernel_okD [OF reachable_ok [OF assms(1)]]
  let ?s = "upd_th c (priority_update (\<lambda>_. word_of_int p)) s"
  have u: "unat (word_of_int p :: u8) \<le> 31" "uint (word_of_int p :: u8) = p" "unat (word_of_int p :: u8) = nat p"
    using assms(5,6) by (simp_all add: unsigned_of_int take_bit_int_eq_self nat_le_iff)
  have "kinv ?s" by (rule kinv_priority [OF k(1) u(1)])
  note k' = this and wf = ksched_prio_wf [OF kinvD(2) [OF this]]
  have l: "linked ?s c" using kinvD(2) [OF k'] assms(2) by (simp add: ksched_def)
  from setschedprio_linked [OF wf l] obtain s1 where s1: "pthread_setschedprio_locked SPREAD_FUEL c ?s = Ok s1" "prio_step ?s s1"
    by blast
  from kinv_schedule [OF kinvD(1) [OF kinv_prio_step [OF k' s1(2)]]] obtain s' where s': "schedule s1 = Ok s'" "sched_done s'" "kinv s'"
      "sched_frame s1 s'"
    by blast
  have "pthread_setschedprio c p s = Ok s'"
    using assms(7,8) u(2) s1(1) s'(1) by (auto simp: pthread_setschedprio_def Let_def)
  from step.Setprio [OF _ assms(5,6) this] have r: "reachable s'"
    using assms(1-3) by (blast intro: reachable.Step)
  have pi': "pi_ok ?s x" if "x \<noteq> c" for x
  proof -
    have "inherited ?s x = inherited s x" by (rule inherited_cong) (use that in auto)
    with assms(4) [of x] that show ?thesis by (simp add: pi_ok_def)
  qed
  have so: "sleep_on (threads ?s c) = None" using fr_okD(1) [OF k(3), of c] assms(3) by simp
  have pi: "pi_ok s' x" for x
    using setschedprio_unblocked_pi [OF disjI1 [OF k'] so pi' s1(1)] pi_ok_sched [OF s'(4)] by blast
  have sp: "sp_frame ?s s'" using setschedprio_locked_sp [OF s1(1)] schedule_sp [OF s'(1)] by (rule sp_frame_trans)
  have ep: "eprio s' t = eprio s t" if "t \<noteq> c" for t
  proof -
    obtain n where n: "SPREAD_FUEL = Suc n" by (simp add: SPREAD_FUEL_def)
    have "effective_priority (threads s1 t) = effective_priority (threads ?s t)"
      using requeue_spec [OF wf l inherited_le [OF wf, of c]] s1(1) l that by (auto simp: n Let_def split: if_splits)
    with that show ?thesis using sched_frameD(2) [OF s'(4), of t] by simp
  qed
  have "nat p \<le> eprio s' c"
    using inherited_ge_own [of s' c] pi [of c] sp_frameD(2) [OF sp, of c] u(3) by (simp add: pi_ok_def word_le_nat_alt)
  moreover have top: "top_prio s' (pthread_current s')" and inv: "sched_inv s'" using s'(2) by (auto simp: sched_done_def)
  have "thstate s' c = PTHREAD_STATE_RUNNING" using sp_frameD(1) [OF sp, of c] kinvD(7) [OF k(1)] assms(2) by simp
  then have "eprio s' c \<le> eprio s' (pthread_current s')" using top inv by (auto simp: top_prio_def sched_inv_def)
  ultimately have "nat p \<le> eprio s' (pthread_current s')" by simp
  moreover have "thstate s' (pthread_current s') = PTHREAD_STATE_RUNNING" by (rule kinvD(7) [OF s'(3)])
  ultimately have "pthread_current s' = c"
    using assms(9) [of "pthread_current s'"] ep sp_frameD(1) [OF sp, of "pthread_current s'"] by (cases "pthread_current s' = c") auto
  with r pi sp ep show ?thesis by blast
qed

text \<open>Thread 1 owns mutex 1 and sleeps on mutex 0, whose owner, thread 0, has raised its own priority.\<close>

lemma scene_raised:
  "\<exists>s. reachable s \<and> pthread_current s = 0 \<and> fr s = (\<lambda>_. FRun)(1 := FLock 0) \<and> (\<forall>x. pi_ok s x) \<and>
    (\<forall>t. thstate s t = (if t = 1 then PTHREAD_STATE_SLEEPING else if t = 0 \<or> t = 32 then PTHREAD_STATE_RUNNING else PTHREAD_STATE_NONE)) \<and>
    mutex_queue (threads s 0) = [0] \<and> recursive_count (mutexes s 0) = 1 \<and> lock (mutexes s 0) = -1 \<and> wq (mutexes s 0) = [1] \<and>
    (\<forall>m. m \<noteq> 0 \<longrightarrow> wq (mutexes s m) = []) \<and> owner (mutexes s 1) = Some 1 \<and>
    priority (threads s 0) = 24 \<and> eprio s 1 = 20 \<and> eprio s 32 = 0"
proof -
  have i: "pthread_idle = 32" by (simp add: pthread_idle_def CONFIG_PTHREAD_MAX_NUM_def)
  from scene_preempted obtain s where s: "scene 2 s" "pthread_current s = 1" "owner (mutexes s 0) = Some 0"
    "recursive_count (mutexes s 0) = 1" "mutex_queue (threads s 0) = [0]" "eprio s 0 = 16" "eprio s 1 = 20"
    "\<And>m. m \<noteq> 0 \<Longrightarrow> mutexes s m = mx_zero"
    by blast
  from scene_lock [OF s(1,2), of 1] i s(3-8) obtain s1 where s1: "scene 2 s1" "pthread_current s1 = 1" "owner (mutexes s1 0) = Some 0"
    "recursive_count (mutexes s1 0) = 1" "mutex_queue (threads s1 0) = [0]" "eprio s1 0 = 16" "eprio s1 1 = 20" "owner (mutexes s1 1) = Some 1"
    "\<And>m. m \<noteq> 0 \<Longrightarrow> m \<noteq> 1 \<Longrightarrow> mutexes s1 m = mx_zero"
    by (auto simp: mx_zero_def)
  have "owner (mutexes s1 m) \<noteq> Some 32" for m
    using s1(3,8) s1(9) [of m] by (cases "m = 0"; cases "m = 1") (auto simp: mx_zero_def)
  from scene_block [OF s1(1-7) this] obtain s2 where s2: "reachable s2" "pthread_current s2 = 0" "fr s2 = (\<lambda>_. FRun)(1 := FLock 0)"
    "\<And>t. thstate s2 t = (if t = 1 then PTHREAD_STATE_SLEEPING else if t = 0 \<or> t = 32 then PTHREAD_STATE_RUNNING else PTHREAD_STATE_NONE)"
    "\<And>m. mutexes s2 m = (if m = 0 then (mutexes s1 0)\<lparr>wq := [1], lock := -1\<rparr> else mutexes s1 m)"
    "\<And>t. mutex_queue (threads s2 t) = mutex_queue (threads s1 t)" "\<And>x. pi_ok s2 x"
    "unat (priority (threads s2 0)) = 16" "eprio s2 0 = 20" "eprio s2 1 = 20" "eprio s2 32 = 0"
    by blast
  have "priority (threads s2 0) \<noteq> word_of_int 24" "effective_priority (threads s2 0) \<noteq> word_of_int 24" using s2(8,9) by auto
  moreover have "fr s2 0 = FRun" "\<And>t. t \<noteq> 0 \<Longrightarrow> thstate s2 t = PTHREAD_STATE_RUNNING \<Longrightarrow> eprio s2 t < nat 24"
    using s2(3,4,11) by (auto split: if_splits)
  ultimately obtain s3 where s3: "reachable s3" "pthread_current s3 = 0" "\<And>x. pi_ok s3 x"
    "sp_frame (upd_th 0 (priority_update (\<lambda>_. 24)) s2) s3" "\<And>t. t \<noteq> 0 \<Longrightarrow> eprio s3 t = eprio s2 t"
    using raise_own [OF s2(1,2) _ s2(7), of 24] by auto
  note f3 = sp_frameD [OF s3(4)]
  have "fr s3 = fr s2" using more_fr [OF f3(10)] by simp
  moreover have "wq (mutexes s1 m) = []" for m using s1(1) by (simp add: scene_def)
  ultimately show ?thesis
    using s1(4,5,8) s2(3-6,10,11) s3 f3(1,2,6,7) by (intro exI [of _ s3]) simp
qed

text \<open>Thread 0 releases mutex 0 and goes on.  Thread 1 is runnable, but its wait is not over.\<close>

lemma scene_handover:
  "\<exists>s. reachable s \<and> pthread_current s = 0 \<and> fr s 0 = FRun \<and> thstate s 1 = PTHREAD_STATE_RUNNING \<and> sleep_on (threads s 1) = Some 0 \<and>
    owner (mutexes s 0) = None \<and> owner (mutexes s 1) = Some 1"
proof -
  from scene_raised obtain s where s: "reachable s" "pthread_current s = 0" "fr s = (\<lambda>_. FRun)(1 := FLock 0)" "\<And>x. pi_ok s x"
    "\<And>t. thstate s t = (if t = 1 then PTHREAD_STATE_SLEEPING else if t = 0 \<or> t = 32 then PTHREAD_STATE_RUNNING else PTHREAD_STATE_NONE)"
    "mutex_queue (threads s 0) = [0]" "recursive_count (mutexes s 0) = 1" "lock (mutexes s 0) = -1" "wq (mutexes s 0) = [1]"
    "\<And>m. m \<noteq> 0 \<Longrightarrow> wq (mutexes s m) = []" "owner (mutexes s 1) = Some 1"
    "priority (threads s 0) = 24" "eprio s 1 = 20" "eprio s 32 = 0"
    by blast
  note k = kernel_okD [OF reachable_ok [OF s(1)]]
  have m: "0 \<in> set (mutex_queue (threads s (pthread_current s)))" using s(2,6) by simp
  have wc: "wake_chosen 0 s = Some 1" using s(8,9) by (simp add: wake_chosen_def wake_target_def)
  from mutex_unlock_spec [OF kinvD(1) [OF k(1)] m s(7)] obtain s4 where s4: "pthread_mutex_unlock 0 s = Ok s4" "kinv s4" "sched_done s4"
    "owner (mutexes s4 0) = None" "\<And>t. thstate s4 t = (if wake_chosen 0 s = Some t then PTHREAD_STATE_RUNNING else thstate s t)"
    "\<And>t. sleep_on (threads s4 t) = sleep_on (threads s t)"
    by blast
  have st: "step s s4" by (rule step.Unlock [OF _ m s4(1)]) (simp add: s(2,3))
  have "sleep_on (threads s (pthread_current s)) = None" using fr_okD(1) [OF k(3), of 0] by (simp add: s(2,3))
  note pi = unlock_pi [OF kinvD(1) [OF k(1)] m this s(4) s4(1)]
  from unlock_sp [OF s4(1)] s(7) wc have "sp_frame (set_state 1 PTHREAD_STATE_RUNNING (lock_released 0 s)) s4" by simp
  note f4 = sp_frameD [OF this]
  have mx: "mutexes s4 x = mutexes s x" if "x \<noteq> 0" for x
    using f4(7) that by (simp add: lock_released_def)
  have pr: "priority (threads s4 t) = priority (threads s t)" for t
    using f4(2) [of t] s(2) by (cases "t = 0"; cases "t = 1") (simp_all add: lock_released_def)
  have low: "eprio s4 t \<le> eprio s t" if "t \<noteq> 0" for t
  proof -
    have "wq (mutexes s4 x) = []" if "x \<in> set (mutex_queue (threads s4 t))" for x
    proof -
      have "x \<noteq> 0" using mx_invD(1) [OF kinvD(4) [OF s4(2)], of x t] s4(4) that by (cases "x = 0") simp_all
      with mx s(10) show ?thesis by simp
    qed
    then have "inherited s4 t = priority (threads s4 t)" by (rule no_waiters)
    with inherited_ge_own [of s t] s(4) [of t] pi [of t] pr [of t] show ?thesis by (simp add: pi_ok_def word_le_nat_alt)
  qed
  have "24 \<le> eprio s4 0" using inherited_ge_own [of s4 0] pi [of 0] pr [of 0] s(12) by (simp add: pi_ok_def word_le_nat_alt)
  moreover have "linked s4 0" "top_prio s4 (pthread_current s4)"
    using s4(3) s4(5) [of 0] wc s(5) [of 0] by (simp_all add: sched_done_def sched_inv_def)
  ultimately have "24 \<le> eprio s4 (pthread_current s4)" by (fastforce simp: top_prio_def)
  moreover have "eprio s4 1 < 24" "eprio s4 32 < 24" using low [of 1] low [of 32] s(13,14) by simp_all
  moreover have "pthread_current s4 \<in> {0, 1, 32}"
    using kinvD(7) [OF s4(2)] s4(5) [of "pthread_current s4"] wc s(5) [of "pthread_current s4"] by (auto split: if_splits)
  ultimately have "pthread_current s4 = 0" by auto
  moreover have "fr s4 0 = FRun" "thstate s4 1 = PTHREAD_STATE_RUNNING" "owner (mutexes s4 1) = Some 1"
    using more_fr [OF f4(10)] s(3,11) s4(5) [of 1] wc mx [of 1] by (simp_all add: lock_released_def)
  moreover have "sleep_on (threads s4 1) = Some 0"
    using s4(6) [of 1] fr_okD(1) [OF k(3), of 1] by (simp add: s(3))
  ultimately show ?thesis using reachable.Step [OF s(1) st] s4(4) by blast
qed

end
