(* ===== verification/Progress.thy ===== *)
theory Progress
  imports Kernel
begin

text \<open>
  The steps of theory \<open>Kernel\<close> as an executable function of what happens next, and what becomes of every call that keeps
  the rules of use: it returns, or it is a call that passes on priorities along a chain of owners that has no end.
\<close>

section \<open>Events\<close>

text \<open>A call of the current thread, the continuation of a suspended one, or a timer interrupt.\<close>

datatype event =
    ELock mid
  | ETrylock mid
  | EUnlock mid
  | EYield
  | ESetprio tid int
  | ECreate pthread_attr
  | EExit u32
  | EDetach tid
  | EJoin tid
  | ESignal cid
  | EBroadcast cid
  | EWait cid mid "timespec option"
  | ESleep u32
  | EResume
  | ETick

definition cond_return :: "tid \<Rightarrow> cid \<Rightarrow> mid \<Rightarrow> bool \<times> ksys \<Rightarrow> ksys result" where
  "cond_return c v m = (\<lambda>(b, s). Ok (if b then set_fr c FRun (cond_wait_finish v s) else set_fr c (FCondLock v m) s))"

definition join_return :: "tid \<Rightarrow> tid \<Rightarrow> join_outcome \<times> ksys \<Rightarrow> ksys result" where
  "join_return c t = (\<lambda>(r, s). Ok (set_fr c (if r = JoinBlocked then FJoin t else FRun) s))"

definition lock_return :: "tid \<Rightarrow> mid \<Rightarrow> bool \<times> ksys \<Rightarrow> ksys result" where
  "lock_return c m = (\<lambda>(b, s). Ok (set_fr c (if b then FRun else FLock m) s))"

fun resume :: "tid \<Rightarrow> frame \<Rightarrow> ksys \<Rightarrow> ksys result" where
  "resume c (FLock m) s = rbind (pthread_mutex_lock_loop m s) (lock_return c m)"
| "resume c (FJoin t) s = rbind (pthread_join_resume t s) (join_return c t)"
| "resume c (FCondUnlocked v m abstime) s =
     rbind (cond_wait_block abstime s) (\<lambda>(p, s). Ok (set_fr c (frame_of p v m) s))"
| "resume c (FCondTimed v m) s = rbind (cond_wait_timed_end s) (\<lambda>(_, s). Ok (set_fr c (FCondSched v m) s))"
| "resume c (FCondSched v m) s = rbind (pthread_mutex_lock m s) (cond_return c v m)"
| "resume c (FCondLock v m) s = rbind (pthread_mutex_lock_loop m s) (cond_return c v m)"
| "resume c FSleep s = rbind (sleep_end s) (\<lambda>(_, s). Ok (set_fr c FRun s))"
| "resume c FRun s = Ok s"
| "resume c FRead s = Ok s"

fun exec :: "event \<Rightarrow> ksys \<Rightarrow> ksys result" where
  "exec (ELock m) s = rbind (pthread_mutex_lock m s) (lock_return (pthread_current s) m)"
| "exec (ETrylock m) s = Ok (snd (pthread_mutex_trylock m s))"
| "exec (EUnlock m) s = pthread_mutex_unlock m s"
| "exec EYield s = pthread_yield s"
| "exec (ESetprio t p) s = pthread_setschedprio t p s"
| "exec (ECreate attr) s = rbind (pthread_create attr s) (\<lambda>(_, _, s). Ok s)"
| "exec (EExit r) s = pthread_exit r s"
| "exec (EDetach t) s = rbind (pthread_detach t s) (\<lambda>(_, s). Ok s)"
| "exec (EJoin t) s = rbind (pthread_join t s) (join_return (pthread_current s) t)"
| "exec (ESignal v) s = pthread_cond_signal v s"
| "exec (EBroadcast v) s = pthread_cond_broadcast v s"
| "exec (EWait v m abstime) s =
     rbind (cond_wait_begin v m s) (\<lambda>s'. Ok (set_fr (pthread_current s) (FCondUnlocked v m abstime) s'))"
| "exec (ESleep secs) s = rbind (sleep_begin secs s) (\<lambda>s'. Ok (set_fr (pthread_current s) FSleep s'))"
| "exec EResume s = resume (pthread_current s) (fr s (pthread_current s)) s"
| "exec ETick s = timer_interrupt s"

text \<open>The rules of use.\<close>

fun may_resume :: "frame \<Rightarrow> ksys \<Rightarrow> bool" where
  "may_resume FRun s = False"
| "may_resume FRead s = False"
| "may_resume (FCondUnlocked v m abstime) s = delta_ok abstime s"
| "may_resume _ s = True"

fun rule_of_use :: "event \<Rightarrow> tid \<Rightarrow> ksys \<Rightarrow> bool" where
  "rule_of_use (ELock m) c s = (c \<noteq> pthread_idle)"
| "rule_of_use (EUnlock m) c s = (m \<in> set (mutex_queue (threads s c)))"
| "rule_of_use (ESetprio t p) c s = (0 \<le> p \<and> p \<le> 31)"
| "rule_of_use (ECreate attr) c s = (unat (attr_priority attr) \<le> 31)"
| "rule_of_use (EExit r) c s = (c \<noteq> pthread_idle \<and> mutex_queue (threads s c) = [])"
| "rule_of_use (EJoin t) c s = (c \<noteq> pthread_idle)"
| "rule_of_use (EWait v m abstime) c s =
     (c \<noteq> pthread_idle \<and> m \<in> set (mutex_queue (threads s c)) \<and> recursive_count (mutexes s m) = 1)"
| "rule_of_use (ESleep secs) c s = (c \<noteq> pthread_idle \<and> unat (secs * of_nat CONFIG_HZ) < 2 ^ 31)"
| "rule_of_use _ c s = True"

definition event_ok :: "event \<Rightarrow> ksys \<Rightarrow> bool" where
  "event_ok e s = (let c = pthread_current s in
     case e of
       ETick \<Rightarrow> True
     | EResume \<Rightarrow> may_resume (fr s c) s
     | _ \<Rightarrow> fr s c = FRun \<and> rule_of_use e c s)"

lemmas return_defs = lock_return_def join_return_def cond_return_def

text \<open>The function computes exactly the steps of the relation.\<close>

lemma resume_step:
  assumes "may_resume (fr s c) s" and "pthread_current s = c" and "resume c (fr s c) s = Ok s'"
  shows "step s s'"
  using assms
  by (cases "fr s c") (auto simp: return_defs result_simps
      intro: LockResume JoinResume CondBlock CondTimed CondLock CondLockResume SleepResume)

lemma exec_step: "event_ok e s \<Longrightarrow> exec e s = Ok s' \<Longrightarrow> step s s'"
  by (cases e) (auto simp: event_ok_def Let_def return_defs result_simps
      intro: resume_step Lock Unlock Yield Setprio Create Exit Detach Join Signal Broadcast CondWait Sleep Tick
        Trylock [OF _ prod.collapse [symmetric]])

lemma step_exec: "step s s' \<Longrightarrow> \<exists>e. event_ok e s \<and> exec e s = Ok s'"
proof (induction rule: step.induct)
  case (Lock s c m b s')
  then show ?case by (intro exI [of _ "ELock m"]) (auto simp: event_ok_def lock_return_def)
next
  case (Trylock s m e s')
  then show ?case by (intro exI [of _ "ETrylock m"]) (auto simp: event_ok_def)
next
  case (Unlock s m s')
  then show ?case by (intro exI [of _ "EUnlock m"]) (auto simp: event_ok_def)
next
  case (Yield s s')
  then show ?case by (intro exI [of _ EYield]) (auto simp: event_ok_def)
next
  case (Setprio s p t s')
  then show ?case by (intro exI [of _ "ESetprio t p"]) (auto simp: event_ok_def)
next
  case (Create s attr e r s')
  then show ?case by (intro exI [of _ "ECreate attr"]) (auto simp: event_ok_def)
next
  case (Exit s c r s')
  then show ?case by (intro exI [of _ "EExit r"]) (auto simp: event_ok_def)
next
  case (Detach s t e s')
  then show ?case by (intro exI [of _ "EDetach t"]) (auto simp: event_ok_def)
next
  case (Join s c t r s')
  then show ?case by (intro exI [of _ "EJoin t"]) (auto simp: event_ok_def join_return_def)
next
  case (Signal s v s')
  then show ?case by (intro exI [of _ "ESignal v"]) (auto simp: event_ok_def)
next
  case (Broadcast s v s')
  then show ?case by (intro exI [of _ "EBroadcast v"]) (auto simp: event_ok_def)
next
  case (CondWait s c m v s' abstime)
  then show ?case by (intro exI [of _ "EWait v m abstime"]) (auto simp: event_ok_def)
next
  case (Sleep s c secs s')
  then show ?case by (intro exI [of _ "ESleep secs"]) (auto simp: event_ok_def)
next
  case (Tick s s')
  then show ?case by (intro exI [of _ ETick]) (auto simp: event_ok_def)
qed (rule exI [of _ EResume], auto simp: event_ok_def return_defs)+

lemma step_iff_exec: "step s s' \<longleftrightarrow> (\<exists>e. event_ok e s \<and> exec e s = Ok s')"
  using step_exec exec_step by blast

section \<open>What becomes of every event\<close>

text \<open>
  The thread from which an event passes on priorities, and the state in which it does: the caller of
  \<open>pthread_mutex_lock\<close>, already queued at the mutex, or a thread that waits and gets another priority.
\<close>

definition lock_spreads :: "mid \<Rightarrow> ksys \<Rightarrow> (tid \<times> ksys) option" where
  "lock_spreads m s = (let c = pthread_current s in
     if lock (mutexes s m) = 1 \<or> mtype (mutexes s m) = PTHREAD_MUTEX_RECURSIVE_NP \<and> owner (mutexes s m) = Some c
     then None else Some (c, lock_waiting c m s))"

definition setprio_spreads :: "tid \<Rightarrow> int \<Rightarrow> ksys \<Rightarrow> (tid \<times> ksys) option" where
  "setprio_spreads t p s =
     (let e = effective_priority (threads s t) in
      if uint (priority (threads s t)) = p \<or> uint e = p \<or> linked s t \<or>
         inherited (upd_th t (priority_update (\<lambda>_. word_of_int p)) s) t = e
      then None else Some (t, s))"

fun spreads :: "event \<Rightarrow> ksys \<Rightarrow> (tid \<times> ksys) option" where
  "spreads (ELock m) s = lock_spreads m s"
| "spreads (ESetprio t p) s = setprio_spreads t p s"
| "spreads EResume s = (case fr s (pthread_current s) of FCondSched v m \<Rightarrow> lock_spreads m s | _ \<Rightarrow> None)"
| "spreads _ s = None"

definition settled :: "(tid \<times> ksys) option \<Rightarrow> 'b result \<Rightarrow> bool" where
  "settled w r \<longleftrightarrow> (case w of None \<Rightarrow> is_Ok r | Some (t, z) \<Rightarrow> decided t z r)"

lemma settled_bind: "settled w r \<Longrightarrow> (\<And>x. r = Ok x \<Longrightarrow> is_Ok (f x)) \<Longrightarrow> settled w (rbind r f)"
  by (auto simp: settled_def decided_bind is_Ok_iff split: option.splits)

lemma kernel_owners: "kernel_ok s \<Longrightarrow> owners_ok s"
proof -
  assume a: "kernel_ok s"
  note k = kernel_okD [OF a] and mx = kinvD(4) [OF kernel_okD(1) [OF a]]
  show ?thesis unfolding owners_ok_def
  proof (intro allI impI)
    fix m x assume "owner (mutexes s m) = Some x"
    then have "m \<in> set (mutex_queue (threads s x))" using mx_invD(1) [OF mx] by blast
    then have "alive (thstate s x)" using fr_okD(5) [OF k(3), of x] by (cases "alive (thstate s x)") simp_all
    then have "thstate s x \<noteq> PTHREAD_STATE_NONE" by (auto simp: alive_def)
    with fr_okD(6) [OF k(3), of x] show "x \<le> pthread_idle" by (auto simp: not_less [symmetric])
  qed
qed

lemma lock_settled:
  assumes "kernel_ok s" and "pthread_current s = c" and "c \<noteq> pthread_idle" and "sleep_on (threads s c) = None"
  shows "settled (lock_spreads m s) (pthread_mutex_lock m s)"
proof -
  note k = kernel_okD(1) [OF assms(1)]
  consider "lock (mutexes s m) = 1" | "mtype (mutexes s m) = PTHREAD_MUTEX_RECURSIVE_NP" "owner (mutexes s m) = Some c"
    | (wait) "lock (mutexes s m) \<noteq> 1" "\<not> (mtype (mutexes s m) = PTHREAD_MUTEX_RECURSIVE_NP \<and> owner (mutexes s m) = Some c)"
    by blast
  then show ?thesis
  proof cases
    case 1
    with mutex_lock_free [OF k, of m] show ?thesis by (auto simp: settled_def lock_spreads_def)
  next
    case 2
    with mutex_lock_recursive [OF k, of m] assms(2) show ?thesis by (auto simp: settled_def lock_spreads_def)
  next
    case wait
    let ?s = "lock_waiting c m s"
    have kw: "kinv ?s" by (rule kinv_lock_waiting [OF k assms(2,4)])
    note wf = ksched_prio_wf [OF kinvD(2) [OF kw]]
    have "owners_ok ?s" using kernel_owners [OF assms(1)] by (simp add: owners_ok_def lock_waiting_def)
    from spread_decided [OF wf this, of SPREAD_FUEL c] have d: "decided c ?s (pthread_spread SPREAD_FUEL c ?s)" by simp
    have l: "is_Ok (pthread_mutex_lock_loop m s1)" if s1: "pthread_spread SPREAD_FUEL c ?s = Ok s1" for s1
    proof -
      note st = spread_step [OF wf s1]
      then have "prio_frame ?s s1" by (simp add: prio_step_def)
      from prio_frameD(5,14) [OF this] assms(2) have "pthread_current s1 = c" "sleep_on (threads s1 c) = Some m"
        by (simp_all add: lock_waiting_def)
      from lock_loop_spec [OF kinv_prio_step [OF kw st] this(1) assms(3) this(2)] show ?thesis by (auto simp: is_Ok_iff)
    qed
    have "pthread_mutex_lock m s = rbind (pthread_spread SPREAD_FUEL c ?s) (pthread_mutex_lock_loop m)"
      using kinvD(5) [OF k] wait assms(2) by (auto simp: pthread_mutex_lock_def Let_def lock_waiting_def)
    moreover from d l have "decided c ?s (rbind (pthread_spread SPREAD_FUEL c ?s) (pthread_mutex_lock_loop m))"
      by (rule decided_bind)
    ultimately show ?thesis using wait assms(2) by (auto simp: settled_def lock_spreads_def)
  qed
qed

lemma setprio_settled:
  assumes "kernel_ok s" and "0 \<le> p" and "p \<le> 31"
  shows "settled (setprio_spreads t p s) (pthread_setschedprio t p s)"
proof (cases "uint (priority (threads s t)) = p \<or> uint (effective_priority (threads s t)) = p")
  case True
  then show ?thesis by (auto simp: settled_def setprio_spreads_def pthread_setschedprio_def Let_def)
next
  case False
  let ?s = "upd_th t (priority_update (\<lambda>_. word_of_int p)) s"
  have le: "unat (word_of_int p :: u8) \<le> 31"
    using assms(2,3) by (simp add: unsigned_of_int take_bit_int_eq_self nat_le_iff)
  note k = kinv_priority [OF kernel_okD(1) [OF assms(1)] le, of t]
  note wf = ksched_prio_wf [OF kinvD(2) [OF k]]
  have eq: "pthread_setschedprio t p s = rbind (pthread_setschedprio_locked SPREAD_FUEL t ?s) schedule"
    using False by (simp add: pthread_setschedprio_def Let_def)
  have sch: "is_Ok (schedule s1)" if "pthread_setschedprio_locked SPREAD_FUEL t ?s = Ok s1" for s1
    using kinv_schedule [OF kinvD(1) [OF kinv_prio_step [OF k setschedprio_step [OF wf that]]]] by (auto simp: is_Ok_iff)
  obtain n where n: "SPREAD_FUEL = Suc n" by (simp add: SPREAD_FUEL_def)
  have "settled (setprio_spreads t p s) (pthread_setschedprio_locked SPREAD_FUEL t ?s)"
  proof (cases "linked s t \<or> inherited ?s t = effective_priority (threads s t)")
    case True
    then have "is_Ok (pthread_setschedprio_locked SPREAD_FUEL t ?s)"
    proof
      assume "linked s t"
      with setschedprio_linked [OF wf, of t] show ?thesis by (auto simp: is_Ok_iff)
    next
      assume "inherited ?s t = effective_priority (threads s t)"
      then show ?thesis unfolding n by (simp add: Let_def)
    qed
    with True show ?thesis by (auto simp: settled_def setprio_spreads_def Let_def)
  next
    case unl: False
    let ?z = "upd_th t (effective_priority_update (\<lambda>_. inherited ?s t)) ?s"
    have z: "prio_wf ?z"
      using set_eprio_unlinked [OF wf _ inherited_le [OF wf], of t t] unl by (auto simp: prio_step_def)
    have "owners_ok ?z" using kernel_owners [OF assms(1)] by (simp add: owners_ok_def)
    from spread_decided [OF z this, of n t] have "decided t ?z (pthread_spread n t ?z)" by (simp add: n)
    then have "decided t s (pthread_spread n t ?z)" by (subst decided_cong [of s ?z]) auto
    moreover have "setprio_spreads t p s = Some (t, s)" using unl False by (auto simp: setprio_spreads_def Let_def)
    moreover have "pthread_setschedprio_locked SPREAD_FUEL t ?s = pthread_spread n t ?z" using unl by (auto simp: n Let_def)
    ultimately show ?thesis by (simp add: settled_def)
  qed
  with settled_bind sch eq show ?thesis by metis
qed

text \<open>The other calls of a thread in ordinary code.\<close>

lemma clock_realtime: "\<exists>now. clock_gettime CLOCK_REALTIME s = Inr now"
  by (simp add: clock_gettime_def)

lemma signal_returns: "kinv s \<Longrightarrow> is_Ok (pthread_cond_signal v s)"
proof (cases "wake_target s (cond_wq (conds s v))")
  case (Some t)
  assume "kinv s"
  from cond_signal_spec [OF this Some] show ?thesis by (auto simp: is_Ok_iff)
qed (simp add: pthread_cond_signal_def)

lemma unlock_returns:
  assumes "kinv s" and "m \<in> set (mutex_queue (threads s (pthread_current s)))"
  shows "is_Ok (pthread_mutex_unlock m s)"
  using mutex_unlock_spec [OF kinvD(1) [OF assms(1)] assms(2)] mutex_unlock_nested [OF kinvD(1) [OF assms(1)] assms(2)]
  by (cases "recursive_count (mutexes s m) = 1") (auto simp: is_Ok_iff)

lemma create_returns:
  assumes "kernel_ok s" and "unat (attr_priority attr) \<le> 31"
  shows "is_Ok (pthread_create attr s)"
proof (cases "free_slot s")
  case None
  then show ?thesis by (simp add: pthread_create_def)
next
  case (Some t)
  note k = kernel_okD [OF assms(1)]
  have "\<not> alive (thstate s t)" using free_slot_Some [OF Some] by (simp add: alive_def)
  then have clean: "fr s t = FRun" "mutex_queue (threads s t) = []"
    using fr_okD(4,5) [OF k(3), of t] by auto
  then have "sleep_on (threads s t) = None" using fr_okD(1) [OF k(3), of t] by simp
  from create_spec [OF k(1) Some assms(2) this clean(2)] show ?thesis by (auto simp: is_Ok_iff)
qed

text \<open>A thread in ordinary code waits for nothing.\<close>

lemma running_free:
  assumes "kernel_ok s" and "fr s c = FRun"
  shows "sleep_on (threads s c) = None" and "\<And>x. waiter (threads s x) \<noteq> Some c"
  using fr_okD(1,2) [OF kernel_okD(3) [OF assms(1)]] assms(2) by fastforce+

lemma exit_returns:
  assumes "kernel_ok s" and "pthread_current s = c" and "fr s c = FRun" and "c \<noteq> pthread_idle"
  shows "is_Ok (pthread_exit r s)"
  using exit_spec [OF kernel_okD(1) [OF assms(1)] assms(2,4) running_free [OF assms(1,3)], of r] by (auto simp: is_Ok_iff)

lemma join_returns:
  assumes "kernel_ok s" and "pthread_current s = c" and "fr s c = FRun" and "c \<noteq> pthread_idle"
  shows "is_Ok (pthread_join t s)"
proof -
  note k = kernel_okD [OF assms(1)]
  have "c < pthread_idle" using k(6) assms(2,4) by simp
  from join_pass_spec [OF k(1,2) assms(2) this running_free(2,1) [OF assms(1,3)], of t] show ?thesis
    by (auto simp: is_Ok_iff pthread_join_def)
qed

lemma join_resume_returns:
  assumes "kernel_ok s" and "pthread_current s = c" and "fr s c = FJoin t"
  shows "is_Ok (pthread_join_resume t s)"
proof -
  note k = kernel_okD [OF assms(1)]
  let ?s = "upd_th t (waiter_update (\<lambda>_. None)) s"
  have c: "c < pthread_idle" "sleep_on (threads ?s c) = None"
    using fr_okD(1,4) [OF k(3), of c] assms(3) by auto
  have w: "waiter (threads ?s x) \<noteq> Some c" for x using fr_okD(2) [OF k(3), of x c] assms(3) by auto
  have "kinv ?s" using k(1) by simp
  from join_pass_spec [OF this join_inv_clear [OF k(2)] _ c(1) w c(2), of t] assms(2) show ?thesis
    by (auto simp: is_Ok_iff pthread_join_resume_def)
qed

lemma loop_returns:
  assumes "kernel_ok s" and "pthread_current s = c" and "waits_mx (fr s c) = Some m"
  shows "is_Ok (pthread_mutex_lock_loop m s)"
proof -
  note k = kernel_okD [OF assms(1)]
  have "fr s c \<noteq> FRun" using assms(3) by auto
  then have "c \<noteq> pthread_idle" using fr_okD(4) [OF k(3), of c] by auto
  moreover have "sleep_on (threads s c) = Some m" using fr_okD(1) [OF k(3)] assms(3) by simp
  ultimately show ?thesis using lock_loop_spec [OF k(1) assms(2)] by (auto simp: is_Ok_iff)
qed

lemma timeout_end_returns: "kernel_ok s \<Longrightarrow> is_Ok (schedule_timeout_end s)"
  using schedule_timeout_end_spec [OF kernel_okD(1), of s "pthread_current s"] kernel_okD(4) [of s]
  by (auto simp: is_Ok_iff tm_ok_def)

lemma timeout_begin_returns:
  assumes "kernel_ok s" and "pthread_current s = c" and "\<not> timed (fr s c)" and "c < pthread_idle" and "unat d < 2 ^ 31"
    and "kpre (set_state c st s)"
  shows "is_Ok (schedule_timeout_begin d (set_state c st s))"
proof -
  note k = kernel_okD [OF assms(1)]
  note r = timer_room [OF k(3,4) assms(3,4)]
  have "timer_ok (ticks s) (tctx s)" using k(4) by (simp add: tm_ok_def)
  with schedule_timeout_begin_spec [OF assms(6), of c d] r assms(2,5) show ?thesis by (auto simp: is_Ok_iff)
qed

lemma sleep_returns:
  assumes "kernel_ok s" and "pthread_current s = c" and "fr s c = FRun" and "c \<noteq> pthread_idle"
    and "unat (secs * of_nat CONFIG_HZ) < 2 ^ 31"
  shows "is_Ok (sleep_begin secs s)"
proof -
  note k = kernel_okD [OF assms(1)]
  have "kpre (set_state c PTHREAD_STATE_SLEEPING s)"
    by (rule kpre_block [OF k(1)]) (use assms(2,4) running_free(1) [OF assms(1,3)] in auto)
  with timeout_begin_returns [OF assms(1,2) _ _ assms(5)] assms(2-4) k(6) show ?thesis by (simp add: sleep_begin_def)
qed

lemma block_returns:
  assumes "kernel_ok s" and "pthread_current s = c" and "fr s c = FCondUnlocked v m a" and "delta_ok a s"
  shows "is_Ok (cond_wait_block a s)"
proof -
  note k = kernel_okD [OF assms(1)]
  have c: "c < pthread_idle" using fr_okD(4) [OF k(3), of c] assms(3) by simp
  have same: "set_state c (thstate s c) s = s" by (simp add: upd_th_def)
  have t: "is_Ok (schedule_timeout_begin d s)" if "unat d < 2 ^ 31" for d
    using timeout_begin_returns [OF assms(1,2) _ c that, of "thstate s c"] assms(3) kinvD(1) [OF k(1)] unfolding same by simp
  have "is_Ok (schedule s)" using kinv_schedule [OF kinvD(1) [OF k(1)]] by (auto simp: is_Ok_iff)
  with t assms(4) clock_realtime [of s] show ?thesis
    by (auto simp: cond_wait_block_def delta_ok_def is_Ok_iff result_simps split: option.splits)
qed

section \<open>Progress\<close>

lemma is_Ok_rbind: "is_Ok r \<Longrightarrow> (\<And>x. r = Ok x \<Longrightarrow> is_Ok (f x)) \<Longrightarrow> is_Ok (rbind r f)"
  by (auto simp: is_Ok_iff)

lemma resume_settled:
  assumes "kernel_ok s" and "pthread_current s = c" and "may_resume (fr s c) s"
  shows "settled (spreads EResume s) (resume c (fr s c) s)"
proof (cases "fr s c")
  case (FCondSched v m)
  have "c < pthread_idle" "sleep_on (threads s c) = None"
    using fr_okD(1,4) [OF kernel_okD(3) [OF assms(1)], of c] FCondSched by auto
  then have "settled (lock_spreads m s) (pthread_mutex_lock m s)" using lock_settled [OF assms(1,2)] by simp
  with FCondSched assms(2) show ?thesis by (auto intro!: settled_bind simp: cond_return_def)
next
  case (FLock m)
  with loop_returns [OF assms(1,2)] assms(2) show ?thesis by (auto simp: settled_def return_defs intro!: is_Ok_rbind)
next
  case (FCondLock v m)
  with loop_returns [OF assms(1,2)] assms(2) show ?thesis by (auto simp: settled_def return_defs intro!: is_Ok_rbind)
next
  case (FJoin t)
  with join_resume_returns [OF assms(1,2)] assms(2) show ?thesis by (auto simp: settled_def return_defs intro!: is_Ok_rbind)
next
  case (FCondUnlocked v m a)
  with block_returns [OF assms(1,2)] assms(2,3) show ?thesis by (auto simp: settled_def intro!: is_Ok_rbind)
next
  case (FCondTimed v m)
  with timeout_end_returns [OF assms(1)] assms(2) show ?thesis
    by (auto simp: settled_def cond_wait_timed_end_def intro!: is_Ok_rbind)
next
  case FSleep
  with timeout_end_returns [OF assms(1)] assms(2) show ?thesis by (auto simp: settled_def sleep_end_def intro!: is_Ok_rbind)
qed (use assms(3) in auto)

lemma wait_returns:
  assumes "kernel_ok s" and "pthread_current s = c" and "fr s c = FRun" and "c \<noteq> pthread_idle"
    and "m \<in> set (mutex_queue (threads s c))" and "recursive_count (mutexes s m) = 1"
  shows "is_Ok (cond_wait_begin v m s)"
  using cond_wait_begin_spec [OF kernel_okD(1) [OF assms(1)] assms(2,4) running_free(1) [OF assms(1,3)] assms(5,6), of v]
  by (auto simp: is_Ok_iff)

lemma detach_returns: "kinv s \<Longrightarrow> is_Ok (pthread_detach t s)"
  using detach_spec [of s t] by (auto simp: is_Ok_iff)

lemma broadcast_returns: "kinv s \<Longrightarrow> is_Ok (pthread_cond_broadcast v s)"
  using cond_broadcast_spec [of s v] by (auto simp: is_Ok_iff)

lemma yield_returns: "kinv s \<Longrightarrow> is_Ok (pthread_yield s)"
  using kinv_schedule [OF kinvD(1), of s] by (auto simp: is_Ok_iff pthread_yield_def)

lemma tick_returns: "kernel_ok s \<Longrightarrow> is_Ok (timer_interrupt s)"
  using timer_interrupt_spec [OF kernel_okD(1), of s] kernel_okD(4) [of s] by (auto simp: is_Ok_iff tm_ok_def)

lemma exec_settled:
  assumes "kernel_ok s" and "event_ok e s"
  shows "settled (spreads e s) (exec e s)"
proof (cases e)
  note k = kernel_okD(1) [OF assms(1)]
  case EResume
  with resume_settled [OF assms(1)] assms(2) show ?thesis by (simp add: event_ok_def Let_def)
next
  case (ELock m)
  with assms(2) have c: "fr s (pthread_current s) = FRun" "pthread_current s \<noteq> pthread_idle" by (auto simp: event_ok_def Let_def)
  from lock_settled [OF assms(1) refl c(2) running_free(1) [OF assms(1) c(1)]] ELock show ?thesis
    by (auto intro!: settled_bind simp: lock_return_def)
next
  case (ESetprio t p)
  with setprio_settled [OF assms(1)] assms(2) show ?thesis by (auto simp: event_ok_def)
qed (use assms(2) kernel_okD(1) [OF assms(1)] in \<open>auto simp: event_ok_def Let_def settled_def return_defs
    intro!: is_Ok_rbind unlock_returns yield_returns detach_returns signal_returns broadcast_returns
    intro: create_returns [OF assms(1)] exit_returns [OF assms(1) refl] join_returns [OF assms(1) refl] wait_returns [OF assms(1) refl]
      sleep_returns [OF assms(1) refl] tick_returns [OF assms(1)]\<close>)

text \<open>
  What a call that keeps the rules of use does in a reachable state.  Without a chain to follow it returns; otherwise the
  chain decides.
\<close>

lemma reachable_settled:
  assumes "reachable s" and "event_ok e s"
  shows "settled (spreads e s) (exec e s)" and "exec e s = Ok s' \<Longrightarrow> reachable s'"
  using exec_settled [OF reachable_ok [OF assms(1)] assms(2)] exec_step [OF assms(2)] reachable.Step [OF assms(1)] by auto

end
