(* ===== verification/KernelProps.thy ===== *)
theory KernelProps
  imports Scenario Progress
begin

text \<open>
  The properties of the kernel as a whole: what holds in every state reachable from boot by the steps of
  theory \<open>Kernel\<close>, and what each system call does there.  Each witness applies its property to the run of
  theory \<open>Scenario\<close>.
\<close>

section \<open>Facts of a reachable state\<close>

lemma idle_32: "pthread_idle = 32"
  by (simp add: pthread_idle_def CONFIG_PTHREAD_MAX_NUM_def)

lemma run_facts:
  assumes "reachable s" and "fr s (pthread_current s) = FRun"
  shows "kinv s" "kpre s" "join_inv s" "timer_ok (ticks s) (tctx s)" "sleep_on (threads s (pthread_current s)) = None"
    "\<And>x. waiter (threads s x) \<noteq> Some (pthread_current s)" "pthread_current s \<notin> active (tctx s)"
    "pthread_current s \<le> pthread_idle"
proof -
  note k = kernel_okD [OF reachable_ok [OF assms(1)]]
  note f = fr_okD [OF k(3)]
  show "kinv s" "join_inv s" and "kpre s"
    using k kinvD(1) by auto
  show "timer_ok (ticks s) (tctx s)" "pthread_current s \<notin> active (tctx s)"
    using k(4) assms(2) by (auto simp: tm_ok_def)
  show "sleep_on (threads s (pthread_current s)) = None"
    using k(3) assms(2) by (simp add: fr_ok_def)
  show "waiter (threads s x) \<noteq> Some (pthread_current s)" for x
    using k(3) assms(2) by (auto simp: fr_ok_def)
  show "pthread_current s \<le> pthread_idle"
    using k(3) kinvD(7) [OF k(1)] by (auto simp: fr_ok_def not_le [symmetric])
qed

lemma preempted:
  obtains s where "reachable s" "pthread_current s = 1" "fr s 1 = FRun" "owner (mutexes s 0) = Some 0" "pthread_current s \<noteq> 0"
    "recursive_count (mutexes s 0) = 1" "scene 2 s" "mtype (mutexes s 0) = PTHREAD_MUTEX_FAST_NP"
proof -
  from scene_preempted obtain s where "scene 2 s" "pthread_current s = 1" "owner (mutexes s 0) = Some 0"
      "recursive_count (mutexes s 0) = 1"
    by blast
  then show ?thesis
    by (intro that [of s]) (auto simp: scene_def)
qed

lemma tick_step: "reachable s \<Longrightarrow> \<exists>s'. timer_interrupt s = Ok s' \<and> step s s'"
  using timer_interrupt_spec [of s] kernel_okD [OF reachable_ok, of s] step.Tick [of s] by (auto simp: tm_ok_def)

lemma scene_owner:
  obtains s where "scene 1 s" "reachable s" "pthread_current s = 0" "fr s 0 = FRun" "owner (mutexes s 0) = Some 0"
    "recursive_count (mutexes s 0) = 1"
proof -
  from scene_boot obtain s0 where s0: "scene 0 s0" "\<And>m. mutexes s0 m = mx_zero"
    by blast
  from scene_create [OF s0(1), of 16] idle_32 obtain s1 where s1: "scene 1 s1" "pthread_current s1 = 0" "mutexes s1 = mutexes s0"
    by auto
  from scene_lock [OF s1(1,2), of 0] idle_32 s0(2) s1(3) obtain s2 where s2: "scene 1 s2" "pthread_current s2 = 0"
      "owner (mutexes s2 0) = Some 0" "recursive_count (mutexes s2 0) = 1"
    by (auto simp: mx_zero_def)
  then show ?thesis
    by (intro that [of s2]) (auto simp: scene_def)
qed

section \<open>Invariant and mutual exclusion\<close>

text \<open>
  C1. Every state reachable from boot satisfies the kernel invariant: the run queue is consistent with the thread
  states and the priorities, lock words, owners, owners' lists and wait queues agree, no wake-up is lost, the
  joins form no cycle, suspended threads are where their frames say, and the timer heap is a heap of the threads
  that sleep in \<open>schedule_timeout\<close>.
\<close>

theorem kernel_invariant:
  assumes "reachable s"
  shows "kernel_ok s"
  using assms by (rule reachable_ok)

theorem kernel_invariant_witness:
  "\<exists>s. reachable s \<and> fr s 1 = FLock 0 \<and> kernel_ok s"
  using scene_blocked kernel_invariant by blast

text \<open>
  C3. Mutual exclusion: whatever step the kernel makes while another thread runs, the owner of a mutex keeps it.
\<close>

theorem mutual_exclusion:
  assumes "reachable s" and "step s s'" and "owner (mutexes s m) = Some t" and "pthread_current s \<noteq> t"
  shows "owner (mutexes s' m) = Some t"
  using owner_stable [OF assms(2) reachable_ok [OF assms(1)] assms(3,4)] .

theorem mutual_exclusion_witness:
  "\<exists>s s'. reachable s \<and> step s s' \<and> owner (mutexes s 0) = Some 0 \<and> pthread_current s \<noteq> 0 \<and>
    owner (mutexes s' 0) = Some 0"
proof -
  obtain s where s: "reachable s" "owner (mutexes s 0) = Some 0" "pthread_current s \<noteq> 0"
    by (rule preempted)
  obtain s' where "step s s'"
    using tick_step [OF s(1)] by blast
  with mutual_exclusion [OF s(1) _ s(2,3)] s show ?thesis
    by blast
qed

text \<open>
  C4. No lost wake-up: a free mutex with threads in its wait queue has one among them that is runnable, and a mutex
  whose owner will look for sleepers when it unlocks (lock word \<open>-1\<close>) has some.
\<close>

theorem no_lost_wakeup:
  assumes "reachable s"
  shows "(owner (mutexes s m) = None \<and> wq (mutexes s m) \<noteq> [] \<longrightarrow>
      (\<exists>t \<in> set (wq (mutexes s m)). thstate s t = PTHREAD_STATE_RUNNING)) \<and>
    (sleep_on (threads s t) = Some m \<longrightarrow>
      lock (mutexes s m) = -1 \<or> (\<exists>u \<in> set (wq (mutexes s m)). thstate s u = PTHREAD_STATE_RUNNING))"
proof (intro conjI impI)
  note mx = kinvD(4) [OF kernel_okD(1) [OF reachable_ok [OF assms]]]
  have w: "wake_ok s m" and o: "mutex_ok (mutexes s m)"
    using mx mx_invD(3) [OF mx] by (auto simp: mx_inv_def)
  show "\<exists>t \<in> set (wq (mutexes s m)). thstate s t = PTHREAD_STATE_RUNNING"
    if "owner (mutexes s m) = None \<and> wq (mutexes s m) \<noteq> []"
    using that w o by (simp add: wake_ok_def mutex_ok_def)
  show "lock (mutexes s m) = -1 \<or> (\<exists>u \<in> set (wq (mutexes s m)). thstate s u = PTHREAD_STATE_RUNNING)"
    if "sleep_on (threads s t) = Some m"
    using w mx_invD(4) [OF mx, of t m] that by (force simp: wake_ok_def split: if_splits)
qed

text \<open>A free mutex with a waiter is reachable: thread 0 unlocks while thread 1 sleeps.\<close>

lemma scene_unlocked:
  obtains s where "reachable s" "owner (mutexes s 0) = None" "wq (mutexes s 0) = [1]"
proof -
  from scene_blocked obtain s where s: "reachable s" "pthread_current s = 0" "fr s 0 = FRun" "recursive_count (mutexes s 0) = 1"
      "wq (mutexes s 0) = [1]" "mutex_queue (threads s 0) = [0]"
    by blast
  have m: "0 \<in> set (mutex_queue (threads s (pthread_current s)))"
    using s by simp
  have k: "kpre s"
    using run_facts(2) [OF s(1)] s(2,3) by simp
  from mutex_unlock_spec [OF k m s(4)] obtain s' where s': "pthread_mutex_unlock 0 s = Ok s'"
      "owner (mutexes s' 0) = None" "wq (mutexes s' 0) = wq (mutexes s 0)"
    by (elim exE conjE)
  have "step s s'"
    using s(2,3) m s'(1) by (intro step.Unlock [of s 0]) auto
  from that [OF reachable.Step [OF s(1) this] s'(2)] s(5) s'(3) show ?thesis
    by simp
qed

theorem no_lost_wakeup_witness:
  "\<exists>s. reachable s \<and> owner (mutexes s 0) = None \<and> wq (mutexes s 0) = [1] \<and> thstate s 1 = PTHREAD_STATE_RUNNING"
proof -
  obtain s where s: "reachable s" "owner (mutexes s 0) = None" "wq (mutexes s 0) = [1]"
    by (rule scene_unlocked)
  with no_lost_wakeup [OF s(1), of 0] show ?thesis
    by auto
qed

section \<open>The calls on mutexes\<close>



text \<open>
  C6. \<open>pthread_mutex_unlock\<close> by the owner, at the last level of nesting: it always returns, the mutex is free,
  and if sleepers are registered exactly one thread becomes runnable: among the waiters of the highest effective
  priority the one that came first.
\<close>

theorem mutex_unlock_wakes_best:
  assumes "reachable s" and "fr s (pthread_current s) = FRun" and "owner (mutexes s m) = Some (pthread_current s)"
    and "recursive_count (mutexes s m) = 1" and "lock (mutexes s m) = -1"
  shows "\<exists>s' t ws us. pthread_mutex_unlock m s = Ok s' \<and> owner (mutexes s' m) = None \<and> wq (mutexes s m) = ws @ t # us \<and>
    (\<forall>w \<in> set ws. eprio s w < eprio s t) \<and> (\<forall>w \<in> set us. eprio s w \<le> eprio s t) \<and>
    (\<forall>x. thstate s' x = (if x = t then PTHREAD_STATE_RUNNING else thstate s x)) \<and> sched_done s'"
proof -
  note k = run_facts [OF assms(1,2)]
  note mx = kinvD(4) [OF k(1)]
  have m: "m \<in> set (mutex_queue (threads s (pthread_current s)))"
    using mx_invD(1) [OF mx] assms(3) by blast
  have "wake_ok s m"
    using mx by (simp add: mx_inv_def)
  then have "wq (mutexes s m) \<noteq> []"
    using assms(5) by (simp add: wake_ok_def)
  then obtain t where t: "wake_chosen m s = Some t" "wake_target s (wq (mutexes s m)) = Some t"
    using assms(5) wake_target_None [of s "wq (mutexes s m)"] by (cases "wake_target s (wq (mutexes s m))") (auto simp: wake_chosen_def)
  from wake_target_split [OF t(2)] obtain ws us where ws: "wq (mutexes s m) = ws @ t # us" "\<forall>w \<in> set ws. eprio s w < eprio s t"
      "\<forall>w \<in> set us. eprio s w \<le> eprio s t"
    by (auto simp: word_less_nat_alt word_le_nat_alt)
  from mutex_unlock_spec [OF k(2) m assms(4)] obtain s' where "pthread_mutex_unlock m s = Ok s'" "sched_done s'"
      "owner (mutexes s' m) = None" "\<forall>x. thstate s' x = (if wake_chosen m s = Some x then PTHREAD_STATE_RUNNING else thstate s x)"
    by (elim exE conjE)
  with ws t(1) show ?thesis
    by (intro exI [of _ s'] exI [of _ t] exI [of _ ws] exI [of _ us]) auto
qed

theorem mutex_unlock_wakes_best_witness:
  "\<exists>s s'. reachable s \<and> wq (mutexes s 0) = [1] \<and> thstate s 1 = PTHREAD_STATE_SLEEPING \<and> pthread_mutex_unlock 0 s = Ok s' \<and>
    thstate s' 1 = PTHREAD_STATE_RUNNING"
proof -
  from scene_blocked obtain s where s: "reachable s" "pthread_current s = 0" "fr s 0 = FRun" "thstate s 1 = PTHREAD_STATE_SLEEPING"
      "owner (mutexes s 0) = Some 0" "recursive_count (mutexes s 0) = 1" "lock (mutexes s 0) = -1" "wq (mutexes s 0) = [1]"
    by blast
  with mutex_unlock_wakes_best [of s 0] obtain s' t ws us where "pthread_mutex_unlock 0 s = Ok s'" "wq (mutexes s 0) = ws @ t # us"
      "\<forall>x. thstate s' x = (if x = t then PTHREAD_STATE_RUNNING else thstate s x)"
    by auto
  with s show ?thesis
    by (intro exI [of _ s] exI [of _ s']) (auto simp: append_eq_Cons_conv Cons_eq_append_conv)
qed

section \<open>Priority inheritance\<close>

text \<open>
  C5. Priority inheritance is exact and stays so: if every thread runs at the maximum of its own priority and those
  of all threads that wait for a mutex it owns, the same holds after a thread blocks in \<open>pthread_mutex_lock\<close>,
  after a resumed one acquires the mutex, and after \<open>pthread_mutex_unlock\<close>.
\<close>

theorem priority_inheritance:
  assumes "reachable s" and "\<And>x. effective_priority (threads s x) = inherited s x" and "pthread_current s = c"
    and "fr s c = FRun \<and> chain (lock_waiting c m s) c xs \<and> pthread_mutex_lock m s = Ok (False, s') \<or>
      fr s c = FLock m \<and> pthread_mutex_lock_loop m s = Ok (True, s') \<or>
      fr s c = FRun \<and> owner (mutexes s m) = Some c \<and> pthread_mutex_unlock m s = Ok s'"
  shows "effective_priority (threads s' x) = inherited s' x"
  using assms(4)
proof (elim disjE conjE)
  note k = kernel_okD [OF reachable_ok [OF assms(1)]]
  have pi: "\<And>x. pi_ok s x"
    using assms(2) by (simp add: pi_ok_def)
  show "effective_priority (threads s' x) = inherited s' x"
    if "fr s c = FRun" "chain (lock_waiting c m s) c xs" "pthread_mutex_lock m s = Ok (False, s')"
    using lock_pi [OF k(1) assms(3) _ pi that(2,3)] run_facts(5) [OF assms(1)] that(1) assms(3) by (simp add: pi_ok_def)
  show "effective_priority (threads s' x) = inherited s' x"
    if "fr s c = FLock m" "pthread_mutex_lock_loop m s = Ok (True, s')"
    using loop_pi [OF k(1) assms(3) _ pi that(2)] fr_okD(1) [OF k(3), of c] that(1) by (simp add: pi_ok_def)
  show "effective_priority (threads s' x) = inherited s' x"
    if "fr s c = FRun" "owner (mutexes s m) = Some c" "pthread_mutex_unlock m s = Ok s'"
    using unlock_pi [OF kinvD(1) [OF k(1)] _ _ pi that(3)] run_facts(5) [OF assms(1)] that(1,2) assms(3)
      mx_invD(1) [OF kinvD(4) [OF k(1)], of m c] by (simp add: pi_ok_def)
qed

lemma scene_asleep: "scene n s \<Longrightarrow> sleep_on (threads s t) = None"
  using kernel_okD(3) [OF reachable_ok, of s] by (simp add: fr_ok_def scene_def)

theorem priority_inheritance_witness:
  "\<exists>s s'. reachable s \<and> pthread_current s = 1 \<and> pthread_mutex_lock 0 s = Ok (False, s') \<and>
    effective_priority (threads s' 0) = inherited s' 0"
proof -
  obtain s where s: "reachable s" "pthread_current s = 1" "fr s 1 = FRun" "owner (mutexes s 0) = Some 0" "scene 2 s"
    "mtype (mutexes s 0) = PTHREAD_MUTEX_FAST_NP"
    by (rule preempted)
  note so = scene_asleep [OF s(5)]
  have lc: "lock_chain 0 s [0]"
    using s(2,4) so idle_32 by (simp add: lock_chain_def blocker_def lock_waiting_def)
  have pi: "effective_priority (threads s x) = inherited s x" for x
    using s(5) by (simp add: scene_def pi_ok_def)
  from mutex_lock_blocks [OF kernel_okD(1) [OF reachable_ok [OF s(1)]] s(2) _ so s(4) _ lc] s(6) idle_32
  obtain s' where "pthread_mutex_lock 0 s = Ok (False, s')"
    by auto
  with priority_inheritance [OF s(1) pi s(2), of 0 "[0]" s' 0] lc s show ?thesis
    by (auto simp: lock_chain_def)
qed

text \<open>
  C35. Where \<open>pthread_mutex_lock\<close> does not return.  When the chain of owners closes a cycle (for instance because the caller
  already owns this non-recursive mutex) the priority propagation runs round it for ever, however long it is given; when the
  owner of the mutex has been woken for another mutex and has not run yet, its \<open>sleep_on\<close> still names that mutex, which has no
  owner, and the propagation follows the null pointer.
\<close>

theorem lock_faults:
  assumes "reachable s" and "pthread_current s = c" and "fr s c = FRun" and "c \<noteq> pthread_idle"
    and "owner (mutexes s m) = Some x" and "mtype (mutexes s m) \<noteq> PTHREAD_MUTEX_RECURSIVE_NP \<or> x \<noteq> c"
  shows "(x = c \<longrightarrow> endless (lock_waiting c m s) c) \<and>
    (endless (lock_waiting c m s) c \<longrightarrow>
       pthread_mutex_lock m s = Fault Diverge \<and> (\<forall>n. pthread_spread n c (lock_waiting c m s) = Fault Diverge)) \<and>
    (x \<noteq> c \<and> sleep_on (threads s x) = Some k \<and> owner (mutexes s k) = None \<longrightarrow> pthread_mutex_lock m s = Fault NullDeref)"
proof (intro conjI impI)
  let ?w = "lock_waiting c m s"
  note r = run_facts [OF assms(1)]
  have free: "sleep_on (threads s c) = None" and ok: "kernel_ok s" using r assms(2,3) reachable_ok [OF assms(1)] by auto
  have w: "blocker ?w c = Some x" using assms(5) by (simp add: blocker_def lock_waiting_def)
  show "endless ?w c" if "x = c"
    using w that unfolding endless_def by (intro exI [of _ "\<lambda>_. c"]) simp
  have "lock (mutexes s m) \<noteq> 1" using mutex_free [OF mx_invD(3) [OF kinvD(4) [OF kernel_okD(1) [OF ok]]], of m] assms(5) by simp
  then have d: "decided c ?w (pthread_mutex_lock m s)"
    using lock_settled [OF ok assms(2,4) free, of m] assms(2,5,6) by (auto simp: settled_def lock_spreads_def)
  show "pthread_mutex_lock m s = Fault Diverge" if "endless ?w c"
    using d that endless_not_ends [OF that] by (auto simp: decided_def)
  show "\<forall>n. pthread_spread n c ?w = Fault Diverge" if "endless ?w c"
    using endless_faults_both that ksched_prio_wf [OF kinvD(2) [OF kinv_lock_waiting [OF kernel_okD(1) [OF ok] assms(2) free]]] by blast
  show "pthread_mutex_lock m s = Fault NullDeref" if a: "x \<noteq> c \<and> sleep_on (threads s x) = Some k \<and> owner (mutexes s k) = None"
  proof -
    have "broken ?w c [x]" using a w by (auto simp: lock_waiting_def)
    from broken_ends [OF this] d show ?thesis by (auto simp: decided_def)
  qed
qed

theorem lock_faults_witness:
  "(\<exists>s. reachable s \<and> pthread_current s = 0 \<and> owner (mutexes s 0) = Some 0 \<and> pthread_mutex_lock 0 s = Fault Diverge) \<and>
   (\<exists>s. reachable s \<and> fr s (pthread_current s) = FRun \<and> pthread_mutex_lock 1 s = Fault NullDeref)"
proof
  obtain s where s: "scene 1 s" "reachable s" "pthread_current s = 0" "fr s 0 = FRun" "owner (mutexes s 0) = Some 0"
    by (rule scene_owner)
  then have "mtype (mutexes s 0) \<noteq> PTHREAD_MUTEX_RECURSIVE_NP"
    by (simp add: scene_def PTHREAD_MUTEX_FAST_NP_def PTHREAD_MUTEX_RECURSIVE_NP_def)
  with lock_faults [OF s(2-4) _ s(5)] s show "\<exists>s. reachable s \<and> pthread_current s = 0 \<and> owner (mutexes s 0) = Some 0 \<and>
      pthread_mutex_lock 0 s = Fault Diverge"
    using idle_32 by auto
next
  from scene_handover obtain s where s: "reachable s" "pthread_current s = 0" "fr s 0 = FRun" "thstate s 1 = PTHREAD_STATE_RUNNING"
      "sleep_on (threads s 1) = Some 0" "owner (mutexes s 0) = None" "owner (mutexes s 1) = Some 1"
    by blast
  with lock_faults [OF s(1-3) _ s(7), of 0] show "\<exists>s. reachable s \<and> fr s (pthread_current s) = FRun \<and>
      pthread_mutex_lock 1 s = Fault NullDeref"
    using idle_32 by auto
qed

text \<open>
  C2. Progress.  In every reachable state every call that keeps the rules of use returns, the resumption of every
  suspended call, and the timer interrupt too, and the state it leaves is reachable again: no assertion fails, no array is left, no queue is
  corrupted and no loop runs on.  The only exceptions are calls that pass on priorities along a chain of
  owners; they return exactly when the chain ends at a thread that does not wait, follow a null pointer when it ends at a
  mutex between two owners, and do not return when it never ends.  The relation of the kernel's steps is exactly this function.
\<close>

theorem kernel_progress:
  assumes "reachable s"
  shows "(\<forall>e. event_ok e s \<longrightarrow>
      (case spreads e s of
         None \<Rightarrow> \<exists>s'. exec e s = Ok s' \<and> reachable s'
       | Some (t, z) \<Rightarrow>
           (\<exists>xs. chain z t xs) \<and> (\<exists>s'. exec e s = Ok s' \<and> reachable s') \<or>
           (\<exists>xs. broken z t xs) \<and> exec e s = Fault NullDeref \<or>
           endless z t \<and> exec e s = Fault Diverge)) \<and>
    (\<forall>s'. step s s' \<longleftrightarrow> (\<exists>e. event_ok e s \<and> exec e s = Ok s'))"
proof (intro conjI allI impI)
  fix e assume e: "event_ok e s"
  note r = reachable_settled [OF assms e]
  have "\<exists>s'. exec e s = Ok s' \<and> reachable s'" if "is_Ok (exec e s)" using that r(2) by (auto simp: is_Ok_iff)
  with r(1) show "case spreads e s of
         None \<Rightarrow> \<exists>s'. exec e s = Ok s' \<and> reachable s'
       | Some (t, z) \<Rightarrow>
           (\<exists>xs. chain z t xs) \<and> (\<exists>s'. exec e s = Ok s' \<and> reachable s') \<or>
           (\<exists>xs. broken z t xs) \<and> exec e s = Fault NullDeref \<or>
           endless z t \<and> exec e s = Fault Diverge"
    by (auto simp: settled_def decided_def split: option.splits)
qed (rule step_iff_exec)

theorem kernel_progress_witness:
  "\<exists>s s'. reachable s \<and> pthread_current s = 0 \<and> owner (mutexes s 0) = Some 0 \<and> exec (EWait 0 0 None) s = Ok s' \<and> reachable s' \<and>
     (\<forall>secs. unat (secs * of_nat CONFIG_HZ) < 2 ^ 31 \<longrightarrow> (\<exists>s'. exec (ESleep secs) s = Ok s' \<and> reachable s')) \<and>
     exec (ELock 0) s = Fault Diverge"
proof -
  obtain s where s: "scene 1 s" "reachable s" "pthread_current s = 0" "fr s 0 = FRun" "owner (mutexes s 0) = Some 0"
      "recursive_count (mutexes s 0) = 1"
    by (rule scene_owner)
  have p: "event_ok e s \<Longrightarrow> case spreads e s of
         None \<Rightarrow> \<exists>s'. exec e s = Ok s' \<and> reachable s'
       | Some (t, z) \<Rightarrow>
           (\<exists>xs. chain z t xs) \<and> (\<exists>s'. exec e s = Ok s' \<and> reachable s') \<or>
           (\<exists>xs. broken z t xs) \<and> exec e s = Fault NullDeref \<or>
           endless z t \<and> exec e s = Fault Diverge" for e
    using kernel_progress [OF s(2)] by blast
  note mx = kinvD(4) [OF kernel_okD(1) [OF reachable_ok [OF s(2)]]]
  have q: "0 \<in> set (mutex_queue (threads s 0))" using mx_invD(1) [OF mx, of 0 0] s(5) by simp
  have l: "lock (mutexes s 0) \<noteq> 1" using mutex_free [OF mx_invD(3) [OF mx], of 0] s(5) by simp
  have e: "event_ok (EWait 0 0 None) s" "event_ok (ELock 0) s"
    "unat (secs * of_nat CONFIG_HZ) < 2 ^ 31 \<Longrightarrow> event_ok (ESleep secs) s" for secs
    using s q idle_32 by (simp_all add: event_ok_def)
  have "spreads (ELock 0) s = Some (0, lock_waiting 0 0 s)"
    using s l by (simp add: lock_spreads_def scene_def PTHREAD_MUTEX_FAST_NP_def PTHREAD_MUTEX_RECURSIVE_NP_def)
  moreover have "endless (lock_waiting 0 0 s) 0"
    using s(5) unfolding endless_def by (intro exI [of _ "\<lambda>_. 0"]) (simp add: blocker_def lock_waiting_def)
  ultimately have "exec (ELock 0) s = Fault Diverge"
    using p [OF e(2)] endless_not_ends [of "lock_waiting 0 0 s" 0] by auto
  with s(2,3,5) p [OF e(1)] p [OF e(3)] show ?thesis by fastforce
qed

section \<open>Scheduling\<close>

text \<open>
  C29. Who runs next.  A thread that gives up the processor (\<open>pthread_yield\<close>) hands it to a runnable thread of the highest
  effective priority; exactly the runnable threads are on the run queue, and nothing but links, time slices and the current
  thread changes.  A thread that blocks is taken off its level of the run queue, and the bitmap then leads \<open>run_queue_peek\<close> to
  another runnable thread, of the highest priority among those left.
\<close>

theorem yield_picks_best:
  assumes "reachable s"
  shows "(\<exists>s'. pthread_yield s = Ok s' \<and> thstate s' (pthread_current s') = PTHREAD_STATE_RUNNING \<and>
      (\<forall>t. thstate s' t = PTHREAD_STATE_RUNNING \<longrightarrow> eprio s' t \<le> eprio s' (pthread_current s')) \<and>
      (\<forall>t. linked s' t \<longleftrightarrow> thstate s' t = PTHREAD_STATE_RUNNING) \<and> sched_frame s s') \<and>
    (\<forall>c. c \<noteq> pthread_idle \<longrightarrow>
      (\<exists>s' n. run_queue_dequeue c s = Ok s' \<and> run_queue_peek s' = Ok n \<and> n \<noteq> c \<and> linked s n \<and>
        (\<forall>y. linked s y \<and> y \<noteq> c \<longrightarrow> eprio s y \<le> eprio s n)))"
proof (intro conjI allI impI)
  note k = kernel_okD(1) [OF reachable_ok [OF assms]]
  from schedule_spec [OF sched_inv_pre [OF kinvD(3) [OF k]] kinvD(5) [OF k]] obtain s' where
    "schedule s = Ok s'" "sched_done s'" "sched_frame s s'"
    by blast
  then show "\<exists>s'. pthread_yield s = Ok s' \<and> thstate s' (pthread_current s') = PTHREAD_STATE_RUNNING \<and>
      (\<forall>t. thstate s' t = PTHREAD_STATE_RUNNING \<longrightarrow> eprio s' t \<le> eprio s' (pthread_current s')) \<and>
      (\<forall>t. linked s' t \<longleftrightarrow> thstate s' t = PTHREAD_STATE_RUNNING) \<and> sched_frame s s'"
    by (intro exI [of _ s']) (auto simp: pthread_yield_def sched_done_def sched_inv_def top_prio_def)
  fix c assume c: "c \<noteq> pthread_idle"
  have "rq_wf s" "linked s pthread_idle" "eprio s c \<le> 31"
    using kinvD(3) [OF k] by (auto simp: sched_inv_def sched_wf_def)
  with rq.block_hands_over [of s pthread_idle c] c show "\<exists>s' n. run_queue_dequeue c s = Ok s' \<and> run_queue_peek s' = Ok n \<and> n \<noteq> c \<and>
      linked s n \<and> (\<forall>y. linked s y \<and> y \<noteq> c \<longrightarrow> eprio s y \<le> eprio s n)"
    by auto
qed

theorem yield_picks_best_witness:
  "\<exists>s s' s'' n. reachable s \<and> pthread_current s = 1 \<and> pthread_yield s = Ok s' \<and> thstate s' (pthread_current s') = PTHREAD_STATE_RUNNING \<and>
    run_queue_dequeue 1 s = Ok s'' \<and> run_queue_peek s'' = Ok n \<and> n \<noteq> 1"
proof -
  obtain s where s: "reachable s" "pthread_current s = 1"
    by (rule preempted)
  have "1 \<noteq> pthread_idle" by (simp add: idle_32)
  with yield_picks_best [OF s(1)] s show ?thesis
    by blast
qed







section \<open>Threads\<close>



text \<open>
  C33. \<open>pthread_exit\<close> always returns to the scheduler with another thread running; a detached thread frees its slot,
  any other keeps its return value for the joiner, and the thread that waits to join it is runnable again.
\<close>

theorem exit_hands_over:
  assumes "reachable s" and "pthread_current s = c" and "fr s c = FRun" and "c \<noteq> pthread_idle"
  shows "\<exists>s'. pthread_exit r s = Ok s' \<and> kinv s' \<and> sched_done s' \<and> pthread_current s' \<noteq> c \<and>
    th_retval (threads s' c) = r \<and>
    (if th_flags (threads s c) AND PTHREAD_FLAG_DETACH \<noteq> 0 then thstate s' c = PTHREAD_STATE_NONE
     else thstate s' c = PTHREAD_STATE_EXIT \<and>
       (\<forall>w. waiter (threads s c) = Some w \<longrightarrow> thstate s' w = PTHREAD_STATE_RUNNING))"
proof -
  note r = run_facts [OF assms(1)]
  show ?thesis
    using r(1,5) r(6) [of c] assms(2,3) by (intro exit_spec [OF _ assms(2,4)]) auto
qed

theorem exit_hands_over_witness:
  "\<exists>s s'. reachable s \<and> pthread_current s = 1 \<and> pthread_exit 7 s = Ok s' \<and> thstate s' 1 = PTHREAD_STATE_EXIT \<and>
    th_retval (threads s' 1) = 7"
proof -
  obtain s where s: "reachable s" "pthread_current s = 1" "fr s 1 = FRun" "scene 2 s"
    by (rule preempted)
  have "th_flags (threads s 1) = 0"
    using s(4) by (simp add: scene_def)
  with exit_hands_over [OF s(1-3), of 7] idle_32 s show ?thesis
    by auto
qed

text \<open>
  C34. \<open>pthread_detach\<close> on every state of its target: no such thread, already detached, an exited thread whose slot it
  frees, or a running one, which it marks and whose joiner it releases; an error changes nothing.
\<close>

theorem detach_behaviour:
  assumes "reachable s"
  shows "\<exists>e s'. pthread_detach t s = Ok (e, s') \<and> kinv s' \<and>
    e = (case thstate s t of
           PTHREAD_STATE_NONE \<Rightarrow> ESRCH | PTHREAD_STATE_INIT \<Rightarrow> ESRCH | PTHREAD_STATE_EXIT \<Rightarrow> E_OK
         | _ \<Rightarrow> if th_flags (threads s t) AND PTHREAD_FLAG_DETACH \<noteq> 0 then EINVAL else E_OK) \<and>
    (e = E_OK \<longrightarrow> (if thstate s t = PTHREAD_STATE_EXIT then thstate s' t = PTHREAD_STATE_NONE
       else th_flags (threads s' t) = th_flags (threads s t) OR PTHREAD_FLAG_DETACH \<and>
         (\<forall>w. waiter (threads s t) = Some w \<longrightarrow> thstate s' w = PTHREAD_STATE_RUNNING))) \<and>
    (e \<noteq> E_OK \<longrightarrow> s' = s)"
  using detach_spec [OF kernel_okD(1) [OF reachable_ok [OF assms]]] .

theorem detach_behaviour_witness:
  "\<exists>s s'. reachable s \<and> thstate s 5 = PTHREAD_STATE_NONE \<and> pthread_detach 5 s = Ok (ESRCH, s') \<and> s' = s"
proof -
  obtain s where s: "reachable s" "scene 2 s"
    by (rule preempted)
  then have "thstate s 5 = PTHREAD_STATE_NONE"
    by (simp add: scene_def idle_32)
  with detach_behaviour [OF s(1), of 5] s show ?thesis
    by auto
qed

text \<open>
  C31. \<open>pthread_join\<close> answers \<open>EDEADLK\<close> exactly when waiting would close a cycle of joins (among other errors: the
  thread does not exist, is detached or already joined); otherwise it delivers the return value of an exited thread
  or suspends the caller as the thread's only joiner.  Its search for a cycle always ends.
\<close>

theorem join_behaviour:
  assumes "reachable s" and "pthread_current s = c" and "fr s c = FRun" and "c \<noteq> pthread_idle"
  shows "\<exists>answer s'. pthread_join_pass t s = Ok (answer, s') \<and> kinv s' \<and> acyclic (waits_for s') \<and>
    answer =
      (if thstate s t = PTHREAD_STATE_EXIT then Joined E_OK (Some (th_retval (threads s t)))
       else if thstate s t = PTHREAD_STATE_NONE then Joined ESRCH None
       else if th_flags (threads s t) AND PTHREAD_FLAG_DETACH \<noteq> 0 \<or> waiter (threads s t) \<noteq> None then Joined EINVAL None
       else if (c, t) \<in> (waits_for s)\<^sup>* then Joined EDEADLK None else JoinBlocked) \<and>
    (answer = JoinBlocked \<longrightarrow> sched_done s' \<and> waiter (threads s' t) = Some c \<and> thstate s' c = PTHREAD_STATE_SLEEPING)"
proof -
  note r = run_facts [OF assms(1)]
  have "c < pthread_idle"
    using r(8) assms(2-4) by simp
  from join_pass_spec [OF _ _ assms(2) this, of t] r(1,3,5,6) assms(2,3) obtain s' where
    "pthread_join_pass t s = Ok (join_answer t s, s')" "kinv s'" "join_inv s'"
    "if join_answer t s = JoinBlocked then sched_done s' \<and> waiter (threads s' t) = Some c \<and> thstate s' c = PTHREAD_STATE_SLEEPING
     else pthread_current s' = c \<and> (\<forall>x. waiter (threads s' x) = waiter (threads s x))"
    by auto
  then show ?thesis
    unfolding join_answer_def assms(2) by (intro exI conjI) (assumption, auto simp: join_inv_def)
qed

theorem join_behaviour_witness:
  "\<exists>s s'. reachable s \<and> pthread_current s = 1 \<and> pthread_join_pass 1 s = Ok (Joined EDEADLK None, s')"
proof -
  obtain s where s: "reachable s" "pthread_current s = 1" "fr s 1 = FRun" "scene 2 s"
    by (rule preempted)
  with join_behaviour [OF s(1-3), of 1] idle_32 show ?thesis
    by (auto simp: scene_def)
qed

section \<open>Condition variables\<close>

text \<open>
  C27. \<open>pthread_cond_wait\<close> is atomic: registering the caller in the condition's queue, putting it to sleep, releasing the
  mutex and giving up the processor happen in one step, so that no signal can fall in between.
\<close>

theorem cond_wait_atomic:
  assumes "reachable s" and "pthread_current s = t" and "fr s t = FRun" and "t \<noteq> pthread_idle"
    and "owner (mutexes s m) = Some t" and "recursive_count (mutexes s m) = 1"
  shows "\<exists>s'. cond_wait_begin v m s = Ok s' \<and> step s (set_fr t (FCondUnlocked v m abstime) s') \<and> pthread_current s' \<noteq> t \<and>
    thstate s' t = PTHREAD_STATE_SLEEPING \<and> cond_wq (conds s' v) = cond_wq (conds s v) @ [t] \<and>
    owner (mutexes s' m) = None \<and> sched_done s'"
proof -
  note r = run_facts [OF assms(1)]
  have k: "kinv s" and so: "sleep_on (threads s t) = None"
    using r(1,5) assms(2,3) by auto
  have m: "m \<in> set (mutex_queue (threads s t))"
    using mx_invD(1) [OF kinvD(4) [OF k]] assms(5) by blast
  from cond_wait_begin_spec [OF k assms(2,4) so m assms(6), of v] obtain s' where s': "cond_wait_begin v m s = Ok s'"
      "sched_done s'" "pthread_current s' \<noteq> t" "thstate s' t = PTHREAD_STATE_SLEEPING"
      "cond_wq (conds s' v) = cond_wq (conds s v) @ [t]" "owner (mutexes s' m) = None"
    by (elim exE conjE)
  from step.CondWait [OF assms(2-4) m assms(6) s'(1)] s' show ?thesis
    by blast
qed

theorem cond_wait_atomic_witness:
  "\<exists>s s'. reachable s \<and> pthread_current s = 0 \<and> cond_wait_begin 3 0 s = Ok s' \<and> thstate s' 0 = PTHREAD_STATE_SLEEPING \<and>
    cond_wq (conds s' 3) = [0]"
proof -
  obtain s where s: "scene 1 s" "reachable s" "pthread_current s = 0" "fr s 0 = FRun" "owner (mutexes s 0) = Some 0"
    "recursive_count (mutexes s 0) = 1"
    by (rule scene_owner)
  have "cond_wq (conds s 3) = []"
    using s(1) by (simp add: scene_def)
  with cond_wait_atomic [OF s(2-4) _ s(5,6), of 3] s idle_32 show ?thesis
    by fastforce
qed

text \<open>A state in which thread 0 waits for condition 3.\<close>

lemma scene_waiting:
  obtains s where "reachable s" "fr s 0 = FCondUnlocked 3 0 abstime" "thstate s 0 = PTHREAD_STATE_SLEEPING" "cond_wq (conds s 3) = [0]"
proof -
  obtain s where s: "scene 1 s" "reachable s" "pthread_current s = 0" "fr s 0 = FRun" "owner (mutexes s 0) = Some 0"
    "recursive_count (mutexes s 0) = 1"
    by (rule scene_owner)
  note k = run_facts [OF s(2)]
  have m: "0 \<in> set (mutex_queue (threads s 0))"
    using mx_invD(1) [OF kinvD(4) [OF k(1)]] s(3-5) by simp
  have i: "(0 :: nat) \<noteq> pthread_idle" and q: "cond_wq (conds s 3) = []"
    using s(1) by (simp_all add: idle_32 scene_def)
  from cond_wait_begin_spec [OF _ s(3) i _ m s(6), of 3] k(1,5) s(3,4) q obtain s' where s': "cond_wait_begin 3 0 s = Ok s'"
      "thstate s' 0 = PTHREAD_STATE_SLEEPING" "cond_wq (conds s' 3) = [0]"
    by auto
  have "reachable (set_fr 0 (FCondUnlocked 3 0 abstime) s')"
    using step.CondWait [OF s(3,4) i m s(6) s'(1)] reachable.Step [OF s(2)] by blast
  then show ?thesis
    using s'(2,3) by (intro that [of "set_fr 0 (FCondUnlocked 3 0 abstime) s'"]) simp_all
qed

lemma run_ticks_asleep:
  assumes "kinv s" and "timer_ok (ticks s) (tctx s)" and "\<And>t. t \<in> active (tctx s) \<Longrightarrow> tm_thread (timers (tctx s) t) \<noteq> c"
  shows "\<exists>s'. run_ticks n s = Ok s' \<and> thstate s' c = thstate s c"
  using assms
proof (induction n arbitrary: s)
  case (Suc n)
  from timer_interrupt_spec [OF Suc.prems(1,2)] obtain s1 where s1: "timer_interrupt s = Ok s1" "kinv s1"
      "timer_ok (ticks s1) (tctx s1)" "same_times (tctx s) (tctx s1)"
      "active (tctx s1) = {t \<in> active (tctx s). 1 < due (ticks s) (expires (timers (tctx s) t))}"
      "\<forall>t. thstate s1 t = (if t \<in> due_threads (ticks s) 1 (tctx s) then PTHREAD_STATE_RUNNING else thstate s t)"
    by (elim exE conjE)
  have "c \<notin> due_threads (ticks s) 1 (tctx s)"
    using Suc.prems(3) by (auto simp: due_threads_def)
  moreover have "\<exists>s'. run_ticks n s1 = Ok s' \<and> thstate s' c = thstate s1 c"
    using s1(2-5) Suc.prems(3) by (intro Suc.IH) (auto simp: same_times_def)
  ultimately show ?case
    using s1(1,6) by auto
qed simp

text \<open>
  C36. Sleeping without a timer.  A timed wait cannot time out before it is signalled: the caller of \<open>pthread_cond_timedwait\<close> sleeps
  from the moment it releases the mutex, before any timer is armed, and no number of timer interrupts wakes it there, whatever the
  time limit.  \<open>sleep\<close> and \<open>usleep\<close> mark the thread as sleeping with interrupts enabled: when the time slice ends
  between this and the call of \<open>schedule_timeout\<close>, the thread is switched away and no number of timer interrupts wakes it either.
\<close>

theorem timed_wait_unarmed:
  assumes "reachable s"
  shows "(fr s c = FCondUnlocked v m abstime \<and> thstate s c = PTHREAD_STATE_SLEEPING \<longrightarrow>
      (\<exists>s'. run_ticks n s = Ok s' \<and> thstate s' c = PTHREAD_STATE_SLEEPING)) \<and>
    (pthread_current s = c \<and> fr s c = FRun \<and> c \<noteq> pthread_idle \<and> timeslice (threads s c) = 1 \<and>
       due_threads (ticks s) 1 (tctx s) = {} \<longrightarrow>
      (\<exists>s1 s'. timer_interrupt (set_state c PTHREAD_STATE_SLEEPING s) = Ok s1 \<and> pthread_current s1 \<noteq> c \<and>
        run_ticks n s1 = Ok s' \<and> thstate s' c = PTHREAD_STATE_SLEEPING))"
proof (intro conjI impI)
  note k = kernel_okD [OF reachable_ok [OF assms]]
  have tk: "timer_ok (ticks s) (tctx s)" using k(4) by (simp add: tm_ok_def)
  have none: "tm_thread (timers (tctx s) t) \<noteq> c" if "t \<in> active (tctx s)" "\<not> timed (fr s c)" for t
    using k(4) that by (auto simp: tm_ok_def)
  show "\<exists>s'. run_ticks n s = Ok s' \<and> thstate s' c = PTHREAD_STATE_SLEEPING"
    if "fr s c = FCondUnlocked v m abstime \<and> thstate s c = PTHREAD_STATE_SLEEPING"
    using run_ticks_asleep [OF k(1) tk, of c n] none that by auto
  assume a: "pthread_current s = c \<and> fr s c = FRun \<and> c \<noteq> pthread_idle \<and> timeslice (threads s c) = 1 \<and>
       due_threads (ticks s) 1 (tctx s) = {}"
  then have so: "sleep_on (threads s c) = None" using run_facts(5) [OF assms] by auto
  from tick_in_gap [OF k(1) _ _ so tk] a obtain s1 where s1: "timer_interrupt (set_state c PTHREAD_STATE_SLEEPING s) = Ok s1" "kinv s1"
    "thstate s1 c = PTHREAD_STATE_SLEEPING" "tctx s1 = tctx s" "timer_ok (ticks s1) (tctx s1)"
    by blast
  have "pthread_current s1 \<noteq> c" using kinvD(7) [OF s1(2)] s1(3) by auto
  moreover from run_ticks_asleep [OF s1(2,5), of c n] none a s1(3,4) obtain s' where "run_ticks n s1 = Ok s'"
    "thstate s' c = PTHREAD_STATE_SLEEPING"
    by auto
  ultimately show "\<exists>s1 s'. timer_interrupt (set_state c PTHREAD_STATE_SLEEPING s) = Ok s1 \<and> pthread_current s1 \<noteq> c \<and>
        run_ticks n s1 = Ok s' \<and> thstate s' c = PTHREAD_STATE_SLEEPING"
    using s1(1) by blast
qed

text \<open>A thread alone with the idle thread reaches the last tick of its time slice.\<close>

lemma last_tick:
  assumes "reachable s" and "pthread_current s = c" and "fr s = (\<lambda>_. FRun)" and "active (tctx s) = {}"
  shows "\<exists>s. reachable s \<and> pthread_current s = c \<and> fr s = (\<lambda>_. FRun) \<and> active (tctx s) = {} \<and> timeslice (threads s c) = 1"
  using assms
proof (induction "unat (timeslice (threads s c) - 1)" arbitrary: s rule: less_induct)
  case less
  show ?case
  proof (cases "timeslice (threads s c) = 1")
    case False
    note k = kernel_okD [OF reachable_ok [OF less.prems(1)]]
    have tk: "timer_ok (ticks s) (tctx s)" and d: "due_threads (ticks s) 1 (tctx s) = {}"
      using k(4) less.prems(4) by (auto simp: tm_ok_def due_threads_def)
    from tick_counts [OF k(1) less.prems(2) tk d False] obtain s' where s': "timer_interrupt s = Ok s'" "pthread_current s' = c"
      "timeslice (threads s' c) = timeslice (threads s c) - 1" "tctx s' = tctx s"
      by blast
    have "tick_frame s s'" using timer_interrupt_spec [OF k(1) tk] s'(1) by auto
    then have "fr s' = fr s" by (cases s; cases s') (simp add: tick_frame_def)
    moreover have "reachable s'" using reachable.Step [OF less.prems(1) step.Tick [OF s'(1)]] .
    moreover have "unat (timeslice (threads s' c) - 1) < unat (timeslice (threads s c) - 1)"
      using False unat_minus_one [of "timeslice (threads s c) - 1"] unat_gt_0 [of "timeslice (threads s c) - 1"] by (simp add: s'(3))
    ultimately show ?thesis using less.hyps [of s'] s'(2,4) less.prems(3,4) by simp
  qed (use less.prems in blast)
qed

theorem timed_wait_unarmed_witness:
  "(\<exists>s s'. reachable s \<and> fr s 0 = FCondUnlocked 3 0 (Some \<lparr>ts_sec = 1, ts_nsec = 0\<rparr>) \<and> run_ticks 1000000 s = Ok s' \<and>
      thstate s' 0 = PTHREAD_STATE_SLEEPING) \<and>
   (\<exists>s s1 s'. reachable s \<and> pthread_current s = 0 \<and> timer_interrupt (set_state 0 PTHREAD_STATE_SLEEPING s) = Ok s1 \<and>
      pthread_current s1 \<noteq> 0 \<and> run_ticks 1000000 s1 = Ok s' \<and> thstate s' 0 = PTHREAD_STATE_SLEEPING)"
proof
  obtain s where s: "reachable s" "fr s 0 = FCondUnlocked 3 0 (Some \<lparr>ts_sec = 1, ts_nsec = 0\<rparr>)" "thstate s 0 = PTHREAD_STATE_SLEEPING"
    by (rule scene_waiting)
  from timed_wait_unarmed [OF s(1), of 0 3 0 "Some \<lparr>ts_sec = 1, ts_nsec = 0\<rparr>" 1000000] s
  show "\<exists>s s'. reachable s \<and> fr s 0 = FCondUnlocked 3 0 (Some \<lparr>ts_sec = 1, ts_nsec = 0\<rparr>) \<and> run_ticks 1000000 s = Ok s' \<and>
      thstate s' 0 = PTHREAD_STATE_SLEEPING"
    by blast
next
  obtain z where z: "scene 1 z" "reachable z" "pthread_current z = 0" by (rule scene_owner)
  then have "fr z = (\<lambda>_. FRun)" "active (tctx z) = {}" by (simp_all add: scene_def)
  from last_tick [OF z(2,3) this] obtain s where s: "reachable s" "pthread_current s = 0" "fr s = (\<lambda>_. FRun)" "active (tctx s) = {}"
    "timeslice (threads s 0) = 1"
    by blast
  then have "due_threads (ticks s) 1 (tctx s) = {}" by (simp add: due_threads_def)
  with timed_wait_unarmed [OF s(1), of 0 0 0 None 1000000] s idle_32
  show "\<exists>s s1 s'. reachable s \<and> pthread_current s = 0 \<and> timer_interrupt (set_state 0 PTHREAD_STATE_SLEEPING s) = Ok s1 \<and>
      pthread_current s1 \<noteq> 0 \<and> run_ticks 1000000 s1 = Ok s' \<and> thstate s' 0 = PTHREAD_STATE_SLEEPING"
    by auto
qed

text \<open>
  C28. \<open>pthread_cond_signal\<close> takes one thread off the condition's queue and makes it runnable, the first among those of
  the highest effective priority; \<open>pthread_cond_broadcast\<close> does so with all of them.
\<close>

theorem cond_wakes:
  assumes "reachable s" and "cond_wq (conds s v) \<noteq> []"
  shows "(\<exists>s' t ws us. pthread_cond_signal v s = Ok s' \<and> cond_wq (conds s v) = ws @ t # us \<and> cond_wq (conds s' v) = ws @ us \<and>
      (\<forall>w \<in> set ws. eprio s w < eprio s t) \<and> (\<forall>w \<in> set us. eprio s w \<le> eprio s t) \<and>
      (\<forall>x. thstate s' x = (if x = t then PTHREAD_STATE_RUNNING else thstate s x)) \<and> sched_done s') \<and>
    (\<exists>s'. pthread_cond_broadcast v s = Ok s' \<and> cond_wq (conds s' v) = [] \<and>
      (\<forall>x. thstate s' x = (if x \<in> set (cond_wq (conds s v)) then PTHREAD_STATE_RUNNING else thstate s x)))"
proof
  note k = kernel_okD [OF reachable_ok [OF assms(1)]]
  obtain t where t: "wake_target s (cond_wq (conds s v)) = Some t"
    using assms(2) wake_target_None [of s "cond_wq (conds s v)"] by (cases "wake_target s (cond_wq (conds s v))") auto
  from wake_target_split [OF t] obtain ws us where ws: "cond_wq (conds s v) = ws @ t # us" "\<forall>w \<in> set ws. eprio s w < eprio s t"
      "\<forall>w \<in> set us. eprio s w \<le> eprio s t"
    by (auto simp: word_less_nat_alt word_le_nat_alt)
  then have r: "remove1 t (cond_wq (conds s v)) = ws @ us"
    by (auto simp: remove1_append)
  from cond_signal_spec [OF k(1) t] obtain s' where "pthread_cond_signal v s = Ok s'" "sched_done s'"
      "cond_wq (conds s' v) = remove1 t (cond_wq (conds s v))" "\<forall>x. thstate s' x = (if x = t then PTHREAD_STATE_RUNNING else thstate s x)"
    by (elim exE conjE)
  with ws r show "\<exists>s' t ws us. pthread_cond_signal v s = Ok s' \<and> cond_wq (conds s v) = ws @ t # us \<and> cond_wq (conds s' v) = ws @ us \<and>
      (\<forall>w \<in> set ws. eprio s w < eprio s t) \<and> (\<forall>w \<in> set us. eprio s w \<le> eprio s t) \<and>
      (\<forall>x. thstate s' x = (if x = t then PTHREAD_STATE_RUNNING else thstate s x)) \<and> sched_done s'"
    by (intro exI [of _ s'] exI [of _ t] exI [of _ ws] exI [of _ us]) auto
  from cond_broadcast_spec [OF k(1), of v] show "\<exists>s'. pthread_cond_broadcast v s = Ok s' \<and> cond_wq (conds s' v) = [] \<and>
      (\<forall>x. thstate s' x = (if x \<in> set (cond_wq (conds s v)) then PTHREAD_STATE_RUNNING else thstate s x))"
    by (elim exE conjE) (intro exI conjI)
qed

theorem cond_wakes_witness:
  "\<exists>s s'. reachable s \<and> cond_wq (conds s 3) = [0] \<and> pthread_cond_signal 3 s = Ok s' \<and> thstate s' 0 = PTHREAD_STATE_RUNNING"
proof -
  obtain s where s: "reachable s" "cond_wq (conds s 3) = [0]"
    using scene_waiting [of None] by blast
  with cond_wakes [of s 3] obtain s' t ws us where "pthread_cond_signal 3 s = Ok s'" "[0] = ws @ t # us"
      "\<forall>x. thstate s' x = (if x = t then PTHREAD_STATE_RUNNING else thstate s x)"
    by auto
  with s show ?thesis
    by (intro exI [of _ s] exI [of _ s']) (auto simp: Cons_eq_append_conv)
qed

section \<open>Time\<close>

text \<open>
  C26. A timer interrupt fires exactly the timers that are due: each is removed and its thread made runnable, no other
  timer or thread state changes, and the invariant holds when the interrupt returns.
\<close>

theorem tick_fires_due:
  assumes "reachable s"
  shows "\<exists>s'. timer_interrupt s = Ok s' \<and> kernel_ok s' \<and> ticks s' = ticks s + 1 \<and>
    active (tctx s') = {t \<in> active (tctx s). 1 < due (ticks s) (expires (timers (tctx s) t))} \<and>
    (\<forall>t. thstate s' t = (if t \<in> active (tctx s) \<and> due (ticks s) (expires (timers (tctx s) t)) \<le> 1
       then PTHREAD_STATE_RUNNING else thstate s t)) \<and>
    mutexes s' = mutexes s \<and> conds s' = conds s"
proof -
  note k = kernel_okD [OF reachable_ok [OF assms]]
  have own: "t \<in> due_threads (ticks s) 1 (tctx s) \<longleftrightarrow> t \<in> active (tctx s) \<and> due (ticks s) (expires (timers (tctx s) t)) \<le> 1" for t
    using k(4) unfolding tm_ok_def due_threads_def by force
  from k(4) have tok: "timer_ok (ticks s) (tctx s)"
    by (simp add: tm_ok_def)
  from timer_interrupt_spec [OF k(1) tok] obtain s' where s': "timer_interrupt s = Ok s'" "ticks s' = ticks s + 1"
      "active (tctx s') = {t \<in> active (tctx s). 1 < due (ticks s) (expires (timers (tctx s) t))}"
      "\<forall>t. thstate s' t = (if t \<in> due_threads (ticks s) 1 (tctx s) then PTHREAD_STATE_RUNNING else thstate s t)" "tick_frame s s'"
    by (elim exE conjE)
  have "kernel_ok s'"
    using step_kernel_ok [OF step.Tick [OF s'(1)]] reachable_ok [OF assms] by blast
  with s'(1-3,5) s'(4) [unfolded own] show ?thesis
    by (intro exI [of _ s']) (simp add: tick_frame_def)
qed

theorem tick_fires_due_witness:
  "\<exists>s s'. reachable s \<and> ticks s = 0 \<and> timer_interrupt s = Ok s' \<and> ticks s' = 1 \<and> mutexes s' = mutexes s"
proof -
  obtain s where s: "reachable s" "scene 2 s"
    by (rule preempted)
  then have "ticks s = 0"
    by (simp add: scene_def)
  with tick_fires_due [OF s(1)] s(1) show ?thesis
    by fastforce
qed



end
