(* ===== verification/DeviceProps.thy ===== *)
theory DeviceProps
  imports KernelProps Shell Cmos Entry
begin

text \<open>
  The properties of the machine-dependent part and of the shell: keyboard, real-time clock, stack frames of threads and of
  interrupts, command lines and the calendar sheet.  Each witness applies its property to concrete data.
\<close>

section \<open>Keyboard\<close>

text \<open>
  C16. A keyboard interrupt works for every scan code: no table is read out of bounds, the controller is not waited for
  longer than it is busy, the kernel invariant is kept, and what is put into the ring behind the waiting characters is
  nothing, one character, or one complete escape sequence, never a part of one.
\<close>

theorem keyboard_whole_sequences:
  fixes s :: "'a tkernel_scheme"
  assumes "cb_ok (kcb kb)" and "ready 2 io" and "kinv s"
  shows "\<exists>kb' io' s' xs. keyboard_interrupt code (kb, io) s = Ok ((kb', io'), s') \<and> kinv s' \<and> cb_ok (kcb kb') \<and>
    cb_bytes (kcb kb') = cb_bytes (kcb kb) @ xs \<and>
    (length xs \<le> 1 \<or> (\<exists>c. xs = [0x1b, 0x5b, c] \<and> isupper (uint c)) \<or> (\<exists>c. xs = [0x1b, 0x5b, c, 0x7e]) \<or>
     (\<exists>c. xs = [0x1b, 0x5b, 0x5b, c]))"
  using keyboard_interrupt_ok [OF assms, of code] unfolding keyed_def key_seq_def by blast

definition idle_keyboard :: keyboard where
  "idle_keyboard =
     \<lparr>scroll_lock_led = False, num_lock_led = False, caps_lock_led = False, key_l_ctrl = False, key_r_ctrl = False,
      key_l_shift = False, key_r_shift = False, key_l_alt = False, key_r_alt = False, esc = 0,
      kcb = circular_buffer_init (\<lambda>_. 0) 1024, kb_waiter = None\<rparr>"

definition idle_io :: io where
  "idle_io = \<lparr>io_ports = [], io_status = [0, 2, 0], io_text = []\<rparr>"

lemma idle_keyboard_ok: "cb_ok (kcb idle_keyboard)" "cb_bytes (kcb idle_keyboard) = []" "ready 2 idle_io" "kb_waiter idle_keyboard = None"
  using cb_init_ok [of 1024 "\<lambda>_. 0"] by (simp_all add: idle_keyboard_def idle_io_def ready_def)

theorem keyboard_whole_sequences_witness:
  "\<exists>(s :: ksys) kb' io' s'. keyboard_interrupt 0x48 (idle_keyboard, idle_io) s = Ok ((kb', io'), s') \<and> kinv s'"
proof -
  obtain s where "reachable s"
    by (rule preempted)
  from keyboard_whole_sequences [OF idle_keyboard_ok(1,3) kernel_okD(1) [OF reachable_ok [OF this]], of "0x48"] show ?thesis
    by blast
qed

section \<open>Real-time clock\<close>

text \<open>
  C21. Reading the real-time clock: if its registers show a date of the years 2000 to 2099 that a 32-bit \<open>time_t\<close> holds, in
  binary or BCD and with 12 or 24 hours, \<open>cmos_init\<close> ends, sets the wall clock to the time of that date and leaves the rest of
  the kernel alone; \<open>gmtime_r\<close> gives the date back.
\<close>

theorem cmos_sets_clock:
  fixes k :: "'a tkernel_scheme"
  assumes "shows_tm rd bin h24 t" and "tm_ok t" and "100 \<le> tm_year t" and "tm_year t < 200" and "mktime t = Ok sec" and "sec < 2 ^ 31"
  shows "(\<exists>s' tx. cmos_init rd t0 s out k = Ok (s', out @ tx, k\<lparr>wall_tv := \<lparr>tv_sec = sec, tv_usec = 0\<rparr>\<rparr>)) \<and>
    gmtime_r sec = t\<lparr>tm_wday := (sec div 86400 + 4) mod 7\<rparr>"
  using cmos_init_shown [OF assms(1-5)] mktime_gmtime [OF assms(2,5)] by blast

definition demo_tm :: tm where
  "demo_tm = \<lparr>tm_sec = 26, tm_min = 15, tm_hour = 21, tm_mday = 14, tm_mon = 2, tm_year = 115, tm_wday = 0\<rparr>"

definition demo_clock :: "nat \<Rightarrow> u8 \<Rightarrow> u8" where
  "demo_clock n r =
     (if r = 0x00 then 0x26 else if r = 0x02 then 0x15 else if r = 0x04 then 0x89 else if r = 0x07 then 0x14
      else if r = 0x08 then 0x03 else if r = 0x09 then 0x15 else 0)"

lemma demo_clock_shows: "shows_tm demo_clock False False demo_tm" "TimeLib.tm_ok demo_tm" "mktime demo_tm = Ok 1426367726"
proof -
  show "shows_tm demo_clock False False demo_tm"
    by (simp add: shows_tm_def demo_clock_def demo_tm_def reg_b_def show_tm_def show_num_def show_hour_def)
qed code_simp+

theorem cmos_sets_clock_witness:
  "\<exists>s' tx. cmos_init demo_clock demo_tm (0, []) [] zeroed = Ok (s', tx, zeroed\<lparr>wall_tv := \<lparr>tv_sec = 1426367726, tv_usec = 0\<rparr>\<rparr>)"
  using cmos_sets_clock [OF demo_clock_shows(1,2) _ _ demo_clock_shows(3), of demo_tm "(0, [])" "[]" zeroed]
  by (simp add: demo_tm_def)

section \<open>Threads on the processor\<close>

text \<open>
  C22. The stack frames of threads.  The first switch to the frame that \<open>arch_pthread_init\<close> builds enters the wrapper with the start
  routine and its argument as parameters, interrupts enabled, and \<open>abort\<close> as return address.  A thread that calls
  \<open>arch_context_switch\<close> and is later restored from its saved stack pointer continues behind the call with the registers,
  segment and flags it had, whatever ran in between and left the 13 words of its frame alone.
\<close>

theorem thread_frames:
  "(arch_pthread_init stack_addr stack_size wrapper start_routine arg ret m = (sp, m') \<and> isr_restore (c\<lparr>esp := sp\<rparr>, m') = (c', m'') \<longrightarrow>
      eip c' = wrapper \<and> seg_cs c' = KERNEL_CS \<and> eflags c' = CPU_FLAG_IF \<and> m'' (esp c') = ret \<and>
      m'' (esp c' + 4) = start_routine \<and> m'' (esp c' + 8) = arg) \<and>
    (context_switch_save (c, m) = (c1, m1) \<and> (\<forall>i < 13. m2 (esp c1 + 4 * of_nat i) = m1 (esp c1 + 4 * of_nat i)) \<and>
      isr_restore (c2\<lparr>esp := esp c1\<rparr>, m2) = (c3, m3) \<longrightarrow>
      eip c3 = m (esp c) \<and> esp c3 = esp c + 4 \<and> eflags c3 = eflags c \<and> seg_cs c3 = seg_cs c \<and>
      ebx c3 = ebx c \<and> ecx c3 = ecx c \<and> edx c3 = edx c \<and> esi c3 = esi c \<and> edi c3 = edi c \<and> ebp c3 = ebp c)"
  using new_frame [of stack_addr stack_size wrapper start_routine arg ret m sp m' c c' m'']
    switch_roundtrip [of c m c1 m1 m2 c2 c3 m3] by blast

definition demo_cpu :: cpu where
  "demo_cpu = \<lparr>eax = 0, ebx = 0, ecx = 0, edx = 0, esi = 0, edi = 0, ebp = 0, esp = 0, eip = 0, eflags = 0, seg_cs = 0\<rparr>"

theorem thread_frames_witness:
  "\<exists>sp m' c' m''. arch_pthread_init 0x1000 1024 0x200 0x300 7 0x400 (\<lambda>_. 0) = (sp, m') \<and>
    isr_restore (demo_cpu\<lparr>esp := sp\<rparr>, m') = (c', m'') \<and> eip c' = 0x200 \<and> m'' (esp c' + 8) = 7"
proof -
  obtain sp m' where i: "arch_pthread_init 0x1000 1024 0x200 0x300 7 0x400 (\<lambda>_. 0) = (sp, m')"
    by fastforce
  obtain c' m'' where r: "isr_restore (demo_cpu\<lparr>esp := sp\<rparr>, m') = (c', m'')"
    by fastforce
  with thread_frames [of "0x1000" 1024 "0x200" "0x300" 7 "0x400" "\<lambda>_. 0" sp m' demo_cpu c' m''] i show ?thesis
    by blast
qed

text \<open>
  C23. Interrupts are transparent.  The gate that \<open>idt_init\<close> makes for a vector leads to its entry point through the kernel's code
  segment, which is flat in the table of \<open>gdt_init\<close>.  The code there, whichever kind of vector it is for, runs with interrupts masked
  and hands \<open>interrupt_dispatch\<close> a context with the registers of the interrupted code, the number of the vector and the error
  code; without a handler these are what the default handler shows before it halts.  When the frame is restored, after
  whatever the handler and other threads did without touching its 13 words, every register of the interrupted code is as
  before; the entry has written no word but those 13 below its stack pointer.
\<close>

theorem interrupt_transparent:
  assumes "length isr \<le> IRQ_MAX + 1" and "k < length isr" and "isr ! k = Some entry" and "lgdt gdt_addr sr = (tp, sr')"
    and "isr_enter entry (of_nat k) code (c, m) = (c1, m1)"
    and "\<forall>i < 13. m2 (esp c1 + 4 * of_nat i) = m1 (esp c1 + 4 * of_nat i)"
    and "isr_restore (c2\<lparr>esp := esp c1\<rparr>, m2) = (c3, m3)"
  shows "\<exists>idt gd ctx. idt_init isr = Ok idt \<and> gate_addr (idt ! k) = entry \<and> id_present (idt ! k) = 1 \<and>
    id_type_field (idt ! k) = id_type_bits ID_TYPE_INTERRUPT_GATE \<and>
    selects tp (gdt_init gdt) (id_seg_sel (idt ! k)) = Some gd \<and> flat True gd \<and>
    eip c1 = entry \<and> \<not> interruptible c1 \<and> ctx = ctx_at m1 (esp c1) \<and>
    ctx = \<lparr>ctx_edi = edi c, ctx_esi = esi c, ctx_ebp = ebp c, ctx_esp = esp c - 20, ctx_ebx = ebx c, ctx_edx = edx c, ctx_ecx = ecx c,
      ctx_eax = eax c, ctx_irq = of_nat k, ctx_error = (case code of None \<Rightarrow> 0 | Some e \<Rightarrow> e), ctx_eip = eip c, ctx_cs = seg_cs c,
      ctx_eflags = eflags c\<rparr> \<and>
    unhandled ctx (tb, out) = Ok (text_buffer_clear tb, out @ context_text ctx) \<and>
    (\<forall>a. (\<forall>i < 13. a \<noteq> esp c - 52 + 4 * of_nat i) \<longrightarrow> m1 a = m a) \<and> c3 = c"
proof -
  from idt_fill_spec [of 0 isr "replicate (IRQ_MAX + 1) gate_zero"] assms(1) obtain idt where idt: "idt_init isr = Ok idt"
    and g: "idt ! k = id_set entry 0 ID_TYPE_INTERRUPT_GATE (replicate (IRQ_MAX + 1) gate_zero ! k)"
    using assms(2,3) by (fastforce simp: idt_init_def)
  have s: "id_seg_sel (idt ! k) = sr_cs sr'" using assms(4) by (auto simp: g gate_set_fields lgdt_def)
  from flat_segments(1) [OF assms(4), of gdt] obtain gd where gd: "selects tp (gdt_init gdt) (sr_cs sr') = Some gd" "flat True gd"
    by blast
  have st: "m1 a = m a" if "\<forall>i < 13. a \<noteq> esp c - 52 + 4 * of_nat i" for a
    using isr_enter_stack(2) [OF assms(5), of a] that unfolding isr_enter_stack(1) [OF assms(5)] by blast
  show ?thesis
    using idt gd isr_enter_context [OF assms(5)] isr_enter_masked [OF assms(5)] unhandled_text [of _ tb out] st
      interrupt_roundtrip [OF assms(5) _ assms(7)] assms(6)
    by (intro exI [of _ idt] exI [of _ gd] exI [of _ "ctx_at m1 (esp c1)"]) (simp add: s, simp add: g gate_addr_set gate_set_fields)
qed

theorem interrupt_transparent_witness:
  "\<exists>idt c1 m1 c3 m3. idt_init (replicate 33 None @ [Some 0x5000]) = Ok idt \<and> gate_addr (idt ! 33) = 0x5000 \<and>
    isr_enter 0x5000 33 None (demo_cpu\<lparr>eax := 7, eflags := CPU_FLAG_IF\<rparr>, (\<lambda>_. 0)) = (c1, m1) \<and> ctx_eax (ctx_at m1 (esp c1)) = 7 \<and>
    isr_restore (demo_cpu\<lparr>esp := esp c1\<rparr>, m1) = (c3, m3) \<and> c3 = demo_cpu\<lparr>eax := 7, eflags := CPU_FLAG_IF\<rparr>"
proof -
  let ?c = "demo_cpu\<lparr>eax := 7, eflags := CPU_FLAG_IF\<rparr>" and ?isr = "replicate 33 None @ [Some 0x5000 :: u32 option]"
  obtain c1 m1 where e: "isr_enter 0x5000 (of_nat 33) None (?c, \<lambda>_. 0) = (c1, m1)" by fastforce
  obtain c3 m3 where r: "isr_restore (demo_cpu\<lparr>esp := esp c1\<rparr>, m1) = (c3, m3)" by fastforce
  obtain tp sr' where l: "lgdt 0 \<lparr>sr_cs = 0, sr_ds = 0, sr_ss = 0, sr_es = 0, sr_fs = 0, sr_gs = 0\<rparr> = (tp, sr')"
    by (simp add: lgdt_def)
  have i: "length ?isr \<le> IRQ_MAX + 1" "33 < length ?isr" "?isr ! 33 = Some 0x5000" by (simp_all add: IRQ_MAX_def nth_append)
  from interrupt_transparent [OF i l e _ r] e r show ?thesis by fastforce
qed

section \<open>Shell\<close>

text \<open>
  C20. From typed characters to the command: the shell takes the line that the editing leaves (backspace deletes, tab is
  ignored, newline or a full buffer ends it), cuts it at the separators, and runs the command named by the first word with
  the words as its argument strings; it says so when there is no such command, and runs nothing for an empty line
  or one of 20 or more words.
\<close>

theorem shell_runs_command:
  fixes ks :: "nat \<Rightarrow> 'a tkernel_scheme"
  assumes "\<not> is_exit st" and "cstr (sh_mem st) d ds" and "ds \<noteq> []" and "d + length ds < b \<or> b + LINE_MAX \<le> d"
    and "edit_line [] inp = Some (line, rest)" and "ws = tokens ds (line_text line)"
  shows "\<exists>m out argv st'. st' = st\<lparr>sh_mem := m, sh_io := (sh_io st)\<lparr>io_text := out\<rparr>\<rparr> \<and> cstr m d ds \<and>
    (length ws < SHELL_ARGS_MAX_NUM \<longrightarrow> list_all2 (cstr m) argv ws) \<and>
    loop env ks b d inp st =
      (if ws = [] \<or> SHELL_ARGS_MAX_NUM \<le> length ws then loop env ks b d rest st'
       else rbind
         (case cmd_find (env_cmds env) (hd ws) of
            None \<Rightarrow> no_such_command (hd ws) st'
          | Some c \<Rightarrow> run_handler env (ks (length rest)) (cmd_handler c) argv st')
         (loop env ks b d rest))"
  using shell_turn [OF assms] .

definition demo_env :: shell_env where
  "demo_env =
     \<lparr>env_cmds = shell_cmds, env_kernel = map of_char ''turnix'',
      env_release = [], env_version = [], env_arch = map of_char ''i386'', env_thread_addr = (\<lambda>_. 0), env_stack = (\<lambda>_. [])\<rparr>"

definition demo_shell :: shell_state where
  "demo_shell = \<lparr>is_exit = False, sh_mem = (\<lambda>a. if a = 10 then 0x20 else 0), sh_io = idle_io\<rparr>"

text \<open>Typing \<open>x\<close>, backspace, \<open>exit now\<close> and newline ends the loop with \<open>is_exit\<close> set.\<close>

theorem shell_runs_command_witness:
  "\<exists>st. loop demo_env (\<lambda>_. zeroed) 100 10 ([0x78, 0x08] @ map of_char ''exit now'' @ [0x0a]) demo_shell = Ok (Some [], st) \<and> is_exit st"
proof -
  have e: "edit_line [] ([0x78, 0x08] @ map of_char ''exit now'' @ [0x0a]) = Some (map of_char ''exit now'', [])"
    by (simp add: LINE_MAX_def)
  have w: "tokens [0x20] (line_text (map of_char ''exit now'')) = [map of_char ''exit'', map of_char ''now'']"
    by code_simp
  have d: "\<not> is_exit demo_shell" "cstr (sh_mem demo_shell) 10 [0x20]"
    by (simp_all add: demo_shell_def)
  from shell_runs_command [OF d _ _ e w [symmetric], of 100 demo_env "\<lambda>_. zeroed"] show ?thesis
    by (auto simp: demo_env_def shell_cmd_defs cmd_find_def do_exit_def SHELL_ARGS_MAX_NUM_def loop.simps)
qed

text \<open>
  C24. The sheet that \<open>cal\<close> prints: the month and the year, the weekdays, and every day of the month in the column
  of its weekday, a new line beginning after each Saturday.
\<close>

theorem calendar_sheet:
  assumes "0 \<le> now - minuteswest * 60" and "now - minuteswest * 60 < 2 ^ 31" and "t = localtime_r minuteswest now"
    and "days = mon_days (is_leapyear (1900 + tm_year t)) (tm_mon t)"
  shows "do_cal_text minuteswest now out =
    Ok (out @ cal_head t @ replicate (3 * nat (weekday (t\<lparr>tm_mday := 1\<rparr>))) 0x20 @
      concat (map (cal_cell (\<lambda>d. weekday (t\<lparr>tm_mday := d\<rparr>))) [1..days]) @
      (if weekday (t\<lparr>tm_mday := days\<rparr>) = 6 then [] else [0x0a]))"
  unfolding assms(3,4) by (rule do_cal_spec [OF assms(1,2)])

text \<open>February 2015.\<close>

definition demo_sheet :: "u8 list" where
  "demo_sheet =
     map of_char ''   February 2015'' @ [0x0a] @
     map of_char ''Su Mo Tu We Th Fr Sa'' @ [0x0a] @
     map of_char '' 1  2  3  4  5  6  7 '' @ [0x0a] @
     map of_char '' 8  9 10 11 12 13 14 '' @ [0x0a] @
     map of_char ''15 16 17 18 19 20 21 '' @ [0x0a] @
     map of_char ''22 23 24 25 26 27 28 '' @ [0x0a]"

theorem calendar_sheet_witness:
  "do_cal_text (-480) 1424000000 [] = Ok (map uint demo_sheet)"
proof -
  define t where "t = localtime_r (-480) 1424000000"
  have t: "t = \<lparr>tm_sec = 20, tm_min = 33, tm_hour = 19, tm_mday = 15, tm_mon = 1, tm_year = 115, tm_wday = 0\<rparr>"
    unfolding t_def by code_simp
  have d: "28 = mon_days (is_leapyear (1900 + tm_year t)) (tm_mon t)"
    unfolding t by code_simp
  have "cal_head t @ replicate (3 * nat (weekday (t\<lparr>tm_mday := 1\<rparr>))) 0x20 @
      concat (map (cal_cell (\<lambda>d. weekday (t\<lparr>tm_mday := d\<rparr>))) [1..28]) @
      (if weekday (t\<lparr>tm_mday := 28\<rparr>) = 6 then [] else [0x0a]) = map uint demo_sheet"
    unfolding t by code_simp
  with calendar_sheet [OF _ _ t_def d, of "[]"] show ?thesis
    by simp
qed

end
