(* ===== verification/Calls.thy ===== *)
theory Calls
  imports Kernel
begin

text \<open>
  What a thread sees of its calls: which mutexes change their owner, and that the other threads are left where they are.  The
  applications are verified on these facts.
\<close>

text \<open>A call of \<open>pthread_mutex_lock\<close>, up to its return or the caller's suspension.\<close>

definition call_lock :: "tid \<Rightarrow> mid \<Rightarrow> ksys \<Rightarrow> ksys result" where
  "call_lock i m s =
     rbind (pthread_mutex_lock m s) (\<lambda>(b, s). Ok (set_fr i (if b then FRun else FLock m) s))"

text \<open>A call of \<open>pthread_cond_wait\<close>, up to the point where it gives up the mutex and the processor.\<close>

definition call_wait :: "tid \<Rightarrow> cid \<Rightarrow> mid \<Rightarrow> ksys \<Rightarrow> ksys result" where
  "call_wait i v m s = rbind (cond_wait_begin v m s) (\<lambda>s. Ok (set_fr i (FCondUnlocked v m None) s))"

text \<open>
  \<open>calm c s s'\<close>: the other threads keep their frames, sleep only if they slept before, and keep their timers; the caller
  exists afterwards.
\<close>

definition calm :: "tid \<Rightarrow> ksys \<Rightarrow> ksys \<Rightarrow> bool" where
  "calm c s s' \<longleftrightarrow> fr s' = fr s \<and>
     (\<forall>t. t \<noteq> c \<longrightarrow> (thstate s' t = thstate s t \<or> thstate s' t = PTHREAD_STATE_RUNNING) \<and>
        (t \<in> active (tctx s) \<longrightarrow> t \<in> active (tctx s')))"

text \<open>Who owns which mutex, and that owned ones are locked once.\<close>

definition owners :: "ksys \<Rightarrow> mid \<Rightarrow> tid option" where
  "owners s m = owner (mutexes s m)"

definition locked_once :: "ksys \<Rightarrow> bool" where
  "locked_once s \<longleftrightarrow> (\<forall>m. owner (mutexes s m) \<noteq> None \<longrightarrow> recursive_count (mutexes s m) = 1)"

lemma calm_sp: "sp_frame e s' \<Longrightarrow> calm c s e \<Longrightarrow> calm c s s'"
  by (simp add: calm_def sp_frameD(1) more_fr [OF sp_frameD(10)] more_tkernel(1) [OF sp_frameD(10)])

lemma owners_sp: "sp_frame e s' \<Longrightarrow> owners s' = owners e" "sp_frame e s' \<Longrightarrow> locked_once s' = locked_once e"
  by (simp_all add: owners_def locked_once_def sp_frameD(7) fun_eq_iff)

lemma lock_changes:
  assumes "pthread_mutex_lock m s = Ok (b, s')" and "pthread_current s = c" and "owner (mutexes s m) \<noteq> Some c" and "mutex_ok (mutexes s m)"
    and "locked_once s" and "alive (thstate s c)"
  shows "calm c s s'" and "owners s' = (if b then (owners s)(m := Some c) else owners s)" and "b \<Longrightarrow> owners s m = None"
    and "locked_once s'" and "alive (thstate s' c)"
proof -
  note sp = lock_sp [OF assms(1)]
  have b: "b \<longleftrightarrow> owner (mutexes s m) = None" "b \<longleftrightarrow> lock (mutexes s m) = 1"
    using sp(2) assms(2,3) mutex_free [OF assms(4)] by auto
  have e: "lock_effect m s =
      (if b then mutex_own m (upd_mx m (lock_update (\<lambda>_. 0)) s) else lock_asleep m (lock_waiting c m s))"
    using b assms(2,3) by (simp add: lock_effect_def)
  note d = e mutex_own_def lock_asleep_def lock_waiting_def Let_def assms(2)
  show "calm c s s'"
    by (rule calm_sp [OF sp(1)]) (simp add: calm_def d)
  show "owners s' = (if b then (owners s)(m := Some c) else owners s)"
    unfolding owners_sp(1) [OF sp(1)] by (auto simp: owners_def d fun_eq_iff)
  show "owners s m = None" if b
    using that b(1) by (simp add: owners_def)
  show "locked_once s'"
    unfolding owners_sp(2) [OF sp(1)] using assms(5) by (simp add: locked_once_def d)
  show "alive (thstate s' c)"
    using sp_frameD(1) [OF sp(1), of c] assms(6) by (simp add: d alive_def)
qed

lemma loop_changes:
  assumes "pthread_mutex_lock_loop m s = Ok (b, s')" and "pthread_current s = c" and "locked_once s" and "alive (thstate s c)"
    and "mutex_ok (mutexes s m)"
  shows "calm c s s'" and "owners s' = (if b then (owners s)(m := Some c) else owners s)" and "b \<Longrightarrow> owners s m = None"
    and "locked_once s'" and "alive (thstate s' c)"
proof -
  note sp = lock_loop_sp [OF assms(1)]
  note d = lock_taken_def mutex_own_def lock_asleep_def Let_def assms(2)
  show "calm c s s'"
    by (rule calm_sp [OF sp]) (simp add: calm_def d)
  show "owners s' = (if b then (owners s)(m := Some c) else owners s)"
    unfolding owners_sp(1) [OF sp] by (auto simp: owners_def d fun_eq_iff)
  have "lock (mutexes s m) = 1" if b
    using assms(1) that by (auto simp: pthread_mutex_lock_loop_def Let_def result_simps split: if_splits)
  then show "owners s m = None" if b
    using that mutex_free [OF assms(5)] by (simp add: owners_def)
  show "locked_once s'"
    unfolding owners_sp(2) [OF sp] using assms(3) by (simp add: locked_once_def d)
  show "alive (thstate s' c)"
    using sp_frameD(1) [OF sp, of c] assms(4) by (simp add: d alive_def)
qed

lemma unlock_changes:
  assumes "pthread_mutex_unlock m s = Ok s'" and "pthread_current s = c" and "owner (mutexes s m) = Some c" and "locked_once s"
    and "alive (thstate s c)"
  shows "calm c s s'" and "owners s' = (owners s)(m := None)" and "locked_once s'" and "alive (thstate s' c)"
proof -
  have "recursive_count (mutexes s m) = 1"
    using assms(3,4) by (simp add: locked_once_def)
  with unlock_sp [OF assms(1)] obtain e where e: "sp_frame e s'" "e = lock_released m s \<or> (\<exists>t. e = set_state t PTHREAD_STATE_RUNNING (lock_released m s))"
    by (auto split: option.splits)
  note d = lock_released_def assms(2)
  show "calm c s s'"
    by (rule calm_sp [OF e(1)]) (use e(2) in \<open>auto simp: calm_def d\<close>)
  show "owners s' = (owners s)(m := None)"
    unfolding owners_sp(1) [OF e(1)] using e(2) by (auto simp: owners_def d fun_eq_iff)
  show "locked_once s'"
    unfolding owners_sp(2) [OF e(1)] using e(2) assms(4) by (auto simp: locked_once_def d)
  show "alive (thstate s' c)"
    using sp_frameD(1) [OF e(1), of c] e(2) assms(5) by (auto simp: d alive_def split: if_splits)
qed

lemma sleep_changes:
  assumes "sleep_begin secs s = Ok s'" and "pthread_current s = c" and "kernel_ok s" and "fr s c = FRun" and "c \<noteq> pthread_idle"
    and "unat (secs * of_nat CONFIG_HZ) < 2 ^ 31"
  shows "calm c s s'" and "owners s' = owners s" and "locked_once s' = locked_once s" and "alive (thstate s' c)" and "c \<in> active (tctx s')"
proof -
  note k = kernel_okD [OF assms(3)]
  let ?s = "set_state c PTHREAD_STATE_SLEEPING s"
  have so: "sleep_on (threads s c) = None"
    using fr_okD(1) [OF k(3), of c] assms(4) by simp
  have tm: "timer_ok (ticks s) (tctx s)" "c \<notin> active (tctx s)" "hn (tctx s) < CONFIG_TIMER_MAX_NUM"
    using k(4) assms(2,4,5) timer_room [OF k(3,4), of c] k(6) by (auto simp: tm_ok_def)
  have kp: "kpre ?s"
    by (rule kpre_block [OF k(1)]) (use assms(2,5) so in auto)
  from assms(1,2) have b: "schedule_timeout_begin (secs * of_nat CONFIG_HZ) ?s = Ok s'"
    by (simp add: sleep_begin_def)
  from schedule_timeout_begin_spec [OF kp _ _ _ _ assms(6), of c] b tm assms(2) have r: "active (tctx s') = insert c (active (tctx s))"
    "\<And>t. thstate s' t = thstate ?s t"
    by auto
  from b obtain h where h: "schedule (?s\<lparr>tctx := h\<rparr>) = Ok s'"
    by (auto simp: schedule_timeout_begin_def Let_def result_simps)
  note sp = schedule_sp [OF h]
  show "calm c s s'" "alive (thstate s' c)" "c \<in> active (tctx s')"
    using r more_fr [OF sp_frameD(10) [OF sp]] by (simp_all add: calm_def alive_def)
  show "owners s' = owners s" "locked_once s' = locked_once s"
    unfolding owners_sp [OF sp] by (simp_all add: owners_def locked_once_def fun_eq_iff)
qed

lemma wake_changes:
  assumes "sleep_end s = Ok (r, s')" and "pthread_current s = c" and "kernel_ok s"
  shows "calm c s s'" and "owners s' = owners s" and "locked_once s' = locked_once s" and "thstate s' t = thstate s t"
proof -
  have tm: "timer_ok (ticks s) (tctx s)"
    using kernel_okD(4) [OF assms(3)] by (simp add: tm_ok_def)
  from assms(1) obtain h where h: "s' = s\<lparr>tctx := h\<rparr>" "timer_delete (pthread_current s) (tctx s) = Ok h"
    by (auto simp: sleep_end_def schedule_timeout_end_def Let_def result_simps)
  with timer_delete_spec [OF tm, of c] assms(2) have "active h = active (tctx s) - {c}"
    by auto
  with h(1) show "calm c s s'" "owners s' = owners s" "locked_once s' = locked_once s" "thstate s' t = thstate s t"
    by (auto simp: calm_def owners_def locked_once_def fun_eq_iff)
qed

lemma exit_changes:
  assumes "pthread_exit r s = Ok s'" and "pthread_current s = c"
  shows "calm c s s'" and "owners s' = owners s" and "locked_once s' = locked_once s"
proof -
  note sp = exit_sp [OF assms(1)]
  show "calm c s s'"
    by (rule calm_sp [OF sp]) (use assms(2) in \<open>auto simp: calm_def exit_effect_def Let_def split: option.splits\<close>)
  show "owners s' = owners s" "locked_once s' = locked_once s"
    unfolding owners_sp [OF sp] by (auto simp: owners_def locked_once_def exit_effect_def Let_def fun_eq_iff split: option.splits)
qed

lemma tick_changes:
  assumes "timer_interrupt s = Ok s'" and "kernel_ok s"
  shows "fr s' = fr s" and "owners s' = owners s" and "locked_once s' = locked_once s"
    and "thstate s' t = thstate s t \<and> (t \<in> active (tctx s) \<longrightarrow> t \<in> active (tctx s')) \<or> thstate s' t = PTHREAD_STATE_RUNNING"
proof -
  note k = kernel_okD [OF assms(2)]
  have tm: "timer_ok (ticks s) (tctx s)" "\<And>t. t \<in> active (tctx s) \<Longrightarrow> tm_thread (timers (tctx s) t) = t"
    using k(4) by (auto simp: tm_ok_def)
  from timer_interrupt_spec [OF k(1) tm(1)] assms(1) have
    r: "active (tctx s') = {t \<in> active (tctx s). 1 < due (ticks s) (expires (timers (tctx s) t))}"
      "\<And>t. thstate s' t = (if t \<in> due_threads (ticks s) 1 (tctx s) then PTHREAD_STATE_RUNNING else thstate s t)"
      "tick_frame s s'"
    by auto
  show "fr s' = fr s"
    using r(3) by (cases s; cases s') (simp add: tick_frame_def)
  show "owners s' = owners s" "locked_once s' = locked_once s"
    using r(3) by (simp_all add: tick_frame_def owners_def locked_once_def fun_eq_iff)
  have "t \<in> active (tctx s')" if "t \<in> active (tctx s)" "t \<notin> due_threads (ticks s) 1 (tctx s)"
    using that tm(2) [of t] r(1) by (fastforce simp: due_threads_def)
  with r(2) [of t] show "thstate s' t = thstate s t \<and> (t \<in> active (tctx s) \<longrightarrow> t \<in> active (tctx s')) \<or> thstate s' t = PTHREAD_STATE_RUNNING"
    by auto
qed

text \<open>Condition queues: only signalling and waiting touch them.\<close>

lemma calls_conds:
  "pthread_mutex_lock m s = Ok (b, s') \<Longrightarrow> conds s' = conds s" "pthread_mutex_lock_loop m s = Ok (b, s') \<Longrightarrow> conds s' = conds s"
  "pthread_mutex_unlock m s = Ok s' \<Longrightarrow> conds s' = conds s"
proof -
  show "conds s' = conds s" if "pthread_mutex_lock m s = Ok (b, s')"
    using sp_frameD(8) [OF lock_sp(1) [OF that]]
    by (simp add: lock_effect_def mutex_own_def lock_asleep_def lock_waiting_def Let_def)
  show "conds s' = conds s" if "pthread_mutex_lock_loop m s = Ok (b, s')"
    using sp_frameD(8) [OF lock_loop_sp [OF that]] by (simp add: lock_taken_def mutex_own_def lock_asleep_def Let_def split: if_splits)
  show "conds s' = conds s" if "pthread_mutex_unlock m s = Ok s'"
    using unlock_sp [OF that] by (auto simp: lock_released_def split: if_splits option.splits dest: sp_frameD(8))
qed

lemma tick_conds: "timer_interrupt s = Ok s' \<Longrightarrow> kernel_ok s \<Longrightarrow> conds s' = conds s"
  using timer_interrupt_spec [of s] kernel_okD(1,4) [of s] by (auto simp: tm_ok_def tick_frame_def)

lemma calm_trans: "calm c s e \<Longrightarrow> calm c e s' \<Longrightarrow> calm c s s'"
  unfolding calm_def by metis

lemma wait_changes:
  assumes "cond_wait_begin v m s = Ok s'" and "pthread_current s = c" and "owner (mutexes s m) = Some c" and "locked_once s"
  shows "calm c s s'" and "owners s' = (owners s)(m := None)" and "locked_once s'"
    and "cond_wq (conds s' w) = (if w = v then cond_wq (conds s v) @ [c] else cond_wq (conds s w))"
proof -
  let ?e = "set_state c PTHREAD_STATE_SLEEPING (upd_cv v (cond_wq_update (\<lambda>q. q @ [c])) s)"
  have u: "pthread_mutex_unlock m ?e = Ok s'"
    using cond_wait_begin_sp [OF assms(1)] assms(2) by simp
  have e: "pthread_current ?e = c" "owner (mutexes ?e m) = Some c" "locked_once ?e" "alive (thstate ?e c)" "calm c s ?e"
    using assms(2-4) by (simp_all add: locked_once_def alive_def calm_def)
  note l = unlock_changes [OF u e(1-4)]
  show "calm c s s'"
    using e(5) l(1) by (rule calm_trans)
  show "owners s' = (owners s)(m := None)" "locked_once s'"
    using l(2,3) by (simp_all add: owners_def fun_eq_iff)
  show "cond_wq (conds s' w) = (if w = v then cond_wq (conds s v) @ [c] else cond_wq (conds s w))"
    using calls_conds(3) [OF u] by simp
qed

text \<open>A signal empties the queue of a single waiter and makes it runnable.\<close>

lemma signal_changes:
  assumes "pthread_cond_signal v s = Ok s'" and "cond_wq (conds s v) = [] \<or> cond_wq (conds s v) = [w]"
  shows "calm c s s'" and "owners s' = owners s" and "locked_once s' = locked_once s" and "alive (thstate s c) \<Longrightarrow> alive (thstate s' c)"
    and "cond_wq (conds s' x) = (if x = v then [] else cond_wq (conds s x))"
    and "cond_wq (conds s v) = [w] \<Longrightarrow> thstate s' w = PTHREAD_STATE_RUNNING"
proof -
  have "\<exists>e. sp_frame e s' \<and> (if cond_wq (conds s v) = [w] then e = set_state w PTHREAD_STATE_RUNNING (upd_cv v (cond_wq_update (\<lambda>_. [])) s) else e = s)"
    using cond_signal_sp [OF assms(1)] assms(2) by (auto simp: wake_target_def)
  then obtain e where sp: "sp_frame e s'" and e: "if cond_wq (conds s v) = [w] then e = set_state w PTHREAD_STATE_RUNNING (upd_cv v (cond_wq_update (\<lambda>_. [])) s) else e = s"
    by blast
  show "calm c s s'"
    by (rule calm_sp [OF sp]) (use e in \<open>auto simp: calm_def split: if_splits\<close>)
  show "owners s' = owners s" "locked_once s' = locked_once s"
    unfolding owners_sp [OF sp] using e by (auto simp: owners_def locked_once_def fun_eq_iff split: if_splits)
  show "alive (thstate s' c)" if "alive (thstate s c)"
    using sp_frameD(1) [OF sp, of c] e that by (auto simp: alive_def split: if_splits)
  show "cond_wq (conds s' x) = (if x = v then [] else cond_wq (conds s x))"
    using sp_frameD(8) [OF sp] e assms(2) by (auto split: if_splits)
  show "thstate s' w = PTHREAD_STATE_RUNNING" if "cond_wq (conds s v) = [w]"
    using sp_frameD(1) [OF sp, of w] e that by simp
qed

end
