(* ===== verification/Philosophers.thy ===== *)
theory Philosophers
  imports Calls Stdio
begin

text \<open>
  The dining philosophers of \<open>src/applications/philosophers.c\<close> on the kernel.  Fork \<open>i\<close> is mutex \<open>i\<close>, philosopher \<open>i\<close> is thread \<open>i\<close>.
  The routine is cut at its calls: \<open>p_pc\<close> says which call a philosopher has made last, and the call has returned when its
  \<open>frame\<close> is \<open>FRun\<close>.  The other steps are those of the kernel: a suspended call goes on, or the timer interrupts.

  Shown: a fork belongs exactly to the philosopher whose program position says so, and as long as a philosopher has not
  finished, one of them is runnable or asleep with its timer armed.
\<close>

section \<open>Definitions\<close>

definition PHILOSOPHERS_NUM :: nat where "PHILOSOPHERS_NUM = 5"

datatype phil_pc = AtStart | LockingFirst | LockingSecond | Sleeping | ReleasedSecond | ReleasedFirst | Returned

record party =
  p_kernel :: ksys
  p_pc :: "nat \<Rightarrow> phil_pc"
  p_out :: outp

definition first_fork :: "nat \<Rightarrow> mid" where
  "first_fork i = (if i + 1 \<ge> PHILOSOPHERS_NUM then 0 else i)"

definition second_fork :: "nat \<Rightarrow> mid" where
  "second_fork i = (if i + 1 \<ge> PHILOSOPHERS_NUM then i else i + 1)"

definition philosopher :: "nat \<Rightarrow> party \<Rightarrow> party result" where
  "philosopher i p =
     (let s = p_kernel p; goto = (\<lambda>l. (p_pc p)(i := l)) in
      case p_pc p i of
        AtStart \<Rightarrow>
          rbind (call_lock i (first_fork i) s) (\<lambda>s. Ok (p\<lparr>p_kernel := s, p_pc := goto LockingFirst\<rparr>))
      | LockingFirst \<Rightarrow>
          rbind (call_lock i (second_fork i) s) (\<lambda>s. Ok (p\<lparr>p_kernel := s, p_pc := goto LockingSecond\<rparr>))
      | LockingSecond \<Rightarrow>
          rbind (kprintf (map of_char ''philosopher %lu starts to eat'' @ [0x0a]) [VInt (of_nat i)] (p_out p)) (\<lambda>out.
            rbind (sleep_begin 1 s) (\<lambda>s.
              Ok (p\<lparr>p_kernel := set_fr i FSleep s, p_pc := goto Sleeping, p_out := out\<rparr>)))
      | Sleeping \<Rightarrow>
          rbind (kprintf (map of_char ''philosopher %lu finished eating'' @ [0x0a]) [VInt (of_nat i)] (p_out p)) (\<lambda>out.
            rbind (pthread_mutex_unlock (second_fork i) s) (\<lambda>s.
              Ok (p\<lparr>p_kernel := s, p_pc := goto ReleasedSecond, p_out := out\<rparr>)))
      | ReleasedSecond \<Rightarrow>
          rbind (pthread_mutex_unlock (first_fork i) s) (\<lambda>s. Ok (p\<lparr>p_kernel := s, p_pc := goto ReleasedFirst\<rparr>))
      | ReleasedFirst \<Rightarrow>
          rbind (pthread_exit 0 s) (\<lambda>s. Ok (p\<lparr>p_kernel := s, p_pc := goto Returned\<rparr>))
      | Returned \<Rightarrow> Fault AssertFail)"

fun init_forks :: "nat list \<Rightarrow> 'a kernel_scheme \<Rightarrow> 'a kernel_scheme result" where
  "init_forks [] s = Ok s"
| "init_forks (i # is) s = rbind (pthread_mutex_init i None s) (init_forks is)"

fun seat :: "(nat \<Rightarrow> u32) \<Rightarrow> nat list \<Rightarrow> 'a kernel_scheme \<Rightarrow> 'a kernel_scheme result" where
  "seat stack [] s = Ok s"
| "seat stack (i # is) s =
     rbind (pthread_create (pthread_attr_setstack pthread_attr_init (stack i) 1024) s) (\<lambda>(e, tid, s).
       case tid of
         None \<Rightarrow> Fault NullDeref
       | Some t \<Rightarrow> rbind (pthread_detach t (snd (pthread_setname_np t ''philo'' s))) (\<lambda>(e, s). seat stack is s))"

definition philosophers_init :: "(nat \<Rightarrow> u32) \<Rightarrow> 'a kernel_scheme \<Rightarrow> 'a kernel_scheme result" where
  "philosophers_init stack s =
     rbind (init_forks [0..<PHILOSOPHERS_NUM] s) (seat stack [0..<PHILOSOPHERS_NUM])"

text \<open>The initialiser passes a null pointer for the attributes of the forks, which \<open>pthread_mutex_init\<close> reads.\<close>

lemma philosophers_init_faults: "philosophers_init stack s = Fault NullDeref"
  by (simp add: philosophers_init_def PHILOSOPHERS_NUM_def upt_rec pthread_mutex_init_def)

inductive phil_step :: "party \<Rightarrow> party \<Rightarrow> bool" where
  Run: "\<lbrakk>pthread_current (p_kernel p) = i; i < PHILOSOPHERS_NUM; fr (p_kernel p) i = FRun; philosopher i p = Ok p'\<rbrakk> \<Longrightarrow>
    phil_step p p'"
| Resume: "\<lbrakk>fr (p_kernel p) (pthread_current (p_kernel p)) \<noteq> FRun; step (p_kernel p) s'\<rbrakk> \<Longrightarrow> phil_step p (p\<lparr>p_kernel := s'\<rparr>)"
| Tick: "timer_interrupt (p_kernel p) = Ok s' \<Longrightarrow> phil_step p (p\<lparr>p_kernel := s'\<rparr>)"

text \<open>The table is laid: five threads in ordinary code, no fork taken.\<close>

definition phil_start :: "party \<Rightarrow> bool" where
  "phil_start p \<longleftrightarrow> reachable (p_kernel p) \<and> p_pc p = (\<lambda>_. AtStart) \<and> fr (p_kernel p) = (\<lambda>_. FRun) \<and>
     (\<forall>t < PHILOSOPHERS_NUM. thstate (p_kernel p) t = PTHREAD_STATE_RUNNING) \<and> (\<forall>m. owner (mutexes (p_kernel p) m) = None)"

inductive phil_reachable :: "party \<Rightarrow> bool" where
  Start: "phil_start p \<Longrightarrow> phil_reachable p"
| Next: "\<lbrakk>phil_reachable p; phil_step p p'\<rbrakk> \<Longrightarrow> phil_reachable p'"

section \<open>Who holds which fork\<close>

fun in_hand :: "phil_pc \<Rightarrow> frame \<Rightarrow> nat \<Rightarrow> mid set" where
  "in_hand LockingFirst f i = (if f = FRun then {first_fork i} else {})"
| "in_hand LockingSecond f i = insert (first_fork i) (if f = FRun then {second_fork i} else {})"
| "in_hand Sleeping f i = {first_fork i, second_fork i}"
| "in_hand ReleasedSecond f i = {first_fork i}"
| "in_hand _ f i = {}"

fun frame_at :: "phil_pc \<Rightarrow> nat \<Rightarrow> frame \<Rightarrow> bool" where
  "frame_at LockingFirst i f \<longleftrightarrow> f = FRun \<or> f = FLock (first_fork i)"
| "frame_at LockingSecond i f \<longleftrightarrow> f = FRun \<or> f = FLock (second_fork i)"
| "frame_at Sleeping i f \<longleftrightarrow> f = FRun \<or> f = FSleep"
| "frame_at _ i f \<longleftrightarrow> f = FRun"

lemma forks_ordered: "i < PHILOSOPHERS_NUM \<Longrightarrow> first_fork i < second_fork i \<and> second_fork i < PHILOSOPHERS_NUM"
  by (auto simp: first_fork_def second_fork_def PHILOSOPHERS_NUM_def)

definition phil_ok :: "party \<Rightarrow> bool" where
  "phil_ok p \<longleftrightarrow> reachable (p_kernel p) \<and> locked_once (p_kernel p) \<and> (\<forall>t \<ge> PHILOSOPHERS_NUM. fr (p_kernel p) t = FRun) \<and>
     (\<forall>m t. owners (p_kernel p) m = Some t \<longleftrightarrow> t < PHILOSOPHERS_NUM \<and> m \<in> in_hand (p_pc p t) (fr (p_kernel p) t) t) \<and>
     (\<forall>t < PHILOSOPHERS_NUM. frame_at (p_pc p t) t (fr (p_kernel p) t) \<and> (p_pc p t \<noteq> Returned \<longrightarrow> alive (thstate (p_kernel p) t)) \<and>
        (fr (p_kernel p) t = FSleep \<and> thstate (p_kernel p) t = PTHREAD_STATE_SLEEPING \<longrightarrow> t \<in> active (tctx (p_kernel p))))"

lemma phil_okD:
  assumes "phil_ok p"
  shows "reachable (p_kernel p)" "locked_once (p_kernel p)" "PHILOSOPHERS_NUM \<le> t \<Longrightarrow> fr (p_kernel p) t = FRun"
    "owners (p_kernel p) m = Some t \<longleftrightarrow> t < PHILOSOPHERS_NUM \<and> m \<in> in_hand (p_pc p t) (fr (p_kernel p) t) t"
    "t < PHILOSOPHERS_NUM \<Longrightarrow> frame_at (p_pc p t) t (fr (p_kernel p) t)"
    "t < PHILOSOPHERS_NUM \<Longrightarrow> p_pc p t \<noteq> Returned \<Longrightarrow> alive (thstate (p_kernel p) t)"
    "t < PHILOSOPHERS_NUM \<Longrightarrow> fr (p_kernel p) t = FSleep \<Longrightarrow> thstate (p_kernel p) t = PTHREAD_STATE_SLEEPING \<Longrightarrow> t \<in> active (tctx (p_kernel p))"
  using assms by (auto simp: phil_ok_def)

text \<open>One philosopher moves on: the others are where they were.\<close>

lemma phil_advance:
  assumes "phil_ok p" and "i < PHILOSOPHERS_NUM" and "p_kernel p' = set_fr i f s'" and "p_pc p' = (p_pc p)(i := l)"
    and "calm i (p_kernel p) s'" and "reachable (set_fr i f s')" and "locked_once s'"
    and "\<And>m t. t \<noteq> i \<Longrightarrow> owners s' m = Some t \<longleftrightarrow> owners (p_kernel p) m = Some t"
    and "\<And>m. owners s' m = Some i \<longleftrightarrow> m \<in> in_hand l f i" and "frame_at l i f"
    and "l \<noteq> Returned \<Longrightarrow> alive (thstate s' i)" and "f = FSleep \<Longrightarrow> thstate s' i = PTHREAD_STATE_SLEEPING \<Longrightarrow> i \<in> active (tctx s')"
  shows "phil_ok p'"
proof -
  note o = phil_okD [OF assms(1)]
  have c: "fr s' t = fr (p_kernel p) t" "thstate s' t = thstate (p_kernel p) t \<or> thstate s' t = PTHREAD_STATE_RUNNING"
    "t \<in> active (tctx (p_kernel p)) \<Longrightarrow> t \<in> active (tctx s')" if "t \<noteq> i" for t
    using assms(5) that by (auto simp: calm_def)
  have "owners s' m = Some t \<longleftrightarrow> t < PHILOSOPHERS_NUM \<and> m \<in> in_hand (p_pc p' t) (fr (p_kernel p') t) t" for m t
    using assms(2-4,8,9) o(4) [of m t] c(1) [of t] by (cases "t = i") auto
  moreover have "frame_at (p_pc p' t) t (fr (p_kernel p') t)" "p_pc p' t \<noteq> Returned \<Longrightarrow> alive (thstate s' t)"
    "fr (p_kernel p') t = FSleep \<Longrightarrow> thstate s' t = PTHREAD_STATE_SLEEPING \<Longrightarrow> t \<in> active (tctx s')" if "t < PHILOSOPHERS_NUM" for t
    using that assms(3,4,10-12) o(5-7) [OF that] c [of t] by (cases "t = i"; auto simp: alive_def)+
  moreover have "fr (p_kernel p') t = FRun" if "PHILOSOPHERS_NUM \<le> t" for t
    using that assms(2,3) o(3) [OF that] c(1) [of t] by auto
  moreover have "owners (set_fr i f s') = owners s'" "locked_once (set_fr i f s') = locked_once s'"
    by (simp_all add: owners_def locked_once_def fun_eq_iff)
  ultimately show ?thesis
    using assms(3,6,7) by (simp add: phil_ok_def)
qed

lemma phil_tick:
  assumes "phil_ok p" and "timer_interrupt (p_kernel p) = Ok s'"
  shows "phil_ok (p\<lparr>p_kernel := s'\<rparr>)"
proof -
  note o = phil_okD [OF assms(1)]
  note c = tick_changes [OF assms(2) reachable_ok [OF o(1)]]
  have r: "reachable s'"
    using o(1) step.Tick [OF assms(2)] by (rule reachable.Step)
  have "alive (thstate s' t)" if "t < PHILOSOPHERS_NUM" "p_pc p t \<noteq> Returned" for t
    using o(6) [OF that] c(4) [of t] by (auto simp: alive_def)
  moreover have "t \<in> active (tctx s')" if "t < PHILOSOPHERS_NUM" "fr s' t = FSleep" "thstate s' t = PTHREAD_STATE_SLEEPING" for t
    using o(7) [OF that(1)] c(1) c(4) [of t] that(2,3) by auto
  ultimately show ?thesis
    using o(2-5) r c(1-3) by (simp add: phil_ok_def)
qed

lemma phil_current:
  assumes "phil_ok p" and "pthread_current (p_kernel p) = i"
  shows "kernel_ok (p_kernel p)" "alive (thstate (p_kernel p) i)" "mutex_ok (mutexes (p_kernel p) m)"
    "m \<in> set (mutex_queue (threads (p_kernel p) i)) \<longleftrightarrow> owners (p_kernel p) m = Some i"
proof -
  show k: "kernel_ok (p_kernel p)"
    by (rule reachable_ok [OF phil_okD(1) [OF assms(1)]])
  show "alive (thstate (p_kernel p) i)"
    using kernel_okD(5) [OF k] assms(2) by simp
  note mx = mx_invD [OF kinvD(4) [OF kernel_okD(1) [OF k]]]
  show "mutex_ok (mutexes (p_kernel p) m)" "m \<in> set (mutex_queue (threads (p_kernel p) i)) \<longleftrightarrow> owners (p_kernel p) m = Some i"
    using mx(1,3) by (simp_all add: owners_def)
qed

text \<open>Taking a fork, at once or after a wait.\<close>

lemma phil_take:
  assumes "phil_ok p" and "pthread_current (p_kernel p) = i" and "i < PHILOSOPHERS_NUM" and "fr (p_kernel p) i = FRun"
    and "call_lock i m (p_kernel p) = Ok s'" and "m \<notin> in_hand (p_pc p i) FRun i"
    and "\<And>f. in_hand l f i = (if f = FRun then insert m (in_hand (p_pc p i) FRun i) else in_hand (p_pc p i) FRun i)"
    and "frame_at l i FRun" and "frame_at l i (FLock m)"
  shows "phil_ok (p\<lparr>p_kernel := s', p_pc := (p_pc p)(i := l)\<rparr>)"
proof -
  note o = phil_okD [OF assms(1)] and c = phil_current [OF assms(1,2)]
  from assms(5) obtain b s1 where s1: "pthread_mutex_lock m (p_kernel p) = Ok (b, s1)" "s' = set_fr i (if b then FRun else FLock m) s1"
    by (auto simp: call_lock_def result_simps)
  have i: "i \<noteq> pthread_idle"
    using assms(3) by (simp add: PHILOSOPHERS_NUM_def pthread_idle_def CONFIG_PTHREAD_MAX_NUM_def)
  have n: "owner (mutexes (p_kernel p) m) \<noteq> Some i"
    using o(4) [of m i] assms(4,6) by (simp add: owners_def)
  note l = lock_changes [OF s1(1) assms(2) n c(3) o(2) c(2)]
  from reachable.Step [OF o(1) step.Lock [OF assms(2,4) i s1(1)]]
  have r: "reachable (set_fr i (if b then FRun else FLock m) s1)" .
  show ?thesis
  proof (rule phil_advance [OF assms(1,3) _ _ l(1) r l(4) _ _ _ l(5)])
    show "owners s1 x = Some t \<longleftrightarrow> owners (p_kernel p) x = Some t" if "t \<noteq> i" for x t
      using that l(3) unfolding l(2) by auto
    show "owners s1 x = Some i \<longleftrightarrow> x \<in> in_hand l (if b then FRun else FLock m) i" for x
      using o(4) [of x i] assms(3,4) unfolding l(2) assms(7) by simp
  qed (use s1(2) assms(8,9) in \<open>simp_all split: if_splits\<close>)
qed

lemma phil_untake:
  assumes "phil_ok p" and "pthread_current (p_kernel p) = i" and "i < PHILOSOPHERS_NUM" and "fr (p_kernel p) i = FRun"
    and "pthread_mutex_unlock m (p_kernel p) = Ok s'" and "m \<in> in_hand (p_pc p i) FRun i"
    and "in_hand l FRun i = in_hand (p_pc p i) FRun i - {m}" and "frame_at l i FRun"
    and "p_kernel p' = s'" and "p_pc p' = (p_pc p)(i := l)"
  shows "phil_ok p'"
proof -
  note o = phil_okD [OF assms(1)] and c = phil_current [OF assms(1,2)]
  have n: "owner (mutexes (p_kernel p) m) = Some i"
    using o(4) [of m i] assms(3,4,6) by (simp add: owners_def)
  note l = unlock_changes [OF assms(5,2) n o(2) c(2)]
  have f: "set_fr i FRun s' = s'"
    using l(1) assms(4) by (simp add: calm_def set_fr_same)
  have "step (p_kernel p) s'"
    using assms(2,4,5) c(4) [of m] n by (intro step.Unlock [of _ m]) (simp_all add: owners_def)
  from reachable.Step [OF o(1) this] have r: "reachable (set_fr i FRun s')"
    by (simp only: f)
  have k: "p_kernel p' = set_fr i FRun s'"
    unfolding assms(9) f ..
  show ?thesis
  proof (rule phil_advance [OF assms(1,3) k assms(10) l(1) r l(3) _ _ assms(8) l(4)])
    show "owners s' x = Some t \<longleftrightarrow> owners (p_kernel p) x = Some t" if "t \<noteq> i" for x t
      using that n unfolding l(2) by (auto simp: owners_def)
    show "owners s' x = Some i \<longleftrightarrow> x \<in> in_hand l FRun i" for x
      using o(4) [of x i] assms(3,4) unfolding l(2) assms(7) by simp
  qed simp
qed

lemma phil_resume:
  assumes "phil_ok p" and "fr (p_kernel p) (pthread_current (p_kernel p)) \<noteq> FRun" and "step (p_kernel p) s'"
  shows "phil_ok (p\<lparr>p_kernel := s'\<rparr>)"
proof -
  define i where "i = pthread_current (p_kernel p)"
  note o = phil_okD [OF assms(1)] and c = phil_current [OF assms(1) i_def [symmetric]]
  have i: "i < PHILOSOPHERS_NUM"
    using o(3) [of i] assms(2) by (force simp: i_def not_le [symmetric])
  have f: "(\<exists>m. fr (p_kernel p) i = FLock m \<and> in_hand (p_pc p i) FRun i = insert m (in_hand (p_pc p i) (FLock m) i) \<and>
      frame_at (p_pc p i) i FRun) \<or> p_pc p i = Sleeping \<and> fr (p_kernel p) i = FSleep"
    using o(5) [OF i] assms(2) by (cases "p_pc p i") (auto simp: i_def)
  have r: "reachable s'"
    using o(1) assms(3) by (rule reachable.Step)
  from assms(3) show ?thesis
  proof cases
    case (LockResume c' m b s1)
    then have l: "fr (p_kernel p) i = FLock m" "s' = set_fr i (if b then FRun else FLock m) s1"
      by (simp_all add: i_def)
    define H where "H = in_hand (p_pc p i) (FLock m) i"
    from f l(1) have h: "in_hand (p_pc p i) (if b then FRun else FLock m) i = (if b then insert m H else H)" "frame_at (p_pc p i) i FRun"
      by (auto simp: H_def)
    note ch = loop_changes [OF LockResume(4) i_def [symmetric] o(2) c(2,3)]
    show ?thesis
    proof (rule phil_advance [OF assms(1) i _ _ ch(1) r [unfolded l(2)] ch(4) _ _ _ ch(5)])
      show "owners s1 x = Some t \<longleftrightarrow> owners (p_kernel p) x = Some t" if "t \<noteq> i" for x t
        using that ch(3) unfolding ch(2) by auto
      show "owners s1 x = Some i \<longleftrightarrow> x \<in> in_hand (p_pc p i) (if b then FRun else FLock m) i" for x
        using o(4) [of x i] i l(1) unfolding ch(2) h(1) H_def by simp
    qed (use l h(2) o(5) [OF i] in \<open>simp_all split: if_splits\<close>)
  next
    case (SleepResume c' x s1)
    then have l: "fr (p_kernel p) i = FSleep" "s' = set_fr i FRun s1" "p_pc p i = Sleeping"
      using f by (auto simp: i_def)
    note ch = wake_changes [OF SleepResume(4) i_def [symmetric] c(1)]
    show ?thesis
      by (rule phil_advance [OF assms(1) i _ _ ch(1) r [unfolded l(2)], where l = Sleeping])
        (use l ch(2-4) o(2,4) i c(2) in \<open>auto\<close>)
  next
    case Tick
    with phil_tick [OF assms(1)] show ?thesis by blast
  qed (use assms(2) f in \<open>auto simp: i_def\<close>)
qed

lemma phil_run:
  assumes "phil_ok p" and "pthread_current (p_kernel p) = i" and "i < PHILOSOPHERS_NUM" and "fr (p_kernel p) i = FRun"
    and "philosopher i p = Ok p'"
  shows "phil_ok p'"
proof -
  note o = phil_okD [OF assms(1)] and c = phil_current [OF assms(1,2)] and fo = forks_ordered [OF assms(3)]
  note take = phil_take [OF assms(1-4)] and untake = phil_untake [OF assms(1-4)]
  have i: "i \<noteq> pthread_idle"
    using assms(3) by (simp add: PHILOSOPHERS_NUM_def pthread_idle_def CONFIG_PTHREAD_MAX_NUM_def)
  show ?thesis
  proof (cases "p_pc p i")
    case AtStart
    with assms(5) obtain s1 where s1: "call_lock i (first_fork i) (p_kernel p) = Ok s1"
      and p': "p' = p\<lparr>p_kernel := s1, p_pc := (p_pc p)(i := LockingFirst)\<rparr>"
      by (auto simp: philosopher_def Let_def result_simps)
    show ?thesis
      unfolding p' by (rule take [OF s1]) (simp_all add: AtStart)
  next
    case LockingFirst
    with assms(5) obtain s1 where s1: "call_lock i (second_fork i) (p_kernel p) = Ok s1"
      and p': "p' = p\<lparr>p_kernel := s1, p_pc := (p_pc p)(i := LockingSecond)\<rparr>"
      by (auto simp: philosopher_def Let_def result_simps)
    show ?thesis
      unfolding p' by (rule take [OF s1]) (use fo in \<open>auto simp: LockingFirst\<close>)
  next
    case LockingSecond
    with assms(5) obtain s1 out where s1: "sleep_begin 1 (p_kernel p) = Ok s1"
      and p': "p' = p\<lparr>p_kernel := set_fr i FSleep s1, p_pc := (p_pc p)(i := Sleeping), p_out := out\<rparr>"
      by (auto simp: philosopher_def Let_def result_simps)
    have h: "unat (1 * of_nat CONFIG_HZ :: u32) < 2 ^ 31"
      by (simp add: CONFIG_HZ_def)
    note l = sleep_changes [OF s1 assms(2) c(1) assms(4) i h]
    note r = reachable.Step [OF o(1) step.Sleep [OF assms(2,4) i h s1]]
    show ?thesis
      by (rule phil_advance [OF assms(1,3) _ _ l(1) r, where l = Sleeping])
        (use p' l(2-5) o(2) o(4) [of _ i] assms(3,4) LockingSecond in \<open>auto\<close>)
  next
    case Sleeping
    with assms(5) obtain s1 where s1: "pthread_mutex_unlock (second_fork i) (p_kernel p) = Ok s1"
      and p': "p_kernel p' = s1" "p_pc p' = (p_pc p)(i := ReleasedSecond)"
      by (auto simp: philosopher_def Let_def result_simps)
    show ?thesis
      by (rule untake [OF s1 _ _ _ p']) (use fo Sleeping in auto)
  next
    case ReleasedSecond
    with assms(5) obtain s1 where s1: "pthread_mutex_unlock (first_fork i) (p_kernel p) = Ok s1"
      and p': "p_kernel p' = s1" "p_pc p' = (p_pc p)(i := ReleasedFirst)"
      by (auto simp: philosopher_def Let_def result_simps)
    show ?thesis
      by (rule untake [OF s1 _ _ _ p']) (use ReleasedSecond in auto)
  next
    case ReleasedFirst
    with assms(5) obtain s1 where s1: "pthread_exit 0 (p_kernel p) = Ok s1" and p': "p' = p\<lparr>p_kernel := s1, p_pc := (p_pc p)(i := Returned)\<rparr>"
      by (auto simp: philosopher_def Let_def result_simps)
    note l = exit_changes [OF s1 assms(2)]
    have "m \<notin> set (mutex_queue (threads (p_kernel p) i))" for m
      using c(4) [of m] o(4) [of m i] ReleasedFirst by simp
    then have "mutex_queue (threads (p_kernel p) i) = []"
      by (cases "mutex_queue (threads (p_kernel p) i)") auto
    then have st: "step (p_kernel p) s1"
      using s1 assms(2,4) i by (intro step.Exit [of _ i]) simp_all
    have f: "set_fr i FRun s1 = s1"
      using l(1) assms(4) by (simp add: calm_def set_fr_same)
    from reachable.Step [OF o(1) st] have r: "reachable (set_fr i FRun s1)"
      by (simp only: f)
    show ?thesis
      by (rule phil_advance [OF assms(1,3) _ _ l(1) r, where l = Returned])
        (use p' f l(2,3) o(2) o(4) [of _ i] ReleasedFirst in \<open>simp_all\<close>)
  qed (use assms(5) in \<open>simp add: philosopher_def Let_def\<close>)
qed

lemma phil_reachable_ok: "phil_reachable p \<Longrightarrow> phil_ok p"
proof (induction rule: phil_reachable.induct)
  case (Start p)
  then show ?case
    by (auto simp: phil_start_def phil_ok_def owners_def locked_once_def alive_def)
next
  case (Next p p')
  from Next(2,3) show ?case
  proof (induction rule: phil_step.induct)
    case (Run p i p')
    then show ?case by (blast intro: phil_run)
  next
    case (Resume p s')
    then show ?case by (blast intro: phil_resume)
  next
    case (Tick p s')
    then show ?case by (blast intro: phil_tick)
  qed
qed

section \<open>No deadlock\<close>

text \<open>A philosopher that will go on: it is runnable, or a timer will wake it.\<close>

definition moving :: "party \<Rightarrow> nat \<Rightarrow> bool" where
  "moving p i \<longleftrightarrow> i < PHILOSOPHERS_NUM \<and> p_pc p i \<noteq> Returned \<and>
     (thstate (p_kernel p) i = PTHREAD_STATE_RUNNING \<or> i \<in> active (tctx (p_kernel p)))"

lemma phil_cases:
  assumes "phil_ok p" and "i < PHILOSOPHERS_NUM" and "p_pc p i \<noteq> Returned"
  obtains (moving) "moving p i" | (waiting) m where "fr (p_kernel p) i = FLock m" "m \<in> {first_fork i, second_fork i}"
    "\<And>k. k \<in> in_hand (p_pc p i) (fr (p_kernel p) i) i \<Longrightarrow> k < m"
proof (cases "moving p i")
  case False
  note o = phil_okD [OF assms(1)] and k = kernel_okD [OF reachable_ok [OF phil_okD(1) [OF assms(1)]]]
  from False assms(2,3) o(6) [OF assms(2,3)] have s: "thstate (p_kernel p) i = PTHREAD_STATE_SLEEPING" "i \<notin> active (tctx (p_kernel p))"
    by (auto simp: moving_def alive_def)
  then have "fr (p_kernel p) i \<noteq> FRun" "fr (p_kernel p) i \<noteq> FSleep"
    using fr_okD(3) [OF k(3)] o(7) [OF assms(2)] by blast+
  with o(5) [OF assms(2)] forks_ordered [OF assms(2)] show ?thesis
    by (cases "p_pc p i") (auto intro!: waiting)
qed (rule moving)

lemma phil_waiting:
  assumes "phil_ok p" and "i < PHILOSOPHERS_NUM" and "fr (p_kernel p) i = FLock m" and "m < PHILOSOPHERS_NUM"
  shows "\<exists>u. moving p u"
  using assms(2-4)
proof (induction "PHILOSOPHERS_NUM - m" arbitrary: i m rule: less_induct)
  case less
  note o = phil_okD [OF assms(1)] and k = kernel_okD [OF reachable_ok [OF phil_okD(1) [OF assms(1)]]]
  note mx = mx_invD [OF kinvD(4) [OF k(1)]]
  show ?case
  proof (cases "owners (p_kernel p) m")
    case None
    have "i \<in> set (wq (mutexes (p_kernel p) m))"
      using mx(4) [of i m] fr_okD(1) [OF k(3), of i] less(3) by simp
    with mx(3) [of m] mx(6) [of m] None obtain u where u: "u \<in> set (wq (mutexes (p_kernel p) m))" "thstate (p_kernel p) u = PTHREAD_STATE_RUNNING"
      by (fastforce simp: wake_ok_def mutex_ok_def owners_def)
    then have "fr (p_kernel p) u \<noteq> FRun"
      using mx(4) [of u m] fr_okD(1) [OF k(3), of u] by auto
    then have "u < PHILOSOPHERS_NUM"
      using o(3) [of u] by (cases "u < PHILOSOPHERS_NUM") auto
    moreover from this \<open>fr (p_kernel p) u \<noteq> FRun\<close> have "p_pc p u \<noteq> Returned"
      using o(5) [of u] by auto
    ultimately show ?thesis
      using u(2) by (auto simp: moving_def)
  next
    case (Some x)
    with o(4) [of m x] have x: "x < PHILOSOPHERS_NUM" "m \<in> in_hand (p_pc p x) (fr (p_kernel p) x) x"
      by auto
    then have "p_pc p x \<noteq> Returned"
      by auto
    with assms(1) x(1) show ?thesis
    proof (cases rule: phil_cases)
      case (waiting n)
      then have "m < n" "n < PHILOSOPHERS_NUM"
        using x(2) forks_ordered [OF x(1)] by auto
      with less(1) [OF _ x(1) waiting(1)] show ?thesis
        by simp
    qed blast
  qed
qed

lemma phil_progress:
  assumes "phil_ok p" and "i < PHILOSOPHERS_NUM" and "p_pc p i \<noteq> Returned"
  shows "\<exists>u. moving p u"
  using assms
proof (cases rule: phil_cases)
  case (waiting m)
  with phil_waiting [OF assms(1,2) waiting(1)] forks_ordered [OF assms(2)] show ?thesis
    by auto
qed blast

end
