(* ===== verification/ProducerConsumer.thy ===== *)
theory ProducerConsumer
  imports Calls Stdio
begin

text \<open>
  The producer and the consumer of \<open>src/applications/producer_consumer.c\<close> on the kernel: thread 0 and thread 1, with a mutex and two conditions.
  The routines are cut at their calls and at their accesses to the shared variables; \<open>pcount\<close> is a pointer to the producer's local
  variable \<open>count\<close> or null.  \<open>taken\<close> is not part of the program: it records what the consumer has read.

  Shown: at most one of them is in its critical section, they never both sleep, and the \<open>k\<close>th number is
  \<open>k\<close> or \<open>k + 1\<close>, since the producer increments after it has released the mutex.
\<close>

section \<open>Definitions\<close>

definition PRODUCER :: tid where "PRODUCER = 0"
definition CONSUMER :: tid where "CONSUMER = 1"
definition pc_mutex :: mid where "pc_mutex = 0"
definition cond_empty :: cid where "cond_empty = 0"
definition cond_full :: cid where "cond_full = 1"

lemmas market_names = PRODUCER_def CONSUMER_def pc_mutex_def cond_empty_def cond_full_def

datatype producer_pc = P_lock | P_test | P_set | P_signal | P_unlock | P_inc

datatype consumer_pc = C_lock | C_test | C_read | C_clear | C_signal | C_unlock | C_print

record market =
  mk_kernel :: ksys
  pcount :: bool
  prod_pc :: producer_pc
  prod_count :: u32
  cons_pc :: consumer_pc
  cons_count :: u32
  mk_out :: outp
  taken :: "u32 list"

definition producer :: "market \<Rightarrow> market result" where
  "producer q =
     (let s = mk_kernel q in
      case prod_pc q of
        P_lock \<Rightarrow> rbind (call_lock PRODUCER pc_mutex s) (\<lambda>s. Ok (q\<lparr>mk_kernel := s, prod_pc := P_test\<rparr>))
      | P_test \<Rightarrow>
          (if pcount q then rbind (call_wait PRODUCER cond_full pc_mutex s) (\<lambda>s. Ok (q\<lparr>mk_kernel := s\<rparr>))
           else Ok (q\<lparr>prod_pc := P_set\<rparr>))
      | P_set \<Rightarrow> Ok (q\<lparr>pcount := True, prod_pc := P_signal\<rparr>)
      | P_signal \<Rightarrow> rbind (pthread_cond_signal cond_empty s) (\<lambda>s. Ok (q\<lparr>mk_kernel := s, prod_pc := P_unlock\<rparr>))
      | P_unlock \<Rightarrow> rbind (pthread_mutex_unlock pc_mutex s) (\<lambda>s. Ok (q\<lparr>mk_kernel := s, prod_pc := P_inc\<rparr>))
      | P_inc \<Rightarrow> Ok (q\<lparr>prod_count := prod_count q + 1, prod_pc := P_lock\<rparr>))"

definition consumer :: "market \<Rightarrow> market result" where
  "consumer q =
     (let s = mk_kernel q in
      case cons_pc q of
        C_lock \<Rightarrow> rbind (call_lock CONSUMER pc_mutex s) (\<lambda>s. Ok (q\<lparr>mk_kernel := s, cons_pc := C_test\<rparr>))
      | C_test \<Rightarrow>
          (if \<not> pcount q then rbind (call_wait CONSUMER cond_empty pc_mutex s) (\<lambda>s. Ok (q\<lparr>mk_kernel := s\<rparr>))
           else Ok (q\<lparr>cons_pc := C_read\<rparr>))
      | C_read \<Rightarrow>
          rguard (pcount q) NullDeref
            (Ok (q\<lparr>cons_count := prod_count q, taken := taken q @ [prod_count q], cons_pc := C_clear\<rparr>))
      | C_clear \<Rightarrow> Ok (q\<lparr>pcount := False, cons_pc := C_signal\<rparr>)
      | C_signal \<Rightarrow> rbind (pthread_cond_signal cond_full s) (\<lambda>s. Ok (q\<lparr>mk_kernel := s, cons_pc := C_unlock\<rparr>))
      | C_unlock \<Rightarrow> rbind (pthread_mutex_unlock pc_mutex s) (\<lambda>s. Ok (q\<lparr>mk_kernel := s, cons_pc := C_print\<rparr>))
      | C_print \<Rightarrow>
          rbind (kprintf (map of_char ''%u'' @ [0x0a]) [VInt (cons_count q)] (mk_out q)) (\<lambda>out.
            Ok (q\<lparr>mk_out := out, cons_pc := C_lock\<rparr>)))"

definition start_worker :: "u32 \<Rightarrow> string \<Rightarrow> 'a kernel_scheme \<Rightarrow> 'a kernel_scheme result" where
  "start_worker stack name s =
     rbind (pthread_create (pthread_attr_setstack pthread_attr_init stack 1024) s) (\<lambda>(e, tid, s).
       case tid of
         None \<Rightarrow> Fault NullDeref
       | Some t \<Rightarrow> rbind (pthread_detach t (snd (pthread_setname_np t name s))) (\<lambda>(e, s). Ok s))"

definition producer_consumer_init :: "u32 \<Rightarrow> u32 \<Rightarrow> 'a kernel_scheme \<Rightarrow> 'a kernel_scheme result" where
  "producer_consumer_init stack_producer stack_consumer s =
     rbind (pthread_mutex_init pc_mutex None s) (\<lambda>s.
       let s = pthread_cond_init cond_full (pthread_cond_init cond_empty s) in
       rbind (start_worker stack_producer ''producer'' s) (start_worker stack_consumer ''consumer''))"

text \<open>As in the philosophers' program, the initialiser passes a null pointer that \<open>pthread_mutex_init\<close> reads.\<close>

lemma producer_consumer_init_faults: "producer_consumer_init sp sc s = Fault NullDeref"
  by (simp add: producer_consumer_init_def pthread_mutex_init_def)

inductive market_step :: "market \<Rightarrow> market \<Rightarrow> bool" where
  Produce: "\<lbrakk>pthread_current (mk_kernel q) = PRODUCER; fr (mk_kernel q) PRODUCER = FRun; producer q = Ok q'\<rbrakk> \<Longrightarrow> market_step q q'"
| Consume: "\<lbrakk>pthread_current (mk_kernel q) = CONSUMER; fr (mk_kernel q) CONSUMER = FRun; consumer q = Ok q'\<rbrakk> \<Longrightarrow> market_step q q'"
| Resume: "\<lbrakk>fr (mk_kernel q) (pthread_current (mk_kernel q)) \<noteq> FRun; step (mk_kernel q) s'\<rbrakk> \<Longrightarrow> market_step q (q\<lparr>mk_kernel := s'\<rparr>)"
| Tick: "timer_interrupt (mk_kernel q) = Ok s' \<Longrightarrow> market_step q (q\<lparr>mk_kernel := s'\<rparr>)"

definition market_start :: "market \<Rightarrow> bool" where
  "market_start q \<longleftrightarrow> reachable (mk_kernel q) \<and> fr (mk_kernel q) = (\<lambda>_. FRun) \<and>
     thstate (mk_kernel q) PRODUCER = PTHREAD_STATE_RUNNING \<and> thstate (mk_kernel q) CONSUMER = PTHREAD_STATE_RUNNING \<and>
     (\<forall>m. owner (mutexes (mk_kernel q) m) = None) \<and> (\<forall>v. cond_wq (conds (mk_kernel q) v) = []) \<and>
     \<not> pcount q \<and> prod_pc q = P_lock \<and> prod_count q = 0 \<and> cons_pc q = C_lock \<and> mk_out q = [] \<and> taken q = []"

inductive market_reachable :: "market \<Rightarrow> bool" where
  Start: "market_start q \<Longrightarrow> market_reachable q"
| Next: "\<lbrakk>market_reachable q; market_step q q'\<rbrakk> \<Longrightarrow> market_reachable q'"

section \<open>What is printed\<close>

definition line :: "u32 \<Rightarrow> int list" where
  "line v = map uint (uns_chars number_table 10 v) @ [0x0a]"

lemma print_line: "kprintf (map of_char ''%u'' @ [0x0a]) [VInt v] out = Ok (out @ line v)"
proof -
  let ?ds = "[Conv Udec False 0 False, Lit 0x0a]"
  have "format_text ?ds [VInt v] = Some (line v)"
    by (simp add: line_def padded_def)
  from kprintf_format [OF this] show ?thesis
    by (simp add: width_chars_def)
qed

text \<open>Items handed over, the last one included until it is read; the increment that is still to come; what has been read and not printed.\<close>

definition made :: "market \<Rightarrow> nat" where
  "made q = length (taken q) + (if pcount q \<and> cons_pc q \<noteq> C_clear then 1 else 0)"

definition late :: "market \<Rightarrow> nat" where
  "late q = (if prod_pc q \<in> {P_signal, P_unlock, P_inc} then 1 else 0)"

definition unprinted :: "market \<Rightarrow> bool" where
  "unprinted q \<longleftrightarrow> cons_pc q \<in> {C_clear, C_signal, C_unlock, C_print}"

definition counted :: "u32 list \<Rightarrow> bool" where
  "counted xs \<longleftrightarrow> (\<forall>k < length xs. xs ! k = of_nat k \<or> xs ! k = of_nat (k + 1))"

lemma counted_snoc: "counted (xs @ [v]) \<longleftrightarrow> counted xs \<and> (v = of_nat (length xs) \<or> v = of_nat (length xs + 1))"
  by (auto simp: counted_def nth_append less_Suc_eq)

definition data_ok :: "market \<Rightarrow> bool" where
  "data_ok q \<longleftrightarrow> (prod_pc q = P_set \<longrightarrow> \<not> pcount q) \<and> (cons_pc q \<in> {C_read, C_clear} \<longrightarrow> pcount q) \<and>
     prod_count q = of_nat (made q) - of_nat (late q) \<and> counted (taken q) \<and>
     (unprinted q \<longrightarrow> taken q \<noteq> [] \<and> cons_count q = last (taken q)) \<and>
     mk_out q = concat (map line (if unprinted q then butlast (taken q) else taken q))"

lemmas data_defs = data_ok_def made_def late_def unprinted_def

lemma data_kernel [simp]: "data_ok (q\<lparr>mk_kernel := s\<rparr>) = data_ok q"
  by (simp add: data_defs)

lemma data_producer:
  assumes "data_ok q" and "producer q = Ok q'"
  shows "data_ok q'"
proof (cases "prod_pc q")
  case P_test
  then have "q' = q\<lparr>mk_kernel := mk_kernel q'\<rparr> \<or> \<not> pcount q \<and> q' = q\<lparr>prod_pc := P_set\<rparr>"
    using assms(2) by (auto simp: producer_def Let_def result_simps split: if_splits)
  then show ?thesis
  proof
    assume "q' = q\<lparr>mk_kernel := mk_kernel q'\<rparr>"
    then show ?thesis using assms(1) by (metis data_kernel)
  qed (use assms(1) P_test in \<open>simp add: data_defs\<close>)
next
  case P_set
  then have "q' = q\<lparr>pcount := True, prod_pc := P_signal\<rparr>" "\<not> pcount q" "cons_pc q \<noteq> C_clear"
    using assms by (auto simp: producer_def data_defs)
  then show ?thesis using assms(1) P_set by (simp add: data_defs)
next
  case P_inc
  then have "q' = q\<lparr>prod_count := prod_count q + 1, prod_pc := P_lock\<rparr>"
    using assms(2) by (simp add: producer_def)
  then show ?thesis using assms(1) P_inc by (simp add: data_defs)
qed (use assms in \<open>clarsimp simp: producer_def Let_def result_simps; simp add: data_defs\<close>)+

lemma data_consumer:
  assumes "data_ok q" and "consumer q = Ok q'"
  shows "data_ok q'"
proof (cases "cons_pc q")
  case C_read
  then have p: "pcount q" "q' = q\<lparr>cons_count := prod_count q, taken := taken q @ [prod_count q], cons_pc := C_clear\<rparr>"
    using assms by (auto simp: consumer_def data_ok_def rguard_def)
  have "prod_count q = of_nat (length (taken q)) \<or> prod_count q = of_nat (length (taken q) + 1)"
    using assms(1) C_read p(1) by (auto simp: data_defs)
  then show ?thesis using assms(1) C_read p by (simp add: data_defs counted_snoc)
next
  case C_print
  then have t: "taken q \<noteq> []" "cons_count q = last (taken q)"
    using assms(1) by (simp_all add: data_defs)
  have "concat (map line (butlast (taken q))) @ line (last (taken q)) = concat (map line (taken q))"
    using arg_cong [OF append_butlast_last_id [OF t(1)], of "\<lambda>xs. concat (map line xs)"] by simp
  then have "q' = q\<lparr>mk_out := concat (map line (taken q)), cons_pc := C_lock\<rparr>"
    using assms C_print t by (simp add: consumer_def data_ok_def unprinted_def print_line [simplified])
  then show ?thesis using assms(1) C_print by (simp add: data_defs)
next
  case C_test
  then have "q' = q\<lparr>mk_kernel := mk_kernel q'\<rparr> \<or> pcount q \<and> q' = q\<lparr>cons_pc := C_read\<rparr>"
    using assms(2) by (auto simp: consumer_def Let_def result_simps split: if_splits)
  then show ?thesis
  proof
    assume "q' = q\<lparr>mk_kernel := mk_kernel q'\<rparr>"
    then show ?thesis using assms(1) by (metis data_kernel)
  qed (use assms(1) C_test in \<open>simp add: data_defs\<close>)
qed (use assms in \<open>clarsimp simp: consumer_def Let_def result_simps; simp add: data_defs\<close>)+

section \<open>The two threads\<close>

text \<open>A step of one thread as the others see it.\<close>

definition passes :: "tid \<Rightarrow> ksys \<Rightarrow> ksys \<Rightarrow> bool" where
  "passes t s s' \<longleftrightarrow> (\<forall>u. u \<noteq> t \<longrightarrow> fr s' u = fr s u \<and> (thstate s' u = thstate s u \<or> thstate s' u = PTHREAD_STATE_RUNNING) \<and>
     (\<forall>v. u \<in> set (cond_wq (conds s v)) \<longrightarrow> u \<in> set (cond_wq (conds s' v)) \<or> thstate s' u = PTHREAD_STATE_RUNNING) \<and>
     (\<forall>v. u \<in> set (cond_wq (conds s' v)) \<longrightarrow> u \<in> set (cond_wq (conds s v))) \<and>
     (\<forall>m. owners s' m = Some u \<longleftrightarrow> owners s m = Some u))"

definition wait_frame :: "cid \<Rightarrow> frame \<Rightarrow> bool" where
  "wait_frame v f \<longleftrightarrow> f \<in> {FRun, FLock pc_mutex, FCondUnlocked v pc_mutex None, FCondSched v pc_mutex, FCondLock v pc_mutex}"

text \<open>
  A thread that waits for \<open>v\<close>, is in the call before its test or in the loop around it (\<open>at_test\<close>) or behind it in the critical
  section (\<open>inside\<close>).
\<close>

definition worker :: "ksys \<Rightarrow> tid \<Rightarrow> cid \<Rightarrow> bool \<Rightarrow> bool \<Rightarrow> bool" where
  "worker s t v at_test inside \<longleftrightarrow> wait_frame v (fr s t) \<and> (\<not> at_test \<longrightarrow> fr s t = FRun) \<and> alive (thstate s t) \<and>
     (owners s pc_mutex = Some t \<longleftrightarrow> inside \<or> at_test \<and> fr s t = FRun) \<and>
     (fr s t \<in> {FCondUnlocked v pc_mutex None, FCondSched v pc_mutex} \<and> thstate s t = PTHREAD_STATE_SLEEPING \<longrightarrow>
        t \<in> set (cond_wq (conds s v)))"

lemma worker_frame: "worker s t v a i \<Longrightarrow> wait_frame v (fr s t)"
  by (simp add: worker_def)

lemma worker_exclusive: "worker s t v a i \<Longrightarrow> worker s u w b j \<Longrightarrow> i \<Longrightarrow> j \<Longrightarrow> t = u"
  by (simp add: worker_def)

lemma worker_passes: "passes t s s' \<Longrightarrow> u \<noteq> t \<Longrightarrow> worker s u v a i \<Longrightarrow> worker s' u v a i"
  by (auto simp: passes_def worker_def alive_def)

text \<open>What a call that leaves the condition queues of the others alone does.\<close>

lemma passes_calm:
  assumes "calm t s s'" and "\<And>u m. u \<noteq> t \<Longrightarrow> owners s' m = Some u \<longleftrightarrow> owners s m = Some u"
    and "\<And>u v. u \<noteq> t \<Longrightarrow> u \<in> set (cond_wq (conds s' v)) \<longleftrightarrow> u \<in> set (cond_wq (conds s v))"
  shows "passes t s (set_fr t f s')"
  using assms by (auto simp: passes_def calm_def owners_def)

definition base_ok :: "ksys \<Rightarrow> bool" where
  "base_ok s \<longleftrightarrow> reachable s \<and> locked_once s"

lemma base_current:
  assumes "base_ok s" and "pthread_current s = t"
  shows "reachable s" "kernel_ok s" "locked_once s" "alive (thstate s t)" "thstate s t = PTHREAD_STATE_RUNNING" "mutex_ok (mutexes s m)"
    "m \<in> set (mutex_queue (threads s t)) \<longleftrightarrow> owners s m = Some t"
proof -
  show r: "reachable s" and "locked_once s"
    using assms(1) by (simp_all add: base_ok_def)
  note k = kernel_okD [OF reachable_ok [OF r]]
  show "kernel_ok s"
    by (rule reachable_ok [OF r])
  show st: "thstate s t = PTHREAD_STATE_RUNNING"
    using kinvD(7) [OF k(1)] assms(2) by simp
  then show "alive (thstate s t)"
    by (simp add: alive_def)
  note mx = mx_invD [OF kinvD(4) [OF k(1)]]
  show "mutex_ok (mutexes s m)" "m \<in> set (mutex_queue (threads s t)) \<longleftrightarrow> owners s m = Some t"
    using mx(1,3) by (simp_all add: owners_def)
qed

lemma base_step: "base_ok s \<Longrightarrow> step s s' \<Longrightarrow> locked_once s' \<Longrightarrow> base_ok s'"
  by (auto simp: base_ok_def intro: reachable.Step)

lemma locked_set_fr [simp]: "locked_once (set_fr t f s) = locked_once s" "owners (set_fr t f s) = owners s"
  by (simp_all add: locked_once_def owners_def fun_eq_iff)

lemma worker_lock:
  assumes "base_ok s" and "pthread_current s = t" and "worker s t v False False" and "call_lock t pc_mutex s = Ok s'" and "t \<noteq> pthread_idle"
  shows "passes t s s'" and "worker s' t v True False" and "base_ok s'" and "conds s' = conds s"
proof -
  note c = base_current [OF assms(1,2)]
  have w: "fr s t = FRun" "owner (mutexes s pc_mutex) \<noteq> Some t"
    using assms(3) by (auto simp: worker_def owners_def)
  from assms(4) obtain b s1 where s1: "pthread_mutex_lock pc_mutex s = Ok (b, s1)" "s' = set_fr t (if b then FRun else FLock pc_mutex) s1"
    by (auto simp: call_lock_def result_simps)
  note l = lock_changes [OF s1(1) assms(2) w(2) c(6,3,4)] and cv = calls_conds(1) [OF s1(1)]
  show "conds s' = conds s"
    using s1(2) cv by simp
  show "passes t s s'"
    unfolding s1(2) by (rule passes_calm [OF l(1)]) (use l(2,3) cv in auto)
  show "worker s' t v True False"
    using s1(2) l(2,5) w(2) by (auto simp: worker_def wait_frame_def owners_def)
  have "step s s'"
    unfolding s1(2) by (rule step.Lock [OF assms(2) w(1) assms(5) s1(1)])
  then show "base_ok s'"
    using base_step [OF assms(1)] l(4) s1(2) by simp
qed

lemma worker_wait:
  assumes "base_ok s" and "pthread_current s = t" and "worker s t v True False" and "fr s t = FRun" and "call_wait t v pc_mutex s = Ok s'"
    and "t \<noteq> pthread_idle"
  shows "passes t s s'" and "worker s' t v True False" and "base_ok s'" and "w \<noteq> v \<Longrightarrow> cond_wq (conds s' w) = cond_wq (conds s w)"
proof -
  note c = base_current [OF assms(1,2)]
  have w: "owner (mutexes s pc_mutex) = Some t"
    using assms(3,4) by (auto simp: worker_def owners_def)
  from assms(5) obtain s1 where s1: "cond_wait_begin v pc_mutex s = Ok s1" "s' = set_fr t (FCondUnlocked v pc_mutex None) s1"
    by (auto simp: call_wait_def result_simps)
  note l = wait_changes [OF s1(1) assms(2) w c(3)]
  show "cond_wq (conds s' w) = cond_wq (conds s w)" if "w \<noteq> v"
    using s1(2) l(4) [of w] that by simp
  show "passes t s s'"
    unfolding s1(2) by (rule passes_calm [OF l(1)]) (use l(2) l(4) w in \<open>auto simp: owners_def\<close>)
  have st: "step s s'"
    unfolding s1(2) using c(3,7) w by (intro step.CondWait [OF assms(2,4,6) _ _ s1(1)]) (auto simp: owners_def locked_once_def)
  then show "base_ok s'"
    using base_step [OF assms(1)] l(3) s1(2) by simp
  have "alive (thstate s' t)"
    using fr_okD(4) [OF kernel_okD(3) [OF reachable_ok [OF reachable.Step [OF c(1) st]]], of t] s1(2) by simp
  then show "worker s' t v True False"
    using s1(2) l(2) l(4) [of v] by (simp add: worker_def wait_frame_def)
qed

lemma worker_signal:
  assumes "base_ok s" and "pthread_current s = t" and "worker s t v a i" and "fr s t = FRun" and "pthread_cond_signal w s = Ok s'"
    and "cond_wq (conds s w) = [] \<or> cond_wq (conds s w) = [u]" and "u \<noteq> t"
  shows "passes t s s'" and "worker s' t v a i" and "base_ok s'" and "cond_wq (conds s' x) = (if x = w then [] else cond_wq (conds s x))"
proof -
  note c = base_current [OF assms(1,2)]
  note l = signal_changes [OF assms(5,6)]
  have f: "fr s' = fr s"
    using l(1) [of t] by (simp add: calm_def)
  show "cond_wq (conds s' x) = (if x = w then [] else cond_wq (conds s x))"
    by (rule l(5))
  show "passes t s s'"
    using l(1) [of t] l(2) l(5) l(6) assms(6) unfolding passes_def calm_def by auto
  show "worker s' t v a i"
    using assms(3,4) f l(2) l(4) [OF c(4)] by (simp add: worker_def)
  have "step s s'"
    using assms(2,4,5) by (intro step.Signal) simp_all
  then show "base_ok s'"
    using base_step [OF assms(1)] l(3) c(3) by simp
qed

lemma worker_unlock:
  assumes "base_ok s" and "pthread_current s = t" and "worker s t v False True" and "pthread_mutex_unlock pc_mutex s = Ok s'"
  shows "passes t s s'" and "worker s' t v False False" and "base_ok s'" and "conds s' = conds s"
proof -
  note c = base_current [OF assms(1,2)]
  have w: "fr s t = FRun" "owner (mutexes s pc_mutex) = Some t"
    using assms(3) by (auto simp: worker_def owners_def)
  note l = unlock_changes [OF assms(4,2) w(2) c(3,4)]
  show cv: "conds s' = conds s"
    by (rule calls_conds(3) [OF assms(4)])
  have f: "fr s' = fr s"
    using l(1) by (simp add: calm_def)
  have "passes t s (set_fr t FRun s')"
    by (rule passes_calm [OF l(1)]) (use l(2) cv w(2) in \<open>auto simp: owners_def\<close>)
  then show "passes t s s'"
    using f w(1) by (simp add: set_fr_same)
  show "worker s' t v False False"
    using f w(1) l(2,4) by (simp add: worker_def wait_frame_def)
  have "step s s'"
    using assms(2,4) w c(7) [of pc_mutex] by (intro step.Unlock [of _ pc_mutex]) (simp_all add: owners_def)
  then show "base_ok s'"
    using base_step [OF assms(1)] l(3) by simp
qed

lemma worker_tick:
  assumes "base_ok s" and "timer_interrupt s = Ok s'"
  shows "passes t s s'" and "worker s t v a i \<Longrightarrow> worker s' t v a i" and "base_ok s'" and "conds s' = conds s"
proof -
  have k: "kernel_ok s"
    using assms(1) by (simp add: base_ok_def reachable_ok)
  note l = tick_changes [OF assms(2) k]
  show cv: "conds s' = conds s"
    by (rule tick_conds [OF assms(2) k])
  have p: "passes t s s'" for t
    using l(1,2,4) cv unfolding passes_def by auto
  show "passes t s s'"
    by (rule p)
  show "worker s' t v a i" if "worker s t v a i"
    by (rule worker_passes [OF p [of "Suc t"] _ that]) simp
  show "base_ok s'"
    using base_step [OF assms(1) step.Tick [OF assms(2)]] l(3) assms(1) by (simp add: base_ok_def)
qed

text \<open>The return from \<open>pthread_mutex_lock\<close> with the mutex does not switch to another thread.\<close>

lemma lock_current:
  "pthread_mutex_lock m s = Ok (True, s') \<Longrightarrow> pthread_current s' = pthread_current s"
  "pthread_mutex_lock_loop m s = Ok (True, s') \<Longrightarrow> pthread_current s' = pthread_current s"
proof -
  show l: "pthread_current s' = pthread_current s" if "pthread_mutex_lock_loop m s = Ok (True, s')" for s s' :: "'a kernel_scheme"
    using that
    by (auto simp: pthread_mutex_lock_loop_def pthread_mutex_lock_finish_def mutex_own_def Let_def result_simps
        split: if_splits dest!: setschedprio_current)
  show "pthread_current s' = pthread_current s" if "pthread_mutex_lock m s = Ok (True, s')"
    using that by (auto simp: pthread_mutex_lock_def mutex_own_def Let_def result_simps split: if_splits dest!: l spread_current)
qed

text \<open>A pass of the loop for the mutex, inside \<open>pthread_mutex_lock\<close> or at the end of \<open>pthread_cond_wait\<close>.\<close>

definition resumed :: "tid \<Rightarrow> cid \<Rightarrow> ksys \<Rightarrow> ksys \<Rightarrow> bool" where
  "resumed t v s s' \<longleftrightarrow> passes t s s' \<and> worker s' t v True False \<and> locked_once s' \<and>
     (\<forall>x w. x \<in> set (cond_wq (conds s' w)) \<longrightarrow> x \<in> set (cond_wq (conds s w)))"

lemma worker_relock:
  assumes "calm t s s1" and "owners s1 = (if b then (owners s)(pc_mutex := Some t) else owners s)" and "b \<Longrightarrow> owners s pc_mutex = None"
    and "locked_once s1" and "alive (thstate s1 t)" and "conds s1 = conds s" and "b \<Longrightarrow> pthread_current s1 = t"
    and "owners s pc_mutex \<noteq> Some t" and "f \<in> {FLock pc_mutex, FCondLock v pc_mutex}"
    and "s' = set_fr t (if b then FRun else f) s1 \<or> s' = (if b then set_fr t FRun (cond_wait_finish v s1) else set_fr t f s1)"
  shows "resumed t v s s'"
proof -
  define e where "e = (if s' = set_fr t (if b then FRun else f) s1 \<or> \<not> b then s1 else cond_wait_finish v s1)"
  have s': "s' = set_fr t (if b then FRun else f) e"
    using assms(10) by (auto simp: e_def)
  have fin: "cond_wait_finish v s1 = upd_cv v (cond_wq_update (remove1 t)) s1" if b
    using assms(7) [OF that] by (simp add: cond_wait_finish_def)
  have e: "calm t s1 e" "owners e = owners s1" "locked_once e = locked_once s1" "thstate e t = thstate s1 t"
    using fin by (auto simp: e_def calm_def owners_def locked_once_def fun_eq_iff)
  have cv: "u \<in> set (cond_wq (conds e w)) \<Longrightarrow> u \<in> set (cond_wq (conds s w))"
    "u \<noteq> t \<Longrightarrow> u \<in> set (cond_wq (conds s w)) \<Longrightarrow> u \<in> set (cond_wq (conds e w))" for u w
    using fin assms(6) by (auto simp: e_def dest: subsetD [OF set_remove1_subset] split: if_splits)
  have "passes t s s'"
    unfolding s'
  proof (rule passes_calm [OF calm_trans [OF assms(1) e(1)]])
    show "owners e m = Some u \<longleftrightarrow> owners s m = Some u" if "u \<noteq> t" for u m
      using that assms(2,3) e(2) by (cases b) auto
    show "u \<in> set (cond_wq (conds e w)) \<longleftrightarrow> u \<in> set (cond_wq (conds s w))" if "u \<noteq> t" for u w
      using cv that by blast
  qed
  moreover have "worker s' t v True False"
    using s' e(2,4) assms(2,5,8,9) by (auto simp: worker_def wait_frame_def split: if_splits)
  ultimately show ?thesis
    using s' e(3) assms(4) cv(1) by (auto simp: resumed_def)
qed

lemma worker_resume:
  assumes "base_ok s" and "pthread_current s = t" and "worker s t v True False" and "fr s t \<noteq> FRun" and "step s s'"
  shows "resumed t v s s'"
proof -
  note c = base_current [OF assms(1,2)]
  have w: "fr s t \<in> {FLock pc_mutex, FCondUnlocked v pc_mutex None, FCondSched v pc_mutex, FCondLock v pc_mutex}"
    "owners s pc_mutex \<noteq> Some t"
    using assms(3,4) by (auto simp: worker_def wait_frame_def)
  have n: "owner (mutexes s pc_mutex) \<noteq> Some t"
    using w(2) by (simp add: owners_def)
  from assms(5) show ?thesis
  proof cases
    case (LockResume c' m b s1)
    then have m: "m = pc_mutex" "c' = t"
      using w(1) assms(2) by auto
    note l = loop_changes [OF LockResume(4) assms(2) c(3,4,6)] and cv = calls_conds(2) [OF LockResume(4)]
    show ?thesis
      by (rule worker_relock [OF l(1) _ _ l(4,5) cv _ w(2), of b "FLock pc_mutex"])
        (use LockResume m l(2,3) assms(2) lock_current(2) in auto)
  next
    case (CondBlock c' v' m a p s1)
    then have m: "a = None" "v' = v" "m = pc_mutex" "c' = t"
      using w(1) assms(2) by auto
    with CondBlock have sp: "sp_frame s s1" "s' = set_fr t (FCondSched v pc_mutex) s1"
      by (auto simp: cond_wait_block_def result_simps frame_of_def dest: schedule_sp)
    have "calm t s s1"
      by (rule calm_sp [OF sp(1)]) (simp add: calm_def)
    then have "passes t s s'"
      unfolding sp(2) by (rule passes_calm) (simp_all add: owners_sp [OF sp(1)] sp_frameD(8) [OF sp(1)])
    moreover have "worker s' t v True False"
      using sp(2) w(2) sp_frameD(1) [OF sp(1), of t] c(5) by (simp add: worker_def wait_frame_def owners_sp [OF sp(1)] alive_def)
    ultimately show ?thesis
      using c(3) by (simp add: resumed_def sp(2) owners_sp [OF sp(1)] sp_frameD(8) [OF sp(1)])
  next
    case (CondLock c' v' m b s1)
    then have m: "m = pc_mutex" "c' = t" "v' = v"
      using w(1) assms(2) by auto
    note l = lock_changes [OF CondLock(4) assms(2) _ c(6,3,4)] and cv = calls_conds(1) [OF CondLock(4)]
    show ?thesis
      by (rule worker_relock [OF l(1) _ _ l(4,5) cv _ w(2), of b "FCondLock v pc_mutex"])
        (use CondLock m n l(2,3) assms(2) lock_current(1) in auto)
  next
    case (CondLockResume c' v' m b s1)
    then have m: "m = pc_mutex" "c' = t" "v' = v"
      using w(1) assms(2) by auto
    note l = loop_changes [OF CondLockResume(4) assms(2) c(3,4,6)] and cv = calls_conds(2) [OF CondLockResume(4)]
    show ?thesis
      by (rule worker_relock [OF l(1) _ _ l(4,5) cv _ w(2), of b "FCondLock v pc_mutex"])
        (use CondLockResume m l(2,3) assms(2) lock_current(2) in auto)
  next
    case Tick
    with worker_tick [OF assms(1) this] assms(3) show ?thesis by (simp add: resumed_def base_ok_def)
  qed (use assms(2,4) w(1) in auto)
qed

section \<open>The invariant\<close>

abbreviation prod_worker :: "market \<Rightarrow> ksys \<Rightarrow> bool" where
  "prod_worker q s \<equiv> worker s PRODUCER cond_full (prod_pc q = P_test) (prod_pc q \<in> {P_set, P_signal, P_unlock})"

abbreviation cons_worker :: "market \<Rightarrow> ksys \<Rightarrow> bool" where
  "cons_worker q s \<equiv> worker s CONSUMER cond_empty (cons_pc q = C_test) (cons_pc q \<in> {C_read, C_clear, C_signal, C_unlock})"

text \<open>No signal is missed: who still waits does so for a reason, or the signal is about to come.\<close>

definition waits_ok :: "market \<Rightarrow> ksys \<Rightarrow> bool" where
  "waits_ok q s \<longleftrightarrow>
     (PRODUCER \<in> set (cond_wq (conds s cond_full)) \<longrightarrow> pcount q \<or> cons_pc q = C_signal) \<and>
     (CONSUMER \<in> set (cond_wq (conds s cond_empty)) \<longrightarrow> \<not> pcount q \<or> prod_pc q = P_signal)"

definition market_ok :: "market \<Rightarrow> bool" where
  "market_ok q \<longleftrightarrow> base_ok (mk_kernel q) \<and> (\<forall>t \<ge> 2. fr (mk_kernel q) t = FRun \<and> owners (mk_kernel q) pc_mutex \<noteq> Some t) \<and>
     prod_worker q (mk_kernel q) \<and> cons_worker q (mk_kernel q) \<and> waits_ok q (mk_kernel q) \<and> data_ok q"

lemma market_okD:
  assumes "market_ok q"
  shows "base_ok (mk_kernel q)" "2 \<le> t \<Longrightarrow> fr (mk_kernel q) t = FRun \<and> owners (mk_kernel q) pc_mutex \<noteq> Some t"
    "prod_worker q (mk_kernel q)" "cons_worker q (mk_kernel q)" "waits_ok q (mk_kernel q)" "data_ok q"
  using assms by (simp_all only: market_ok_def) blast

lemma market_moveI:
  assumes "market_ok q" and "passes t (mk_kernel q) s'" and "t < 2" and "base_ok s'" and "mk_kernel q' = s'"
    and "prod_worker q' s'" and "cons_worker q' s'" and "waits_ok q' s'" and "data_ok q'"
  shows "market_ok q'"
proof -
  have "fr s' u = FRun \<and> owners s' pc_mutex \<noteq> Some u" if "2 \<le> u" for u
  proof -
    have "u \<noteq> t" using assms(3) that by simp
    with market_okD(2) [OF assms(1) that] assms(2) show ?thesis
      unfolding passes_def by metis
  qed
  with assms(4-9) show ?thesis
    by (simp only: market_ok_def) blast
qed

lemma passes_refl [simp]: "passes t s s"
  by (simp add: passes_def)

text \<open>A condition queue holds at most the one thread that waits for the condition.\<close>

lemma market_queues:
  assumes "market_ok q"
  shows "cond_wq (conds (mk_kernel q) cond_full) = [] \<or> cond_wq (conds (mk_kernel q) cond_full) = [PRODUCER]"
    and "cond_wq (conds (mk_kernel q) cond_empty) = [] \<or> cond_wq (conds (mk_kernel q) cond_empty) = [CONSUMER]"
proof -
  note o = market_okD [OF assms]
  let ?s = "mk_kernel q"
  have f: "fr_ok ?s"
    using o(1) kernel_okD(3) [OF reachable_ok] by (simp add: base_ok_def)
  have single: "cond_wq (conds ?s v) = [] \<or> cond_wq (conds ?s v) = [x]" if "set (cond_wq (conds ?s v)) \<subseteq> {x}" for v x
  proof -
    have "distinct (cond_wq (conds ?s v))"
      using f by (simp add: fr_ok_def)
    with that show ?thesis
      by (cases "cond_wq (conds ?s v)" rule: remdups_adj.cases) auto
  qed
  have m: "waits_cv (fr ?s t) = Some v" if "t \<in> set (cond_wq (conds ?s v))" for t v
    using fr_okD(7) [OF f that] .
  have cs: "waits_cv (fr ?s PRODUCER) \<noteq> Some cond_empty" "waits_cv (fr ?s CONSUMER) \<noteq> Some cond_full"
    using worker_frame [OF o(3)] worker_frame [OF o(4)] by (auto simp: wait_frame_def cond_full_def cond_empty_def)
  have t: "t = PRODUCER \<or> t = CONSUMER" if "t \<in> set (cond_wq (conds ?s v))" for t v
    using m [OF that] o(2) [of t] by (cases "2 \<le> t") (auto simp: PRODUCER_def CONSUMER_def)
  have "set (cond_wq (conds ?s cond_full)) \<subseteq> {PRODUCER}" "set (cond_wq (conds ?s cond_empty)) \<subseteq> {CONSUMER}"
    using t m cs by blast+
  then show "cond_wq (conds ?s cond_full) = [] \<or> cond_wq (conds ?s cond_full) = [PRODUCER]"
    and "cond_wq (conds ?s cond_empty) = [] \<or> cond_wq (conds ?s cond_empty) = [CONSUMER]"
    using single by blast+
qed

lemma market_threads: "PRODUCER \<noteq> CONSUMER" "PRODUCER < 2" "CONSUMER < 2" "PRODUCER \<noteq> pthread_idle" "CONSUMER \<noteq> pthread_idle" "cond_full \<noteq> cond_empty"
  by (simp_all add: market_names pthread_idle_def CONFIG_PTHREAD_MAX_NUM_def)

lemma market_producer:
  assumes "market_ok q" and "pthread_current (mk_kernel q) = PRODUCER" and "fr (mk_kernel q) PRODUCER = FRun" and "producer q = Ok q'"
  shows "market_ok q'"
proof -
  note o = market_okD [OF assms(1)] and n = market_threads
  note move = market_moveI [OF assms(1) _ n(2)] and d = data_producer [OF o(6) assms(4)]
  let ?s = "mk_kernel q"
  have other: "cons_worker q s'" if "passes PRODUCER ?s s'" for s'
    using worker_passes [OF that n(1) [symmetric] o(4)] .
  show ?thesis
  proof (cases "prod_pc q")
    case P_lock
    then obtain s1 where s1: "call_lock PRODUCER pc_mutex ?s = Ok s1" "q' = q\<lparr>mk_kernel := s1, prod_pc := P_test\<rparr>"
      using assms(4) by (auto simp: producer_def result_simps)
    from o(3) P_lock have "worker ?s PRODUCER cond_full False False" by simp
    note l = worker_lock [OF o(1) assms(2) this s1(1) n(4)]
    show ?thesis
      by (rule move [OF l(1,3)]) (use s1(2) l(2,4) other [OF l(1)] o(5) P_lock d in \<open>simp_all add: waits_ok_def\<close>)
  next
    case P_test
    show ?thesis
    proof (cases "pcount q")
      case True
      with P_test obtain s1 where s1: "call_wait PRODUCER cond_full pc_mutex ?s = Ok s1" "q' = q\<lparr>mk_kernel := s1\<rparr>"
        using assms(4) by (auto simp: producer_def result_simps)
      from o(3) P_test have "worker ?s PRODUCER cond_full True False" by simp
      note l = worker_wait [OF o(1) assms(2) this assms(3) s1(1) n(4)]
      show ?thesis
        by (rule move [OF l(1,3)])
          (use s1(2) l(2) l(4) [of cond_empty] other [OF l(1)] o(5) P_test True d n(6) in \<open>simp_all add: waits_ok_def\<close>)
    next
      case False
      with P_test have q': "q' = q\<lparr>prod_pc := P_set\<rparr>"
        using assms(4) by (simp add: producer_def)
      show ?thesis
        by (rule move [OF passes_refl o(1)]) (use q' o(3-5) P_test assms(3) d in \<open>simp_all add: waits_ok_def worker_def\<close>)
    qed
  next
    case P_signal
    then obtain s1 where s1: "pthread_cond_signal cond_empty ?s = Ok s1" "q' = q\<lparr>mk_kernel := s1, prod_pc := P_unlock\<rparr>"
      using assms(4) by (auto simp: producer_def result_simps)
    note l = worker_signal [OF o(1) assms(2) o(3) assms(3) s1(1) market_queues(2) [OF assms(1)] n(1) [symmetric]]
    show ?thesis
      by (rule move [OF l(1,3)]) (use s1(2) l(2,4) other [OF l(1)] o(5) P_signal d n(6) in \<open>simp_all add: waits_ok_def\<close>)
  next
    case P_unlock
    then obtain s1 where s1: "pthread_mutex_unlock pc_mutex ?s = Ok s1" "q' = q\<lparr>mk_kernel := s1, prod_pc := P_inc\<rparr>"
      using assms(4) by (auto simp: producer_def result_simps)
    from o(3) P_unlock have "worker ?s PRODUCER cond_full False True" by simp
    note l = worker_unlock [OF o(1) assms(2) this s1(1)]
    show ?thesis
      by (rule move [OF l(1,3)]) (use s1(2) l(2,4) other [OF l(1)] o(5) P_unlock d in \<open>simp_all add: waits_ok_def\<close>)
  next
    case P_set
    then have q': "q' = q\<lparr>pcount := True, prod_pc := P_signal\<rparr>"
      using assms(4) by (simp add: producer_def)
    show ?thesis
      by (rule move [OF passes_refl o(1)]) (use q' o(3-5) P_set d in \<open>simp_all add: waits_ok_def\<close>)
  next
    case P_inc
    then have q': "q' = q\<lparr>prod_count := prod_count q + 1, prod_pc := P_lock\<rparr>"
      using assms(4) by (simp add: producer_def)
    show ?thesis
      by (rule move [OF passes_refl o(1)]) (use q' o(3-5) P_inc d in \<open>simp_all add: waits_ok_def\<close>)
  qed
qed

lemma market_consumer:
  assumes "market_ok q" and "pthread_current (mk_kernel q) = CONSUMER" and "fr (mk_kernel q) CONSUMER = FRun" and "consumer q = Ok q'"
  shows "market_ok q'"
proof -
  note o = market_okD [OF assms(1)] and n = market_threads
  note move = market_moveI [OF assms(1) _ n(3)] and d = data_consumer [OF o(6) assms(4)]
  let ?s = "mk_kernel q"
  have other: "prod_worker q s'" if "passes CONSUMER ?s s'" for s'
    using worker_passes [OF that n(1) o(3)] .
  show ?thesis
  proof (cases "cons_pc q")
    case C_lock
    then obtain s1 where s1: "call_lock CONSUMER pc_mutex ?s = Ok s1" "q' = q\<lparr>mk_kernel := s1, cons_pc := C_test\<rparr>"
      using assms(4) by (auto simp: consumer_def result_simps)
    from o(4) C_lock have "worker ?s CONSUMER cond_empty False False" by simp
    note l = worker_lock [OF o(1) assms(2) this s1(1) n(5)]
    show ?thesis
      by (rule move [OF l(1,3)]) (use s1(2) l(2,4) other [OF l(1)] o(5) C_lock d in \<open>simp_all add: waits_ok_def\<close>)
  next
    case C_test
    show ?thesis
    proof (cases "pcount q")
      case False
      with C_test obtain s1 where s1: "call_wait CONSUMER cond_empty pc_mutex ?s = Ok s1" "q' = q\<lparr>mk_kernel := s1\<rparr>"
        using assms(4) by (auto simp: consumer_def result_simps)
      from o(4) C_test have "worker ?s CONSUMER cond_empty True False" by simp
      note l = worker_wait [OF o(1) assms(2) this assms(3) s1(1) n(5)]
      show ?thesis
        by (rule move [OF l(1,3)])
          (use s1(2) l(2) l(4) [of cond_full] other [OF l(1)] o(5) C_test False d n(6) in \<open>simp_all add: waits_ok_def\<close>)
    next
      case True
      with C_test have q': "q' = q\<lparr>cons_pc := C_read\<rparr>"
        using assms(4) by (simp add: consumer_def)
      show ?thesis
        by (rule move [OF passes_refl o(1)]) (use q' o(3-5) C_test assms(3) d in \<open>simp_all add: waits_ok_def worker_def\<close>)
    qed
  next
    case C_signal
    then obtain s1 where s1: "pthread_cond_signal cond_full ?s = Ok s1" "q' = q\<lparr>mk_kernel := s1, cons_pc := C_unlock\<rparr>"
      using assms(4) by (auto simp: consumer_def result_simps)
    note l = worker_signal [OF o(1) assms(2) o(4) assms(3) s1(1) market_queues(1) [OF assms(1)] n(1)]
    show ?thesis
      by (rule move [OF l(1,3)]) (use s1(2) l(2,4) other [OF l(1)] o(5) C_signal d n(6) in \<open>simp_all add: waits_ok_def\<close>)
  next
    case C_unlock
    then obtain s1 where s1: "pthread_mutex_unlock pc_mutex ?s = Ok s1" "q' = q\<lparr>mk_kernel := s1, cons_pc := C_print\<rparr>"
      using assms(4) by (auto simp: consumer_def result_simps)
    from o(4) C_unlock have "worker ?s CONSUMER cond_empty False True" by simp
    note l = worker_unlock [OF o(1) assms(2) this s1(1)]
    show ?thesis
      by (rule move [OF l(1,3)]) (use s1(2) l(2,4) other [OF l(1)] o(5) C_unlock d in \<open>simp_all add: waits_ok_def\<close>)
  next
    case C_read
    with o(6) have q': "q' = q\<lparr>cons_count := prod_count q, taken := taken q @ [prod_count q], cons_pc := C_clear\<rparr>"
      using assms(4) by (simp add: consumer_def data_ok_def rguard_def)
    show ?thesis
      by (rule move [OF passes_refl o(1)]) (use q' o(3-5) C_read d in \<open>simp_all add: waits_ok_def\<close>)
  next
    case C_clear
    then have q': "q' = q\<lparr>pcount := False, cons_pc := C_signal\<rparr>"
      using assms(4) by (simp add: consumer_def)
    show ?thesis
      by (rule move [OF passes_refl o(1)]) (use q' o(3-5) C_clear d in \<open>simp_all add: waits_ok_def\<close>)
  next
    case C_print
    then obtain out where q': "q' = q\<lparr>mk_out := out, cons_pc := C_lock\<rparr>"
      using assms(4) by (auto simp: consumer_def result_simps)
    show ?thesis
      by (rule move [OF passes_refl o(1)]) (use q' o(3-5) C_print d in \<open>simp_all add: waits_ok_def\<close>)
  qed
qed

lemma market_resume:
  assumes "market_ok q" and "fr (mk_kernel q) (pthread_current (mk_kernel q)) \<noteq> FRun" and "step (mk_kernel q) s'"
  shows "market_ok (q\<lparr>mk_kernel := s'\<rparr>)"
proof -
  note o = market_okD [OF assms(1)] and n = market_threads
  let ?s = "mk_kernel q" and ?t = "pthread_current (mk_kernel q)"
  have waits: "waits_ok (q\<lparr>mk_kernel := s'\<rparr>) s'" if "\<forall>x w. x \<in> set (cond_wq (conds s' w)) \<longrightarrow> x \<in> set (cond_wq (conds ?s w))"
    using o(5) that unfolding waits_ok_def by simp
  have "?t < 2"
    using o(2) [of ?t] assms(2) by (cases "?t < 2") simp_all
  then consider "?t = PRODUCER" | "?t = CONSUMER"
    by (auto simp: market_names less_2_cases_iff)
  then show ?thesis
  proof cases
    case 1
    then have p: "prod_pc q = P_test"
      using o(3) assms(2) by (auto simp: worker_def)
    with o(3) have "worker ?s PRODUCER cond_full True False" by simp
    from worker_resume [OF o(1) 1 this _ assms(3)] assms(2) 1 have r: "resumed PRODUCER cond_full ?s s'" by simp
    then show ?thesis
      by (intro market_moveI [OF assms(1) _ n(2) base_step [OF o(1) assms(3)]])
        (use p o(6) waits worker_passes [OF _ n(1) [symmetric] o(4)] in \<open>simp_all add: resumed_def\<close>)
  next
    case 2
    then have p: "cons_pc q = C_test"
      using o(4) assms(2) by (auto simp: worker_def)
    with o(4) have "worker ?s CONSUMER cond_empty True False" by simp
    from worker_resume [OF o(1) 2 this _ assms(3)] assms(2) 2 have r: "resumed CONSUMER cond_empty ?s s'" by simp
    then show ?thesis
      by (intro market_moveI [OF assms(1) _ n(3) base_step [OF o(1) assms(3)]])
        (use p o(6) waits worker_passes [OF _ n(1) o(3)] in \<open>simp_all add: resumed_def\<close>)
  qed
qed

lemma market_reachable_ok: "market_reachable q \<Longrightarrow> market_ok q"
proof (induction rule: market_reachable.induct)
  case (Start q)
  then show ?case
    by (auto simp: market_start_def market_ok_def base_ok_def owners_def locked_once_def worker_def wait_frame_def alive_def waits_ok_def
        data_defs counted_def)
next
  case (Next q q')
  from Next(2,3) show ?case
  proof (induction rule: market_step.induct)
    case (Produce q q')
    then show ?case by (blast intro: market_producer)
  next
    case (Consume q q')
    then show ?case by (blast intro: market_consumer)
  next
    case (Resume q s')
    then show ?case by (blast intro: market_resume)
  next
    case (Tick q s')
    note o = market_okD [OF Tick(2)]
    note l = worker_tick [OF o(1) Tick(1)]
    show ?case
      by (rule market_moveI [OF Tick(2) l(1) market_threads(2) l(3)]) (use o(5,6) l(2) [OF o(3)] l(2) [OF o(4)] l(4) in \<open>simp_all add: waits_ok_def\<close>)
  qed
qed

section \<open>They never both sleep\<close>

lemma market_progress:
  assumes "market_ok q"
  shows "thstate (mk_kernel q) PRODUCER = PTHREAD_STATE_RUNNING \<or> thstate (mk_kernel q) CONSUMER = PTHREAD_STATE_RUNNING"
proof (rule ccontr)
  assume a: "\<not> ?thesis"
  note o = market_okD [OF assms]
  let ?s = "mk_kernel q"
  have r: "reachable ?s"
    using o(1) by (simp add: base_ok_def)
  note k = kernel_okD [OF reachable_ok [OF r]]
  note mx = mx_invD [OF kinvD(4) [OF k(1)]]
  have sl: "thstate ?s PRODUCER = PTHREAD_STATE_SLEEPING" "thstate ?s CONSUMER = PTHREAD_STATE_SLEEPING"
    using a o(3,4) by (auto simp: worker_def alive_def)
  then have nf: "fr ?s PRODUCER \<noteq> FRun" "fr ?s CONSUMER \<noteq> FRun"
    using fr_okD(3) [OF k(3)] by blast+
  with o(3,4) have pc: "prod_pc q = P_test" "cons_pc q = C_test"
    by (auto simp: worker_def)
  have two: "t = PRODUCER \<or> t = CONSUMER" if "fr ?s t \<noteq> FRun \<or> owners ?s pc_mutex = Some t" for t
    using o(2) [of t] that by (cases "2 \<le> t") (auto simp: market_names less_2_cases_iff not_le)
  have "owners ?s pc_mutex \<noteq> Some PRODUCER" "owners ?s pc_mutex \<noteq> Some CONSUMER"
    using o(3,4) nf pc by (simp_all add: worker_def)
  with two have free: "owner (mutexes ?s pc_mutex) = None"
    by (cases "owners ?s pc_mutex") (auto simp: owners_def)
  have "sleep_on (threads ?s t) \<noteq> Some pc_mutex" for t
  proof
    assume "sleep_on (threads ?s t) = Some pc_mutex"
    with mx(4) [of t pc_mutex] mx(3,6) [of pc_mutex] free obtain u where u: "u \<in> set (wq (mutexes ?s pc_mutex))" "thstate ?s u = PTHREAD_STATE_RUNNING"
      by (fastforce simp: wake_ok_def mutex_ok_def)
    then have "fr ?s u \<noteq> FRun"
      using mx(4) [of u pc_mutex] fr_okD(1) [OF k(3), of u] by auto
    with two [of u] u(2) sl show False
      by auto
  qed
  then have "waits_mx (fr ?s t) \<noteq> Some pc_mutex" for t
    using fr_okD(1) [OF k(3), of t] by metis
  from this [of PRODUCER] this [of CONSUMER] nf worker_frame [OF o(3)] worker_frame [OF o(4)]
  have "fr ?s PRODUCER \<in> {FCondUnlocked cond_full pc_mutex None, FCondSched cond_full pc_mutex}"
    "fr ?s CONSUMER \<in> {FCondUnlocked cond_empty pc_mutex None, FCondSched cond_empty pc_mutex}"
    by (auto simp: wait_frame_def)
  with o(3,4) sl have "PRODUCER \<in> set (cond_wq (conds ?s cond_full))" "CONSUMER \<in> set (cond_wq (conds ?s cond_empty))"
    by (simp_all only: worker_def)
  with o(5) pc show False
    by (simp add: waits_ok_def)
qed

end
