(* ===== verification/SystemProps.thy ===== *)
theory SystemProps
  imports Boot DeviceProps Philosophers ProducerConsumer
begin

text \<open>
  The properties of the whole system: start-up, the kernel and the keyboard together, and two applications on the kernel.
\<close>

section \<open>Start-up\<close>

definition shell_attr :: "u32 \<Rightarrow> pthread_attr" where
  "shell_attr stack = (pthread_attr_setstack pthread_attr_init stack 1024)\<lparr>attr_priority := 31\<rparr>"

lemma shell_attr_simps [simp]:
  "attr_priority (shell_attr stack) = 31" "attr_flags (shell_attr stack) = 0" "attr_stack_addr (shell_attr stack) = stack"
  by (simp_all add: shell_attr_def pthread_attr_setstack_def pthread_attr_init_def)

text \<open>The linked shell is an application of the kind \<open>sys_reachable\<close> starts with.\<close>

lemma shell_boot:
  assumes "mb_flags info AND 1 \<noteq> 0" and "length (se_isr env) \<le> 48"
    and "shows_tm (se_rtc env) bin h24 t" and "TimeLib.tm_ok t" and "100 \<le> tm_year t" and "tm_year t < 200" and "mktime t = Ok sec"
  shows "\<exists>b. main env info [shell_init stack] zero_board = Ok b \<and> sys_reachable b \<and> pthread_current (b_kernel b) = 0 \<and>
    th_core (threads (b_kernel b) 0) = th_core (launched (shell_attr stack) ''shell'' th_zero) \<and>
    (\<forall>t. thstate (b_kernel b) t = (if t = 0 \<or> t = pthread_idle then PTHREAD_STATE_RUNNING else PTHREAD_STATE_NONE)) \<and>
    fr (b_kernel b) = (\<lambda>_. FRun) \<and> wall_tv (b_kernel b) = \<lparr>tv_sec = sec, tv_usec = 0\<rparr> \<and>
    (\<forall>i \<le> IRQ_MAX. b_handlers b i = kernel_handlers i) \<and> cb_bytes (kcb (b_kbd b)) = [] \<and> kb_waiter (b_kbd b) = None \<and> tb_ok (b_screen b)"
proof -
  let ?apps = "[(shell_attr stack, ''shell'')]"
  have app: "[shell_init stack] = launches ?apps"
    by (simp add: launches_def fun_eq_iff shell_init_launch shell_attr_def)
  have n: "length ?apps \<le> 32" "\<forall>a \<in> set ?apps. app_ok a"
    by (simp_all add: app_ok_def PTHREAD_NAME_SIZE_def)
  from main_many [OF assms n] obtain b where b: "main env info (launches ?apps) zero_board = Ok b" "sys_ok b"
    and r: "\<forall>t. thstate (b_kernel b) t = (if t < length ?apps \<or> t = pthread_idle then PTHREAD_STATE_RUNNING else PTHREAD_STATE_NONE)"
    "\<forall>i < length ?apps. th_core (threads (b_kernel b) i) = th_core (launched (fst (?apps ! i)) (snd (?apps ! i)) th_zero) \<and>
       unat (attr_priority (fst (?apps ! i))) \<le> eprio (b_kernel b) (pthread_current (b_kernel b))" "eprio (b_kernel b) pthread_idle = 0"
    and q: "fr (b_kernel b) = (\<lambda>_. FRun)" "wall_tv (b_kernel b) = \<lparr>tv_sec = sec, tv_usec = 0\<rparr>"
    "\<forall>i \<le> IRQ_MAX. b_handlers b i = kernel_handlers i" "cb_bytes (kcb (b_kbd b)) = []" "kb_waiter (b_kbd b) = None" "tb_ok (b_screen b)"
    by blast
  note run = kinvD(7) [OF kernel_okD(1) [OF sys_okD(1) [OF b(2)]]]
  have "pthread_current (b_kernel b) \<noteq> pthread_idle" using r(2,3) by auto
  then have "pthread_current (b_kernel b) = 0" using r(1) [rule_format, of "pthread_current (b_kernel b)"] run by (auto split: if_splits)
  moreover have "sys_reachable b" using sys_reachable.Start [OF b(1) assms n] .
  moreover have "th_core (threads (b_kernel b) 0) = th_core (launched (shell_attr stack) ''shell'' th_zero)" using r(2) by simp
  moreover have "\<forall>t. thstate (b_kernel b) t = (if t = 0 \<or> t = pthread_idle then PTHREAD_STATE_RUNNING else PTHREAD_STATE_NONE)"
    using r(1) by simp
  ultimately show ?thesis
    using b(1) q unfolding app by blast
qed

lemma shell_starts:
  assumes "mb_flags info AND 1 \<noteq> 0" and "length (se_isr env) \<le> 48"
    and "shows_tm (se_rtc env) bin h24 t" and "TimeLib.tm_ok t" and "100 \<le> tm_year t" and "tm_year t < 200" and "mktime t = Ok sec"
  shows "\<exists>b th. main env info [shell_init stack] zero_board = Ok b \<and> sys_reachable b \<and> pthread_current (b_kernel b) = 0 \<and>
    th = threads (b_kernel b) 0 \<and> th_name th = ''shell'' \<and> priority th = 31 \<and> effective_priority th = 31 \<and>
    th_flags th = PTHREAD_FLAG_DETACH \<and> th_stack_addr th = stack \<and>
    (\<forall>t. thstate (b_kernel b) t = (if t = 0 \<or> t = pthread_idle then PTHREAD_STATE_RUNNING else PTHREAD_STATE_NONE)) \<and>
    wall_tv (b_kernel b) = \<lparr>tv_sec = sec, tv_usec = 0\<rparr> \<and>
    b_handlers b 32 = pit_handler \<and> b_handlers b 33 = keyboard_irq_handler \<and> cb_bytes (kcb (b_kbd b)) = [] \<and> tb_ok (b_screen b)"
proof -
  from shell_boot [OF assms, of stack] obtain b where b: "main env info [shell_init stack] zero_board = Ok b" "sys_reachable b"
    "pthread_current (b_kernel b) = 0" and c: "th_core (threads (b_kernel b) 0) = th_core (launched (shell_attr stack) ''shell'' th_zero)"
    and r: "\<forall>t. thstate (b_kernel b) t = (if t = 0 \<or> t = pthread_idle then PTHREAD_STATE_RUNNING else PTHREAD_STATE_NONE)"
    "wall_tv (b_kernel b) = \<lparr>tv_sec = sec, tv_usec = 0\<rparr>" "\<forall>i \<le> IRQ_MAX. b_handlers b i = kernel_handlers i"
    "cb_bytes (kcb (b_kbd b)) = []" "tb_ok (b_screen b)"
    by blast
  have "th_name a = th_name d \<and> priority a = priority d \<and> effective_priority a = effective_priority d \<and> th_flags a = th_flags d \<and>
      th_stack_addr a = th_stack_addr d" if "th_core a = th_core d" for a d
    using that by (cases a; cases d) (simp add: th_core_def)
  from this [OF c] b r show ?thesis
    by (intro exI [of _ b] exI [of _ "threads (b_kernel b) 0"])
      (simp add: launched_def create_init_def IRQ_MAX_def kernel_handlers_def)
qed

text \<open>
  C9. From the boot loader to the shell.  \<open>_start\<close> enters \<open>main\<close> with interrupts masked, on the idle stack, of which all but five
  words carry the pattern of unused stack, and with the information of the loader as its argument.  \<open>main\<close> with the shell linked in
  clears the screen, prints the memory, sets up the tables and devices, starts the
  shell and yields.  Then the shell is running with its name, the highest priority, its stack and detached; only it and
  the idle thread exist; the wall clock shows the date of the real-time clock; interrupts 32 and 33 have their handlers; no
  key is waiting.  A boot loader that passes no memory information ends the start.
\<close>

theorem boot_starts_shell:
  assumes "outside (se_idle_stack env) (ebx c)" and "outside (se_idle_stack env) (ebx c + 4)" and "outside (se_idle_stack env) (ebx c + 8)"
    and "length (se_isr env) \<le> 48"
    and "shows_tm (se_rtc env) bin h24 t" and "TimeLib.tm_ok t" and "100 \<le> tm_year t" and "tm_year t < 200" and "mktime t = Ok sec"
  shows "(\<exists>c' m'. boot_start (se_idle_stack env) ret main_addr (c, m) = (c', m') \<and> eip c' = main_addr \<and> \<not> interruptible c' \<and>
      info_at m' (m' (esp c' + 4)) = info_at m (ebx c) \<and> stack_check_size (idle_stack m' (se_idle_stack env)) \<le> 20) \<and>
    (m (ebx c) AND 1 = 0 \<longrightarrow> boot env ret main_addr [shell_init stack] (c, m) zero_board = Fault Diverge) \<and>
    (m (ebx c) AND 1 \<noteq> 0 \<longrightarrow>
      (\<exists>b th. boot env ret main_addr [shell_init stack] (c, m) zero_board = Ok b \<and> sys_reachable b \<and> pthread_current (b_kernel b) = 0 \<and>
        th = threads (b_kernel b) 0 \<and> th_name th = ''shell'' \<and> priority th = 31 \<and> effective_priority th = 31 \<and>
        th_flags th = PTHREAD_FLAG_DETACH \<and> th_stack_addr th = stack \<and>
        (\<forall>t. thstate (b_kernel b) t = (if t = 0 \<or> t = pthread_idle then PTHREAD_STATE_RUNNING else PTHREAD_STATE_NONE)) \<and>
        wall_tv (b_kernel b) = \<lparr>tv_sec = sec, tv_usec = 0\<rparr> \<and>
        b_handlers b 32 = pit_handler \<and> b_handlers b 33 = keyboard_irq_handler \<and> cb_bytes (kcb (b_kbd b)) = [] \<and> tb_ok (b_screen b)))"
proof (intro conjI impI)
  obtain c' m' where s: "boot_start (se_idle_stack env) ret main_addr (c, m) = (c', m')" by fastforce
  with boot_start_spec(1,2,4) [OF s assms(1-3)] boot_start_memory(3) [OF s assms(1-3)]
  show "\<exists>c' m'. boot_start (se_idle_stack env) ret main_addr (c, m) = (c', m') \<and> eip c' = main_addr \<and> \<not> interruptible c' \<and>
      info_at m' (m' (esp c' + 4)) = info_at m (ebx c) \<and> stack_check_size (idle_stack m' (se_idle_stack env)) \<le> 20"
    by blast
next
  assume "m (ebx c) AND 1 = 0"
  then show "boot env ret main_addr [shell_init stack] (c, m) zero_board = Fault Diverge"
    using kprintf_lit [of "map of_char ''no memory info'' @ [0x0a]"] by (simp add: boot_main [OF assms(1-3)] main_def info_at_def Let_def)
next
  assume "m (ebx c) AND 1 \<noteq> 0"
  then have "mb_flags (info_at m (ebx c)) AND 1 \<noteq> 0" by (simp add: info_at_def)
  from shell_starts [OF this assms(4-9), of stack]
  show "\<exists>b th. boot env ret main_addr [shell_init stack] (c, m) zero_board = Ok b \<and> sys_reachable b \<and> pthread_current (b_kernel b) = 0 \<and>
        th = threads (b_kernel b) 0 \<and> th_name th = ''shell'' \<and> priority th = 31 \<and> effective_priority th = 31 \<and>
        th_flags th = PTHREAD_FLAG_DETACH \<and> th_stack_addr th = stack \<and>
        (\<forall>t. thstate (b_kernel b) t = (if t = 0 \<or> t = pthread_idle then PTHREAD_STATE_RUNNING else PTHREAD_STATE_NONE)) \<and>
        wall_tv (b_kernel b) = \<lparr>tv_sec = sec, tv_usec = 0\<rparr> \<and>
        b_handlers b 32 = pit_handler \<and> b_handlers b 33 = keyboard_irq_handler \<and> cb_bytes (kcb (b_kbd b)) = [] \<and> tb_ok (b_screen b)"
    unfolding boot_main [OF assms(1-3)] .
qed

definition demo_start :: start_env where
  "demo_start =
     \<lparr>se_isr = [], se_inb_pit = (\<lambda>_. 0), se_inb_kbd = (\<lambda>_. 0), se_rtc = demo_clock, se_tm = demo_tm, se_buffer = (\<lambda>_. 0),
      se_idle_stack = 0x1000, se_kernel_end = 0x200000\<rparr>"

definition demo_info :: multiboot_info where
  "demo_info = \<lparr>mb_flags = 1, mem_lower = 640, mem_upper = 65536\<rparr>"

lemma demo_start_ok:
  "length (se_isr demo_start) \<le> 48" "shows_tm (se_rtc demo_start) False False demo_tm" "100 \<le> tm_year demo_tm" "tm_year demo_tm < 200"
  "mb_flags demo_info AND 1 \<noteq> 0"
  using demo_clock_shows(1) by (simp_all add: demo_start_def demo_tm_def demo_info_def)

text \<open>The loader has put its information at address 0x500.\<close>

lemma demo_outside: "a < 0x1000 \<Longrightarrow> outside (se_idle_stack demo_start) a"
proof -
  assume a: "a < 0x1000"
  have "unat (0x1000 + 4 * of_nat i :: u32) = 0x1000 + 4 * i" if "i < 256" for i
  proof -
    have "unat (of_nat (0x1000 + 4 * i) :: u32) = 0x1000 + 4 * i" unfolding unat_of_nat using that by (simp add: take_bit_nat_eq_self)
    then show ?thesis by simp
  qed
  with a show ?thesis by (force simp: outside_def demo_start_def word_less_nat_alt)
qed

theorem boot_starts_shell_witness:
  "\<exists>b. boot demo_start 0x100050 0x100100 [shell_init 0x2000] (demo_cpu\<lparr>ebx := 0x500\<rparr>, \<lambda>_. 1) zero_board = Ok b \<and>
    th_name (threads (b_kernel b) (pthread_current (b_kernel b))) = ''shell''"
proof -
  let ?c = "demo_cpu\<lparr>ebx := 0x500\<rparr>"
  have o: "outside (se_idle_stack demo_start) (ebx ?c)" "outside (se_idle_stack demo_start) (ebx ?c + 4)"
    "outside (se_idle_stack demo_start) (ebx ?c + 8)"
    by (rule demo_outside; simp)+
  from boot_starts_shell [OF o demo_start_ok(1,2) demo_clock_shows(2) demo_start_ok(3,4) demo_clock_shows(3),
      of "0x100050" "0x100100" "\<lambda>_. 1" "0x2000"]
  show ?thesis by auto
qed

section \<open>Kernel and keyboard\<close>

text \<open>
  C8. Whatever applications are started, at most one thread for each slot, and whatever the threads, the clock and the keyboard do after
  start-up: the kernel invariant holds, the ring of characters is
  well formed, at most one thread waits in \<open>getchar\<close>, and it never sleeps while there is a character in the ring.
\<close>

theorem system_invariant:
  assumes "sys_reachable b"
  shows "kernel_ok (b_kernel b) \<and> cb_ok (kcb (b_kbd b)) \<and> (fr (b_kernel b) t = FRead \<longleftrightarrow> kb_waiter (b_kbd b) = Some t) \<and>
    (kb_waiter (b_kbd b) = Some t \<and> cb_bytes (kcb (b_kbd b)) \<noteq> [] \<longrightarrow> thstate (b_kernel b) t \<noteq> PTHREAD_STATE_SLEEPING)"
  using sys_okD [OF sys_reachable_ok [OF assms]] by blast

text \<open>The shell asks for a character before any key was pressed.\<close>

lemma shell_waits:
  obtains b where "sys_reachable b" "kb_waiter (b_kbd b) = Some 0" "thstate (b_kernel b) 0 = PTHREAD_STATE_SLEEPING"
proof -
  from shell_boot [OF demo_start_ok(5,1,2) demo_clock_shows(2) demo_start_ok(3,4) demo_clock_shows(3), of 0] obtain b where
    b: "sys_reachable b" "pthread_current (b_kernel b) = 0" "fr (b_kernel b) = (\<lambda>_. FRun)" "cb_bytes (kcb (b_kbd b)) = []" "kb_waiter (b_kbd b) = None"
    by blast
  note o = sys_okD [OF sys_reachable_ok [OF b(1)]] and k = kernel_okD [OF sys_okD(1) [OF sys_reachable_ok [OF b(1)]]]
  have so: "sleep_on (threads (b_kernel b) 0) = None"
    using fr_okD(1) [OF k(3), of 0] b(3) by simp
  from getchar_blocks [OF o(2) b(4,5) k(1) b(2) _ so] idle_32 obtain kb s where
    g: "getchar (b_kbd b) (b_kernel b) = Ok (None, kb, s)" "kb_waiter kb = Some 0" "thstate s 0 = PTHREAD_STATE_SLEEPING"
    by auto
  have "sys_step b (b\<lparr>b_kernel := set_fr 0 FRead s, b_kbd := kb\<rparr>)"
    using sys_step.Getchar [OF b(2) _ _ g(1)] b(3) idle_32 by simp
  from sys_reachable.Next [OF b(1) this] that g show ?thesis
    by simp
qed

theorem system_invariant_witness:
  "\<exists>b. sys_reachable b \<and> kb_waiter (b_kbd b) = Some 0 \<and> fr (b_kernel b) 0 = FRead \<and> cb_bytes (kcb (b_kbd b)) = []"
proof -
  obtain b where b: "sys_reachable b" "kb_waiter (b_kbd b) = Some 0" "thstate (b_kernel b) 0 = PTHREAD_STATE_SLEEPING"
    by (rule shell_waits)
  with system_invariant [OF b(1), of 0] show ?thesis
    by blast
qed

lemma sys_handlers: "sys_reachable b \<Longrightarrow> b_handlers b 33 = keyboard_irq_handler"
proof (induction rule: sys_reachable.induct)
  case (Start env info apps b bin h24 t sec)
  from main_many [OF Start(2-)] Start(1) show ?case
    by (auto simp: kernel_handlers_def IRQ_MAX_def)
next
  case (Next b b')
  from Next(2) have "b_handlers b' = b_handlers b"
    by cases (auto simp: interrupt_dispatch_def result_simps split: interrupt_handler.splits)
  with Next(3) show ?case
    by simp
qed

text \<open>
  C17. Every key wakes the reader: a keyboard interrupt always completes, and unless its code only announces a longer one, the thread that
  waits in \<open>getchar\<close> is runnable afterwards; when it runs again and there are characters, it takes the oldest one.
\<close>

theorem reader_wakes:
  assumes "sys_reachable b" and "kb_waiter (b_kbd b) = Some t"
  shows "(ready 2 ((b_io b)\<lparr>io_status := status\<rparr>) \<longrightarrow>
      (\<exists>b'. interrupt_dispatch 33 code status b = Ok b' \<and> sys_reachable b' \<and> fr (b_kernel b') t = FRead \<and>
        (code \<noteq> 0xe0 \<and> code \<noteq> 0xe1 \<longrightarrow> thstate (b_kernel b') t = PTHREAD_STATE_RUNNING))) \<and>
    (pthread_current (b_kernel b) = t \<and> cb_bytes (kcb (b_kbd b)) = c # cs \<longrightarrow>
      (\<exists>kb'. getchar_resume (b_kbd b) (b_kernel b) = Ok (Some c, kb', b_kernel b) \<and> cb_bytes (kcb kb') = cs \<and> kb_waiter kb' = None))"
proof (intro conjI impI)
  note ok = sys_reachable_ok [OF assms(1)]
  note o = sys_okD [OF ok]
  assume r: "ready 2 ((b_io b)\<lparr>io_status := status\<rparr>)"
  from keyboard_interrupt_spec [OF o(2) r kernel_okD(1) [OF o(1)], of code] obtain kb' io' s' where
    k: "keyboard_interrupt code (b_kbd b, (b_io b)\<lparr>io_status := status\<rparr>) (b_kernel b) = Ok ((kb', io'), s')"
    by blast
  let ?b = "b\<lparr>b_kernel := s', b_kbd := kb', b_io := io'\<rparr>"
  have d: "interrupt_dispatch 33 code status b = Ok ?b"
    using sys_handlers [OF assms(1)] k by (simp add: interrupt_dispatch_def)
  from sys_reachable.Next [OF assms(1) sys_step.Interrupt [OF r d]] d sys_key(2,3) [OF ok r k] assms(2) o(3) [of t]
  show "\<exists>b'. interrupt_dispatch 33 code status b = Ok b' \<and> sys_reachable b' \<and> fr (b_kernel b') t = FRead \<and>
        (code \<noteq> 0xe0 \<and> code \<noteq> 0xe1 \<longrightarrow> thstate (b_kernel b') t = PTHREAD_STATE_RUNNING)"
    by auto
next
  assume "pthread_current (b_kernel b) = t \<and> cb_bytes (kcb (b_kbd b)) = c # cs"
  with getchar_takes [of "(b_kbd b)\<lparr>kb_waiter := None\<rparr>" c cs "b_kernel b"] sys_okD(2) [OF sys_reachable_ok [OF assms(1)]]
  show "\<exists>kb'. getchar_resume (b_kbd b) (b_kernel b) = Ok (Some c, kb', b_kernel b) \<and> cb_bytes (kcb kb') = cs \<and> kb_waiter kb' = None"
    by (auto simp: getchar_resume_def)
qed

theorem reader_wakes_witness:
  "\<exists>b b'. sys_reachable b \<and> thstate (b_kernel b) 0 = PTHREAD_STATE_SLEEPING \<and> interrupt_dispatch 33 0x1e [0, 0] b = Ok b' \<and>
    thstate (b_kernel b') 0 = PTHREAD_STATE_RUNNING"
proof -
  obtain b where b: "sys_reachable b" "kb_waiter (b_kbd b) = Some 0" "thstate (b_kernel b) 0 = PTHREAD_STATE_SLEEPING"
    by (rule shell_waits)
  from reader_wakes [OF b(1,2), of "[0, 0]" "0x1e" 0 "[]"] b show ?thesis
    by (auto simp: ready_def)
qed

section \<open>The dining philosophers\<close>


text \<open>The table can be laid.\<close>

lemma scene_threads: "n \<le> 5 \<Longrightarrow> \<exists>s. scene n s \<and> (\<forall>m. mutexes s m = mx_zero) \<and> (\<forall>t<n. eprio s t \<le> n)"
proof (induction n)
  case 0
  from scene_boot show ?case
    by auto
next
  case (Suc n)
  then obtain s where s: "scene n s" "\<forall>m. mutexes s m = mx_zero" "\<forall>t<n. eprio s t \<le> n"
    by auto
  have p: "unat (of_nat (Suc n) :: u8) = Suc n"
    using Suc.prems by (simp only: unsigned_of_nat) (simp add: take_bit_nat_eq_self)
  from scene_create [OF s(1), of "of_nat (Suc n)"] Suc.prems s(3) idle_32 obtain s' where
    "scene (Suc n) s'" "eprio s' n = Suc n" "\<forall>t<n. eprio s' t = eprio s t" "mutexes s' = mutexes s"
    by (auto simp only: p) fastforce
  with s show ?case
    by (intro exI [of _ s']) (auto simp: less_Suc_eq)
qed


section \<open>Producer and consumer\<close>

text \<open>
  C19. The producer and the consumer on the kernel, in every interleaving of their calls and accesses with each other and with timer
  interrupts: they are never both in their critical sections, one of them is always runnable, the number read \<open>k\<close>th is
  \<open>k\<close> or \<open>k + 1\<close> (the increment comes after the mutex is released), and the lines printed are the numbers read, in order.
\<close>

theorem producer_consumer_counts:
  assumes "market_reachable q"
  shows "\<not> (prod_pc q \<in> {P_set, P_signal, P_unlock} \<and> cons_pc q \<in> {C_read, C_clear, C_signal, C_unlock}) \<and>
    (thstate (mk_kernel q) PRODUCER = PTHREAD_STATE_RUNNING \<or> thstate (mk_kernel q) CONSUMER = PTHREAD_STATE_RUNNING) \<and>
    (k < length (taken q) \<longrightarrow> taken q ! k = of_nat k \<or> taken q ! k = of_nat (k + 1)) \<and>
    mk_out q = concat (map line (if cons_pc q \<in> {C_clear, C_signal, C_unlock, C_print} then butlast (taken q) else taken q))"
proof (intro conjI)
  note ok = market_reachable_ok [OF assms]
  note o = market_okD [OF ok]
  show "\<not> (prod_pc q \<in> {P_set, P_signal, P_unlock} \<and> cons_pc q \<in> {C_read, C_clear, C_signal, C_unlock})"
    using worker_exclusive [OF o(3,4)] market_threads(1) by blast
  show "thstate (mk_kernel q) PRODUCER = PTHREAD_STATE_RUNNING \<or> thstate (mk_kernel q) CONSUMER = PTHREAD_STATE_RUNNING"
    by (rule market_progress [OF ok])
  show "k < length (taken q) \<longrightarrow> taken q ! k = of_nat k \<or> taken q ! k = of_nat (k + 1)"
    using o(6) by (simp add: data_ok_def counted_def)
  show "mk_out q = concat (map line (if cons_pc q \<in> {C_clear, C_signal, C_unlock, C_print} then butlast (taken q) else taken q))"
    using o(6) by (simp add: data_ok_def unprinted_def)
qed

theorem producer_consumer_counts_witness:
  "\<exists>q. market_reachable q \<and> prod_pc q = P_lock \<and>
    (thstate (mk_kernel q) PRODUCER = PTHREAD_STATE_RUNNING \<or> thstate (mk_kernel q) CONSUMER = PTHREAD_STATE_RUNNING)"
proof -
  from scene_threads [of 2] obtain s where s: "scene 2 s" "\<forall>m. mutexes s m = mx_zero"
    by auto
  let ?q = "\<lparr>mk_kernel = s, pcount = False, prod_pc = P_lock, prod_count = 0, cons_pc = C_lock, cons_count = 0, mk_out = [], taken = []\<rparr>"
  have r: "market_reachable ?q"
    by (rule market_reachable.Start) (use s in \<open>auto simp: market_start_def scene_def market_names mx_zero_def\<close>)
  from producer_consumer_counts [OF r, of 0] r show ?thesis
    by (intro exI [of _ ?q]) simp
qed

end
