(* ===== verification/Spec2Isabelle.thy ===== *)
theory Spec2Isabelle
  imports LibProps SystemProps
begin

text \<open>
  Turnix is a small kernel for the i386: POSIX threads with priorities and priority inheritance, timers, a C library,
  drivers for the text screen, the keyboard and the real-time clock, and a shell.  This development models it in HOL and
  proves that it does what it is meant to do.

  \<^bold>\<open>Layers and theories.\<close>  Source files are relative to \<open>src/\<close>.

  \<^item> \<open>Prelude\<close>: machine integers, the faults of an operation and the result type that carries them.
  \<^item> \<open>Tailq\<close>: the macros of \<open>include/sys/queue.h\<close> on linked cells; the locale \<open>tail_queue\<close> is their contract.  It
    justifies the lists that stand for queues in the kernel theories.
  \<^item> \<open>Thread\<close>: the structures of \<open>include/errno.h\<close>, \<open>include/pthread.h\<close> and \<open>include/sched.h\<close> and the kernel
    state: the array of threads, run queue, current and next thread, mutexes, conditions.
  \<^item> \<open>RunQueue\<close>, \<open>Sched\<close>, \<open>PrioInherit\<close>, \<open>Mutex\<close>, \<open>Lifecycle\<close>, \<open>Cond\<close>: \<open>kernel/pthread.c\<close> in its own order.  The
    locale \<open>ready_queue\<close> is the contract of the run queue.
  \<^item> \<open>TimerHeap\<close>, \<open>Timer\<close>: \<open>kernel/timer.c\<close>; the locale \<open>timer_queue\<close> is the contract of the heap.
  \<^item> \<open>Frame\<close>: what each operation leaves unchanged.  \<open>Inherit\<close>: the effective priorities.
  \<^item> \<open>Kernel\<close>: the state machine of all threads and interrupts, and its invariant.  \<open>Progress\<close>: the same steps as a function of
    what happens next, and which of them return.  \<open>Scenario\<close>: a run that meets the
    hypotheses of the properties.
  \<^item> \<open>CircBuf\<close>, \<open>Strings\<close>, \<open>Stdlib\<close>, \<open>Stdio\<close>, \<open>TimeLib\<close>, \<open>Readline\<close>: \<open>lib/\<close> and its headers; the locale \<open>byte_fifo\<close> is the
    contract of the circular buffer.
  \<^item> \<open>TextBuffer\<close>, \<open>Machine\<close>, \<open>Keyboard\<close>, \<open>Cmos\<close>: \<open>arch/i386/\<close>.  \<open>Entry\<close>: its \<open>kernel/isr.S\<close> and \<open>include/arch.h\<close>, segment registers,
    the handler of unexpected interrupts, \<open>assert\<close> and \<open>abort\<close>.
  \<^item> \<open>Shell\<close>: \<open>applications/shell.c\<close> and \<open>kernel/utsname.c\<close>.
  \<^item> \<open>System\<close>: kernel, keyboard and \<open>interrupt_dispatch\<close> as one state machine and its invariant.  \<open>Startup\<close>: \<open>kernel/main.c\<close> and
    \<open>arch_init\<close>, from which the reachable states of the system begin.  \<open>Boot\<close>: \<open>arch/i386/boot/multiboot.S\<close>, which enters \<open>main\<close>.
  \<^item> \<open>Calls\<close>: what a thread sees of its calls.  \<open>Philosophers\<close>, \<open>ProducerConsumer\<close>: the other two programs of \<open>applications/\<close>, run on
    the kernel.
  \<^item> \<open>KernelProps\<close>, \<open>LibProps\<close>, \<open>DeviceProps\<close>, \<open>SystemProps\<close>: the properties, each with a witness.

  \<^bold>\<open>State and operations.\<close>  Kernel state is a record that every operation takes and returns; an operation that can fail an
  assertion, go through a null pointer, leave an array or loop for ever returns a \<open>result\<close>.  An operation runs with interrupts
  disabled, so it is one step.  One that calls \<open>schedule\<close> in its middle is split there: the first part ends with another
  thread current, the rest runs when the thread is resumed, and what it still has to do is its \<open>frame\<close> in theory
  \<open>Kernel\<close>.  Library code that walks through memory works on a map from addresses to bytes.  Output is the list of
  characters given to \<open>putchar\<close>, port output a list of value and port.

  \<^bold>\<open>What is shown.\<close>  Every state reachable from boot satisfies the kernel invariant; from it follow mutual
  exclusion, that no wake-up is lost, and the behaviour of every system call on every branch.  Every call that keeps the rules of
  use returns, unless the chain of owners along which it passes on priorities does not end.  Interrupts leave the interrupted code
  as it was.  Priority inheritance keeps
  every thread at the maximum of its own priority and those it blocks.  Start-up leads from the boot loader to the running shell, and from then on
  the thread that waits for a key never sleeps while a character is there.  The philosophers never wait in a circle; the
  producer and the consumer exclude each other and never both sleep.  The heap is a priority queue, a sleeping thread is
  woken at its tick and not before.  Queue macros, circular buffer and heap refine lists, bounded queues and priority
  queues.  Number and date conversions are inverse to each other.  Formatted output, console, calendar and
  command lines do what their formats say.  Where the code does not do what it should, a property says so:
  deadlock makes the machine hang in the priority propagation, which also follows a null pointer when it meets a mutex between two
  owners, a timed wait has no timer while it waits and neither has a thread that loses the processor inside \<open>sleep\<close>, \<open>memmove\<close> to a higher address is
  off by one, and padding of a single character does not end.

  \<^bold>\<open>Fuel.\<close>  \<open>pthread_spread\<close> follows the chain of owners; \<open>SPREAD_FUEL\<close> is more than the longest chain without a cycle, and
  with a cycle every amount runs out.  \<open>has_loop\<close> has \<open>WALK_FUEL\<close>, which is enough in every reachable state.
  \<open>timer_expire\<close> is given the number of timers, each pass taking one away.  Loops over strings, of the clock driver and of the padding of a
  character are partial functions, undefined when the loop does not end.

  \<^bold>\<open>Not modelled.\<close>  Build files, linker scripts and the generated list of interrupt vectors; the branches of
  \<open>CONFIG_USERSPACE\<close> and \<open>CONFIG_SWI\<close>, which the build leaves out; headers with only types and prototypes.  \<open>abort\<close>, a failed
  \<open>assert\<close> and an interrupt without a handler end a run: the kernel theories have a fault there, and theory \<open>Entry\<close> shows what is
  printed.  The contents of stacks and the interrupt flag are not part of the kernel state: theories \<open>Machine\<close> and \<open>Entry\<close> show what
  a context switch, an interrupt and a critical section do to registers, flags and stack, and the kernel theories take a switch as the change of
  \<open>pthread_current\<close> and an operation between \<open>interrupt_disable\<close> and \<open>interrupt_enable\<close> as one step.
\<close>

end
